(* ===== verification/Prelude.thy ===== *)
theory Prelude
  imports Main "HOL-Library.Word"
begin

text \<open>
  What every component of the development shares: the machine types of the crate, the faults a
  Rust program can end in, programs as state transformers that may fault or diverge, the loop
  combinator, the pieces of the Rust core library the crate calls on slices, and the
  total-correctness calculus (\<open>runs\<close>, the collection \<open>wp\<close>) in which the components are proved.

  A program of type \<open>('s, 'a) prog\<close> maps a state to \<open>None\<close> (it never returns), to
  \<open>Some (Inl f)\<close> (it panics, or has undefined behaviour) or to \<open>Some (Inr (x, s))\<close> (it returns
  \<open>x\<close> in state \<open>s\<close>). Every loop of the crate that is not a plain walk over a slice is an instance
  of \<open>loop_m\<close>, so not returning is a value of the model and returning has to be proved.
\<close>

unbundle bit_operations_syntax

named_theorems wp \<open>rewrite rules for \<open>runs\<close>\<close>

section \<open>Machine types\<close>

type_synonym c_int = int
type_synonym c_uint = "32 word"
type_synonym u8 = "8 word"
type_synonym usize = nat

abbreviation i32_MIN :: int where
  "i32_MIN \<equiv> - 2147483648"

abbreviation i32_MAX :: int where
  "i32_MAX \<equiv> 2147483647"

definition in_i32 :: "int \<Rightarrow> bool" where
  "in_i32 x \<longleftrightarrow> i32_MIN \<le> x \<and> x \<le> i32_MAX"

definition wrap_i32 :: "int \<Rightarrow> int" where
  "wrap_i32 x = (x + 2147483648) mod 4294967296 - 2147483648"

section \<open>Programs\<close>

datatype fault = Overflow | Debug_Assert | Index_OOB | UB | Assert | Unwrap | Panic

datatype ('a, 'e) result = Ok 'a | Err 'e

datatype ('c, 'b) ctl = Continue 'c | Break 'b

type_synonym ('s, 'a) prog = "'s \<Rightarrow> (fault + 'a \<times> 's) option"

definition ret :: "'a \<Rightarrow> ('s, 'a) prog" where
  "ret x s = Some (Inr (x, s))"

definition fail :: "fault \<Rightarrow> ('s, 'a) prog" where
  "fail f s = Some (Inl f)"

definition bnd :: "('s, 'a) prog \<Rightarrow> ('a \<Rightarrow> ('s, 'b) prog) \<Rightarrow> ('s, 'b) prog" where
  "bnd m f s = (case m s of
     None \<Rightarrow> None
   | Some (Inl e) \<Rightarrow> Some (Inl e)
   | Some (Inr (x, s')) \<Rightarrow> f x s')"

definition gets :: "('s \<Rightarrow> 'a) \<Rightarrow> ('s, 'a) prog" where
  "gets f s = Some (Inr (f s, s))"

definition modify :: "('s \<Rightarrow> 's) \<Rightarrow> ('s, unit) prog" where
  "modify f s = Some (Inr ((), f s))"

text \<open>\<open>debug_assert!\<close>: compiled in only when debug assertions are on.\<close>

definition debug_assert :: "bool \<Rightarrow> bool \<Rightarrow> ('s, unit) prog" where
  "debug_assert dbg b = (if dbg \<and> \<not> b then fail Debug_Assert else ret ())"

text \<open>\<open>assert!\<close> and \<open>assert_eq!\<close> are always compiled in. \<open>unwrap\<close> and \<open>unwrap_err\<close> panic on the other constructor.\<close>

definition assert_m :: "bool \<Rightarrow> ('s, unit) prog" where
  "assert_m b = (if b then ret () else fail Assert)"

definition assert_eq_m :: "('s, 'a) prog \<Rightarrow> 'a \<Rightarrow> ('s, unit) prog" where
  "assert_eq_m p v = bnd p (\<lambda>x. assert_m (x = v))"

definition unwrap :: "('a, 'e) result \<Rightarrow> ('s, 'a) prog" where
  "unwrap r = (case r of Ok x \<Rightarrow> ret x | Err _ \<Rightarrow> fail Unwrap)"

definition unwrap_err :: "('a, 'e) result \<Rightarrow> ('s, 'e) prog" where
  "unwrap_err r = (case r of Ok _ \<Rightarrow> fail Unwrap | Err e \<Rightarrow> ret e)"

definition unwrap_some :: "'a option \<Rightarrow> ('s, 'a) prog" where
  "unwrap_some x = (case x of Some y \<Rightarrow> ret y | None \<Rightarrow> fail Unwrap)"

text \<open>Statements one after the other, and a block with local variables \<open>l\<close> that its statements change.\<close>

fun stmts :: "('s, unit) prog list \<Rightarrow> ('s, unit) prog" where
  "stmts [] = ret ()"
| "stmts (p # ps) = bnd p (\<lambda>_. stmts ps)"

definition with_locals :: "'l \<Rightarrow> ('l, 'a) prog \<Rightarrow> ('s, 'a \<times> 'l) prog" where
  "with_locals l p s = (case p l of
     None \<Rightarrow> None
   | Some (Inl e) \<Rightarrow> Some (Inl e)
   | Some (Inr xl) \<Rightarrow> Some (Inr (xl, s)))"

text \<open>\<open>i32\<close> arithmetic: an out-of-range result panics when overflow checks are on, and wraps
  around otherwise.\<close>

definition norm_i32 :: "bool \<Rightarrow> int \<Rightarrow> ('s, int) prog" where
  "norm_i32 chk x = (if in_i32 x then ret x else if chk then fail Overflow else ret (wrap_i32 x))"

definition add_i32 :: "bool \<Rightarrow> int \<Rightarrow> int \<Rightarrow> ('s, int) prog" where
  "add_i32 chk a b = norm_i32 chk (a + b)"

definition sub_i32 :: "bool \<Rightarrow> int \<Rightarrow> int \<Rightarrow> ('s, int) prog" where
  "sub_i32 chk a b = norm_i32 chk (a - b)"

definition mul_i32 :: "bool \<Rightarrow> int \<Rightarrow> int \<Rightarrow> ('s, int) prog" where
  "mul_i32 chk a b = norm_i32 chk (a * b)"

text \<open>\<open>checked_add\<close> and \<open>checked_mul\<close> of \<open>i32\<close>.\<close>

definition checked_i32 :: "int \<Rightarrow> int option" where
  "checked_i32 x = (if in_i32 x then Some x else None)"

text \<open>Slice reads: \<open>xs[i]\<close> panics out of range, \<open>get_unchecked\<close> is undefined behaviour there.\<close>

definition index :: "'a list \<Rightarrow> nat \<Rightarrow> ('s, 'a) prog" where
  "index xs i = (if i < length xs then ret (xs ! i) else fail Index_OOB)"

definition get_unchecked :: "'a list \<Rightarrow> nat \<Rightarrow> ('s, 'a) prog" where
  "get_unchecked xs i = (if i < length xs then ret (xs ! i) else fail UB)"

text \<open>\<open>Iterator::position\<close>: the index of the first element that satisfies the predicate.\<close>

fun position :: "('a \<Rightarrow> bool) \<Rightarrow> 'a list \<Rightarrow> nat option" where
  "position P [] = None"
| "position P (x # xs) = (if P x then Some 0 else map_option Suc (position P xs))"

text \<open>A \<open>for\<close> loop whose body is followed by the \<open>?\<close> operator.\<close>

fun try_for :: "('i \<Rightarrow> ('s, (unit, unit) result) prog) \<Rightarrow> 'i list \<Rightarrow> ('s, (unit, unit) result) prog" where
  "try_for body [] = ret (Ok ())"
| "try_for body (i # is) =
     bnd (body i) (\<lambda>r. case r of Err _ \<Rightarrow> ret (Err ()) | Ok u \<Rightarrow> try_for body is)"

text \<open>\<open>loop\<close>: repeats the body until it breaks with a value.\<close>

partial_function (option) loop_m ::
  "('c \<Rightarrow> ('s, ('c, 'b) ctl) prog) \<Rightarrow> 'c \<Rightarrow> 's \<Rightarrow> (fault + 'b \<times> 's) option" where
  "loop_m body c s = (case body c s of
     None \<Rightarrow> None
   | Some r \<Rightarrow> (case r of
       Inl e \<Rightarrow> Some (Inl e)
     | Inr p \<Rightarrow> (case fst p of
         Continue c' \<Rightarrow> loop_m body c' (snd p)
       | Break x \<Rightarrow> Some (Inr (x, snd p)))))"

declare loop_m.simps [code]

section \<open>Total correctness\<close>

definition runs :: "('s, 'a) prog \<Rightarrow> 's \<Rightarrow> ('a \<Rightarrow> 's \<Rightarrow> bool) \<Rightarrow> bool" where
  "runs m s Q \<longleftrightarrow> (\<exists>x s'. m s = Some (Inr (x, s')) \<and> Q x s')"

lemma runsI: "m s = Some (Inr (x, s')) \<Longrightarrow> Q x s' \<Longrightarrow> runs m s Q"
  by (auto simp: runs_def)

lemma runsE:
  assumes "runs m s Q"
  obtains x s' where "m s = Some (Inr (x, s'))" "Q x s'"
  using assms by (auto simp: runs_def)

lemma runs_conseq: "runs m s P \<Longrightarrow> (\<And>x s'. P x s' \<Longrightarrow> Q x s') \<Longrightarrow> runs m s Q"
  by (auto simp: runs_def)

lemma runs_conj: "runs m s P \<Longrightarrow> runs m s Q \<Longrightarrow> runs m s (\<lambda>x s'. P x s' \<and> Q x s')"
  by (auto simp: runs_def)

lemma runs_ret [wp]: "runs (ret x) s Q \<longleftrightarrow> Q x s"
  by (simp add: runs_def ret_def)

lemma runs_fail [wp]: "\<not> runs (fail f) s Q"
  by (simp add: runs_def fail_def)

lemma runs_bnd [wp]: "runs (bnd m f) s Q \<longleftrightarrow> runs m s (\<lambda>x s'. runs (f x) s' Q)"
  by (auto simp: runs_def bnd_def split: option.splits sum.splits)

lemma runs_bndI: "runs m s P \<Longrightarrow> (\<And>x s'. P x s' \<Longrightarrow> runs (f x) s' Q) \<Longrightarrow> runs (bnd m f) s Q"
  by (auto simp: wp intro: runs_conseq)

lemma runs_gets [wp]: "runs (gets f) s Q \<longleftrightarrow> Q (f s) s"
  by (simp add: runs_def gets_def)

lemma runs_modify [wp]: "runs (modify f) s Q \<longleftrightarrow> Q () (f s)"
  by (simp add: runs_def modify_def)

lemma runs_debug_assert [wp]: "runs (debug_assert d b) s Q \<longleftrightarrow> (d \<longrightarrow> b) \<and> Q () s"
  by (auto simp: debug_assert_def wp)

lemma runs_assert_m [wp]: "runs (assert_m b) s Q \<longleftrightarrow> b \<and> Q () s"
  by (simp add: assert_m_def wp)

lemma runs_unwrap [wp]:
  "runs (unwrap r) s Q \<longleftrightarrow> (\<exists>x. r = Ok x \<and> Q x s)"
  "runs (unwrap_err r) s Q' \<longleftrightarrow> (\<exists>e. r = Err e \<and> Q' e s)"
  "runs (unwrap_some y) s Q \<longleftrightarrow> (\<exists>x. y = Some x \<and> Q x s)"
  by (simp_all add: unwrap_def unwrap_err_def unwrap_some_def wp split: result.split option.split)

lemma runs_stmts_Nil [wp]: "runs (stmts []) s Q \<longleftrightarrow> Q () s"
  by (simp add: wp)

lemma runs_stmts_Cons [wp]: "runs (stmts (p # ps)) s Q \<longleftrightarrow> runs p s (\<lambda>_ s'. runs (stmts ps) s' Q)"
  by (simp add: wp)

lemma runs_with_locals [wp]: "runs (with_locals l p) s Q \<longleftrightarrow> runs p l (\<lambda>x l'. Q (x, l') s)"
  by (auto simp: with_locals_def runs_def split: option.splits sum.splits)

lemma stmts_inv:
  assumes "\<And>p s. p \<in> set ps \<Longrightarrow> I s \<Longrightarrow> runs p s (\<lambda>_. I)" "I s"
  shows "runs (stmts ps) s (\<lambda>_. I)"
  using assms
proof (induction ps arbitrary: s)
  case (Cons p ps)
  have "runs p s (\<lambda>_. I)" using Cons.prems by simp
  then show ?case unfolding runs_stmts_Cons
    by (rule runs_conseq) (rule Cons.IH, use Cons.prems(1) in simp_all)
qed (simp add: wp)

lemma runs_norm_i32 [wp]: "in_i32 x \<Longrightarrow> runs (norm_i32 chk x) s Q \<longleftrightarrow> Q x s"
  by (simp add: norm_i32_def wp)

lemma runs_if [wp]: "runs (if b then m else n) s Q \<longleftrightarrow> (if b then runs m s Q else runs n s Q)"
  by simp

lemma runs_case_prod [wp]: "runs (case p of (a, b) \<Rightarrow> f a b) s Q \<longleftrightarrow> (case p of (a, b) \<Rightarrow> runs (f a b) s Q)"
  by (cases p) simp

lemma runs_Let [wp]: "runs (let x = t in f x) s Q \<longleftrightarrow> runs (f t) s Q"
  by simp

text \<open>The loop rule: an invariant and a measure into the naturals that every repetition lowers.\<close>

lemma runs_loop_m:
  assumes step: "\<And>c s. I c s \<Longrightarrow> runs (body c) s (\<lambda>r s'. case r of
      Continue c' \<Rightarrow> I c' s' \<and> \<mu> c' s' < (\<mu> c s :: nat)
    | Break x \<Rightarrow> Q x s')"
    and init: "I c s"
  shows "runs (loop_m body c) s Q"
  using init
proof (induction "\<mu> c s" arbitrary: c s rule: less_induct)
  case less
  from step [OF less.prems] obtain r s' where r: "body c s = Some (Inr (r, s'))"
    and post: "case r of Continue c' \<Rightarrow> I c' s' \<and> \<mu> c' s' < \<mu> c s | Break x \<Rightarrow> Q x s'"
    by (auto elim: runsE)
  show ?case
  proof (cases r)
    case (Continue c')
    with post have "I c' s'" "\<mu> c' s' < \<mu> c s" by simp_all
    then have "runs (loop_m body c') s' Q" using less.hyps by blast
    with r Continue show ?thesis
      by (auto simp: runs_def loop_m.simps [of body c s])
  next
    case (Break x)
    with r post show ?thesis
      by (auto simp: runs_def loop_m.simps [of body c s])
  qed
qed

text \<open>One iteration of a loop.\<close>

lemma loop_m_Continue: "body c s = Some (Inr (Continue c', s')) \<Longrightarrow> loop_m body c s = loop_m body c' s'"
  by (subst loop_m.simps) simp

lemma loop_m_Break: "body c s = Some (Inr (Break x, s')) \<Longrightarrow> loop_m body c s = Some (Inr (x, s'))"
  by (subst loop_m.simps) simp

text \<open>What holds of the value a loop returns, if it returns one, whatever the body calls.\<close>

lemma loop_m_partial:
  assumes "loop_m body c s = Some (Inr (x, s'))" "P c s"
    and step: "\<And>c s c' s'. P c s \<Longrightarrow> body c s = Some (Inr (Continue c', s')) \<Longrightarrow> P c' s'"
    and stop: "\<And>c s x s'. P c s \<Longrightarrow> body c s = Some (Inr (Break x, s')) \<Longrightarrow> Q x"
  shows "Q x"
proof -
  have "body = body \<longrightarrow> P c s \<longrightarrow> (\<forall>y t. (Inr (x, s') :: fault + _) = Inr (y, t) \<longrightarrow> Q y)"
  proof (rule loop_m.raw_induct [where P = "\<lambda>b c s r. b = body \<longrightarrow> P c s \<longrightarrow> (\<forall>y t. r = Inr (y, t) \<longrightarrow> Q y)", OF _ assms(1)],
      intro impI allI)
    fix loop b c s r y t
    assume IH: "\<And>b c s r. loop b c s = Some r \<Longrightarrow> b = body \<longrightarrow> P c s \<longrightarrow> (\<forall>y t. r = Inr (y, t) \<longrightarrow> Q y)"
      and run: "(case b c s of None \<Rightarrow> None | Some (Inl e) \<Rightarrow> Some (Inl e)
        | Some (Inr p) \<Rightarrow> (case fst p of Continue c' \<Rightarrow> loop b c' (snd p) | Break x \<Rightarrow> Some (Inr (x, snd p)))) = Some r"
      and b: "b = body" "P c s" "r = Inr (y, t)"
    then obtain ct s1 where ct: "body c s = Some (Inr (ct, s1))" by (auto split: option.splits sum.splits)
    show "Q y"
    proof (cases ct)
      case (Continue c')
      with ct b run have "loop body c' s1 = Some (Inr (y, t))" by simp
      with IH [of body c' s1] step [OF b(2)] ct Continue show ?thesis by blast
    next
      case (Break z)
      with ct b run stop [OF b(2)] show ?thesis by auto
    qed
  qed
  with assms(2) show ?thesis by blast
qed

lemma loop_m_returns:
  assumes "loop_m body c s = Some (Inr (x, s'))" "P c"
    and "\<And>c s c' s'. P c \<Longrightarrow> body c s = Some (Inr (Continue c', s')) \<Longrightarrow> P c'"
    and "\<And>c s x s'. P c \<Longrightarrow> body c s = Some (Inr (Break x, s')) \<Longrightarrow> Q x"
  shows "Q x"
  by (rule loop_m_partial [where P = "\<lambda>c _. P c", OF assms])

section \<open>Program equations\<close>

lemma bnd_ret [simp]: "bnd (ret x) f = f x"
  by (rule ext) (simp add: bnd_def ret_def)

lemma bnd_fail [simp]: "bnd (fail e) f = fail e"
  by (rule ext) (simp add: bnd_def fail_def)

lemma bnd_ret_right [simp]: "bnd m ret = m"
  by (rule ext) (auto simp: bnd_def ret_def split: option.splits sum.splits)

lemma bnd_assoc: "bnd (bnd m f) g = bnd m (\<lambda>x. bnd (f x) g)"
  by (rule ext) (auto simp: bnd_def split: option.splits sum.splits)

lemma debug_assert_True [simp]: "debug_assert d True = ret ()"
  by (simp add: debug_assert_def)

lemma debug_assert_off [simp]: "debug_assert False b = ret ()"
  by (simp add: debug_assert_def)

lemma norm_i32_in [simp]: "in_i32 x \<Longrightarrow> norm_i32 chk x = ret x"
  by (simp add: norm_i32_def)

lemma try_for_append:
  "try_for body (xs @ ys) =
     bnd (try_for body xs) (\<lambda>r. case r of Err _ \<Rightarrow> ret (Err ()) | Ok u \<Rightarrow> try_for body ys)"
proof (induction xs)
  case (Cons i xs)
  then show ?case
    by (auto simp: bnd_assoc intro!: arg_cong [where f = "bnd (body i)"] split: result.splits)
qed simp

lemma try_for_cong:
  "(\<And>i. i \<in> set xs \<Longrightarrow> f i = g i) \<Longrightarrow> try_for f xs = try_for g xs"
  by (induction xs) (auto intro!: arg_cong [where f = "bnd _"] split: result.splits)

lemma try_for_map: "try_for body (map h xs) = try_for (\<lambda>i. body (h i)) xs"
  by (induction xs) (simp_all cong: result.case_cong)

section \<open>Flags\<close>

lemma or_and_absorb: "(a OR b) AND b = (b :: int)"
  by (rule bit_eqI) (auto simp: bit_simps)

lemma or_absorb_flags: "a AND b = b \<Longrightarrow> a OR b = (a :: int)"
  by (rule bit_eqI) (metis bit_and_iff bit_or_iff)

section \<open>Lists\<close>

lemma position_None: "position P xs = None \<longleftrightarrow> (\<forall>x\<in>set xs. \<not> P x)"
  by (induction xs) auto

lemma position_Some_drop: "position P xs = Some i \<Longrightarrow> drop i xs = dropWhile (\<lambda>x. \<not> P x) xs"
  by (induction xs arbitrary: i) (auto split: if_splits)

lemma position_Some_less: "position P xs = Some i \<Longrightarrow> i < length xs \<and> P (xs ! i)"
  by (induction xs arbitrary: i) (auto split: if_splits)

lemma sorted_dropWhile_less:
  "sorted xs \<Longrightarrow> set (dropWhile (\<lambda>x. x < (a::'a::linorder)) xs) = {x \<in> set xs. a \<le> x}"
  by (induction xs) auto

end
