(* ===== verification/Platform.thy ===== *)
theory Platform
  imports Prelude
begin

text \<open>
  What the crate is compiled for and what it runs on.

  \<^item> \<open>target_os\<close> and the \<open>cfg_\<close> predicates are the \<^verbatim>\<open>#[cfg(target_os = ...)]\<close> attributes of the
    sources; \<open>config\<close> adds the build profile (debug assertions, overflow checks) and the data
    layout of the target.
  \<^item> \<open>sys_dirent\<close> and the constants of \<^verbatim>\<open>src/sys.rs\<close>.
  \<^item> \<open>'k os\<close> is the interface of libc and the kernel: one field per foreign function the crate
    calls and per libc constant it names. The kernel is not part of the crate, so it is a
    parameter of the model: every operation takes the \<open>os\<close> record, and \<open>'k\<close> is whatever state the
    kernel keeps. What the crate relies on is stated in the theory \<open>Kernel\<close>.
  \<^item> \<open>'k world\<close> is the state an operation runs in: the kernel and the crate's atomics.
\<close>

section \<open>Targets\<close>

datatype target_os =
  Linux | Macos | Ios | Freebsd | Netbsd | Openbsd | Dragonfly | Solaris | Illumos | Other_Unix

text \<open>The targets on which \<^verbatim>\<open>iterfds::dirfd\<close> is compiled in.\<close>

definition cfg_dirfd :: "target_os \<Rightarrow> bool" where
  "cfg_dirfd t \<longleftrightarrow> t \<in> {Linux, Macos, Ios, Freebsd, Netbsd, Solaris, Illumos}"

text \<open>The targets on which the number of open descriptors can be asked for.\<close>

definition cfg_nfds :: "target_os \<Rightarrow> bool" where
  "cfg_nfds t \<longleftrightarrow> t \<in> {Freebsd, Openbsd}"

text \<open>The targets that have \<^verbatim>\<open>closefrom()\<close>.\<close>

definition cfg_closefrom :: "target_os \<Rightarrow> bool" where
  "cfg_closefrom t \<longleftrightarrow> t \<in> {Freebsd, Netbsd, Openbsd, Dragonfly}"

text \<open>The layout of a \<open>#[repr(C)]\<close> directory entry: the offsets of the two fields the crate reads,
  the length of the \<open>d_name\<close> array and the size of the whole structure.\<close>

record dirent_layout =
  d_reclen_off :: nat
  d_name_off :: nat
  d_name_len :: nat
  d_size :: nat

record config =
  target :: target_os
  debug_assertions :: bool
  overflow_checks :: bool
  big_endian :: bool
  usize_bits :: nat
  size_ino_t :: nat
  libc_dirent :: dirent_layout

section \<open>The declarations of sys.rs\<close>

definition CLOSE_RANGE_CLOEXEC :: c_uint where
  "CLOSE_RANGE_CLOEXEC = push_bit 2 1"

definition SYS_CLOSE_RANGE :: c_int where
  "SYS_CLOSE_RANGE = 575"

definition KERN_PROC_NFDS :: c_int where
  "KERN_PROC_NFDS = 43"

definition SYS_GETDIRENTRIES64 :: c_int where
  "SYS_GETDIRENTRIES64 = 344"

text \<open>Offsets under \<open>repr(C)\<close>: each field, given by size and alignment, starts at the next multiple
  of its alignment; the size of the structure is rounded up to the largest alignment.\<close>

definition align_up :: "nat \<Rightarrow> nat \<Rightarrow> nat" where
  "align_up n a = (n + a - 1) div a * a"

fun repr_c_offsets :: "nat \<Rightarrow> (nat \<times> nat) list \<Rightarrow> nat list" where
  "repr_c_offsets n [] = []"
| "repr_c_offsets n ((sz, al) # fs) = align_up n al # repr_c_offsets (align_up n al + sz) fs"

fun repr_c_end :: "nat \<Rightarrow> (nat \<times> nat) list \<Rightarrow> nat" where
  "repr_c_end n [] = n"
| "repr_c_end n ((sz, al) # fs) = repr_c_end (align_up n al + sz) fs"

definition repr_c_size :: "(nat \<times> nat) list \<Rightarrow> nat" where
  "repr_c_size fs = align_up (repr_c_end 0 fs) (fold max (map snd fs) 1)"

text \<open>The fields of \<^verbatim>\<open>sys::dirent\<close>: \<open>d_fileno\<close>, \<open>d_off\<close>, \<open>d_reclen\<close>, \<open>d_type\<close>, \<open>d_pad0\<close>, \<open>d_namlen\<close>,
  \<open>d_pad1\<close>, \<open>d_name\<close>. The width of \<open>ino_t\<close> is libc's.\<close>

definition sys_dirent_fields :: "nat \<Rightarrow> (nat \<times> nat) list" where
  "sys_dirent_fields ino = [(ino, ino), (8, 8), (2, 2), (1, 1), (1, 1), (2, 2), (2, 2), (256, 1)]"

definition sys_dirent :: "nat \<Rightarrow> dirent_layout" where
  "sys_dirent ino =
     \<lparr>d_reclen_off = repr_c_offsets 0 (sys_dirent_fields ino) ! 2,
      d_name_off = repr_c_offsets 0 (sys_dirent_fields ino) ! 7,
      d_name_len = 256,
      d_size = repr_c_size (sys_dirent_fields ino)\<rparr>"

text \<open>\<^verbatim>\<open>RawDirent\<close> (src/iterfds/dirfd.rs, lines 2, 15, 28 and 44): \<^verbatim>\<open>sys::dirent\<close> on FreeBSD, libc's structure elsewhere.\<close>

definition RawDirent :: "config \<Rightarrow> dirent_layout" where
  "RawDirent cfg = (if target cfg = Freebsd then sys_dirent (size_ino_t cfg) else libc_dirent cfg)"

text \<open>A concrete configuration, for examples: a 64-bit target with the layout of Linux.\<close>

definition ref_layout :: dirent_layout where
  "ref_layout = \<lparr>d_reclen_off = 16, d_name_off = 19, d_name_len = 256, d_size = 280\<rparr>"

definition ref_config :: "target_os \<Rightarrow> bool \<Rightarrow> bool \<Rightarrow> config" where
  "ref_config t dbg be = \<lparr>target = t, debug_assertions = dbg, overflow_checks = dbg, big_endian = be,
     usize_bits = 64, size_ino_t = 8, libc_dirent = ref_layout\<rparr>"

section \<open>The foreign interface\<close>

datatype open_flag = O_RDONLY | O_DIRECTORY | O_CLOEXEC

record 'k os =
  c_FD_CLOEXEC :: c_int
  c_EINVAL :: c_int
  c_SYS_close_range :: c_int
  c_CTL_KERN :: c_int
  c_KERN_PROC :: c_int
  c_KERN_OSRELDATE :: c_int
  os_errno :: "'k \<Rightarrow> c_int"
  os_set_errno :: "c_int \<Rightarrow> 'k \<Rightarrow> 'k"
  os_close :: "c_int \<Rightarrow> 'k \<Rightarrow> c_int \<times> 'k"
  os_fcntl_getfd :: "c_int \<Rightarrow> 'k \<Rightarrow> c_int \<times> 'k"
  os_fcntl_setfd :: "c_int \<Rightarrow> c_int \<Rightarrow> 'k \<Rightarrow> c_int \<times> 'k"
  os_fcntl_maxfd :: "c_int \<Rightarrow> 'k \<Rightarrow> c_int \<times> 'k"
  os_sysconf_open_max :: "'k \<Rightarrow> int \<times> 'k"
  os_sysctl :: "c_int list \<Rightarrow> 'k \<Rightarrow> (c_int \<times> c_int) \<times> 'k"
  os_getdtablecount :: "'k \<Rightarrow> c_int \<times> 'k"
  os_open :: "string \<Rightarrow> open_flag list \<Rightarrow> 'k \<Rightarrow> c_int \<times> 'k"
  os_stat_dev :: "string \<Rightarrow> 'k \<Rightarrow> (c_int \<times> nat) \<times> 'k"
  os_fstat_dev :: "c_int \<Rightarrow> 'k \<Rightarrow> (c_int \<times> nat) \<times> 'k"
  os_getdents64 :: "c_uint \<Rightarrow> usize \<Rightarrow> 'k \<Rightarrow> (int \<times> u8 list) \<times> 'k"
  os_getdirentries :: "c_int \<Rightarrow> usize \<Rightarrow> 'k \<Rightarrow> (int \<times> u8 list) \<times> 'k"
  os_syscall_getdirentries :: "c_int \<Rightarrow> c_int \<Rightarrow> usize \<Rightarrow> 'k \<Rightarrow> (int \<times> u8 list) \<times> 'k"
  os_getdents :: "c_int \<Rightarrow> usize \<Rightarrow> 'k \<Rightarrow> (int \<times> u8 list) \<times> 'k"
  os_syscall3 :: "c_int \<Rightarrow> c_uint \<Rightarrow> c_uint \<Rightarrow> c_uint \<Rightarrow> 'k \<Rightarrow> int \<times> 'k"
  os_closefrom :: "c_int \<Rightarrow> 'k \<Rightarrow> 'k"
  os_uname_release :: "'k \<Rightarrow> u8 list \<times> 'k"

section \<open>The state an operation runs in\<close>

text \<open>The crate's static atomics keep their source names: \<^verbatim>\<open>MAY_HAVE_CLOSE_RANGE\<close> (closefds/close.rs:90),
  \<^verbatim>\<open>HAS_CLOSE_RANGE\<close> (closefds/close.rs:123), \<^verbatim>\<open>MAY_HAVE_CLOSE_RANGE_CLOEXEC\<close> (closefds/cloexec.rs:7),
  \<^verbatim>\<open>IS_WSL1\<close> (util.rs:87) and \<^verbatim>\<open>PROBED\<close> (lib.rs:145).\<close>

record 'k world =
  kern :: 'k
  MAY_HAVE_CLOSE_RANGE :: bool
  MAY_HAVE_CLOSE_RANGE_CLOEXEC :: bool
  HAS_CLOSE_RANGE :: u8
  IS_WSL1 :: u8
  PROBED :: bool

definition init_world :: "'k \<Rightarrow> 'k world" where
  "init_world k = \<lparr>kern = k, MAY_HAVE_CLOSE_RANGE = True, MAY_HAVE_CLOSE_RANGE_CLOEXEC = True,
     HAS_CLOSE_RANGE = 2, IS_WSL1 = 2, PROBED = False\<rparr>"

text \<open>A foreign call: it returns a value and changes the kernel, never the atomics.\<close>

definition sys :: "('k \<Rightarrow> 'a \<times> 'k) \<Rightarrow> ('k world, 'a) prog" where
  "sys f w = (case f (kern w) of (x, k) \<Rightarrow> Some (Inr (x, w\<lparr>kern := k\<rparr>)))"

definition sysu :: "('k \<Rightarrow> 'k) \<Rightarrow> ('k world, unit) prog" where
  "sysu f w = Some (Inr ((), w\<lparr>kern := f (kern w)\<rparr>))"

text \<open>Nothing but the kernel differs between two worlds.\<close>

definition only_kern :: "'k world \<Rightarrow> 'k world \<Rightarrow> bool" where
  "only_kern w w' \<longleftrightarrow> w' = w\<lparr>kern := kern w'\<rparr>"

text \<open>The casts of the sources: \<^verbatim>\<open>as c_uint\<close> and \<^verbatim>\<open>as usize\<close>.\<close>

definition as_c_uint :: "c_int \<Rightarrow> c_uint" where
  "as_c_uint x = word_of_int x"

definition as_usize :: "config \<Rightarrow> int \<Rightarrow> usize" where
  "as_usize cfg x = nat (x mod 2 ^ usize_bits cfg)"

section \<open>Lemmas\<close>

lemma runs_sys [wp]:
  "runs (sys f) w Q \<longleftrightarrow> Q (fst (f (kern w))) (w\<lparr>kern := snd (f (kern w))\<rparr>)"
  by (simp add: sys_def runs_def split: prod.split)

lemma runs_sysu [wp]: "runs (sysu f) w Q \<longleftrightarrow> Q () (w\<lparr>kern := f (kern w)\<rparr>)"
  by (simp add: sysu_def runs_def)

lemma uint_as_c_uint: "0 \<le> x \<Longrightarrow> x \<le> i32_MAX \<Longrightarrow> uint (as_c_uint x) = x"
  by (simp add: as_c_uint_def uint_word_of_int)

lemma only_kern_refl [simp]: "only_kern w w"
  by (simp add: only_kern_def)

lemma only_kern_upd [simp]: "only_kern w (w'\<lparr>kern := k\<rparr>) \<longleftrightarrow> only_kern w w'"
  by (cases w; cases w') (simp add: only_kern_def)

lemma only_kern_trans: "only_kern w w' \<Longrightarrow> only_kern w' w'' \<Longrightarrow> only_kern w w''"
  by (cases w; cases w'; cases w'') (simp add: only_kern_def)

end
