(* ===== verification/Util.thy ===== *)
theory Util
  imports Platform
begin

text \<open>
  The helpers of \<^verbatim>\<open>src/util.rs\<close>: scanning, shrinking and searching the list of descriptors to keep,
  the walk over the gaps between them (\<^verbatim>\<open>apply_range\<close>), the WSL 1 test and the two wrappers around
  \<^verbatim>\<open>fcntl()\<close>. The lemmas say what each of them computes; for \<^verbatim>\<open>apply_range\<close> that is the list
  \<open>gaps\<close> of ranges it hands to its callback, in order, until one fails.
\<close>

section \<open>Definitions\<close>

fun inspect_loop :: "config \<Rightarrow> c_int list \<Rightarrow> c_int \<Rightarrow> c_int \<Rightarrow> bool \<Rightarrow> ('s, c_int \<times> bool) prog" where
  "inspect_loop cfg [] max_keep_fd last_fd fds_sorted = ret (max_keep_fd, fds_sorted)"
| "inspect_loop cfg (fd # fds) max_keep_fd last_fd fds_sorted =
     (if fd > max_keep_fd then
        bnd (debug_assert (debug_assertions cfg) (last_fd \<le> fd)) (\<lambda>_.
        inspect_loop cfg fds fd fd fds_sorted)
      else if last_fd > fd then inspect_loop cfg fds max_keep_fd fd False
      else inspect_loop cfg fds max_keep_fd fd fds_sorted)"

definition inspect_keep_fds :: "config \<Rightarrow> c_int list \<Rightarrow> ('s, c_int \<times> bool) prog" where
  "inspect_keep_fds cfg keep_fds = inspect_loop cfg keep_fds i32_MIN i32_MIN True"

text \<open>\<^verbatim>\<open>simplify_keep_fds\<close> returns the shortened slice and the new value of \<^verbatim>\<open>*minfd\<close>.\<close>

fun simplify_loop :: "config \<Rightarrow> c_int list \<Rightarrow> c_int \<Rightarrow> ('s, c_int list \<times> c_int) prog" where
  "simplify_loop cfg [] minfd = ret ([], minfd)"
| "simplify_loop cfg (first # rest) minfd =
     (if first > minfd then ret (first # rest, minfd)
      else if first = minfd then
        bnd (add_i32 (overflow_checks cfg) minfd 1) (\<lambda>minfd'. simplify_loop cfg rest minfd')
      else simplify_loop cfg rest minfd)"

definition simplify_keep_fds ::
  "config \<Rightarrow> c_int list \<Rightarrow> bool \<Rightarrow> c_int \<Rightarrow> ('s, c_int list \<times> c_int) prog" where
  "simplify_keep_fds cfg keep_fds fds_sorted minfd =
     (if fds_sorted then simplify_loop cfg keep_fds minfd else ret (keep_fds, minfd))"

text \<open>\<^verbatim>\<open>check_should_keep\<close> returns its answer and the new value of \<^verbatim>\<open>*keep_fds\<close>.\<close>

definition check_should_keep :: "c_int list \<Rightarrow> c_int \<Rightarrow> bool \<Rightarrow> bool \<times> c_int list" where
  "check_should_keep keep_fds fd fds_sorted =
     (if fds_sorted then
        (let keep_fds' = (case position (\<lambda>x. x \<ge> fd) keep_fds of
                            Some ix \<Rightarrow> drop ix keep_fds
                          | None \<Rightarrow> keep_fds)
         in (case keep_fds' of first # _ \<Rightarrow> first = fd | [] \<Rightarrow> False, keep_fds'))
      else (fd \<in> set keep_fds, keep_fds))"

text \<open>The bytes of \<open>b"Microsoft"\<close>, \<^verbatim>\<open>slice::ends_with\<close> and the WSL 1 test with its cached answer.\<close>

definition microsoft :: "u8 list" where
  "microsoft = [77, 105, 99, 114, 111, 115, 111, 102, 116]"

definition ends_with :: "'a list \<Rightarrow> 'a list \<Rightarrow> bool" where
  "ends_with xs ys \<longleftrightarrow> length ys \<le> length xs \<and> drop (length xs - length ys) xs = ys"

definition uname_is_wsl1 :: "u8 list \<Rightarrow> bool" where
  "uname_is_wsl1 release =
     (let len = (case position (\<lambda>c. c = 0) release of Some n \<Rightarrow> n | None \<Rightarrow> length release)
      in ends_with (take len release) microsoft)"

definition is_wsl_1 :: "'k os \<Rightarrow> ('k world, bool) prog" where
  "is_wsl_1 os = bnd (gets IS_WSL1) (\<lambda>cached.
     if cached = 1 then ret True
     else if cached = 0 then ret False
     else bnd (sys (os_uname_release os)) (\<lambda>release.
       let wsl1 = uname_is_wsl1 release in
       bnd (modify (\<lambda>w. w\<lparr>IS_WSL1 := (if wsl1 then 1 else 0)\<rparr>)) (\<lambda>_.
       ret wsl1)))"

definition is_fd_valid :: "'k os \<Rightarrow> c_int \<Rightarrow> ('k world, bool) prog" where
  "is_fd_valid os fd = bnd (sys (os_fcntl_getfd os fd)) (\<lambda>flags. ret (flags \<ge> 0))"

text \<open>The body of the \<^verbatim>\<open>for\<close> loop of \<^verbatim>\<open>apply_range\<close>, and \<^verbatim>\<open>apply_range\<close>.\<close>

definition apply_range_gap ::
  "config \<Rightarrow> (c_int \<Rightarrow> c_int \<Rightarrow> ('s, (unit, unit) result) prog) \<Rightarrow> c_int list \<Rightarrow> nat \<Rightarrow>
   ('s, (unit, unit) result) prog" where
  "apply_range_gap cfg func keep_fds i =
     bnd (get_unchecked keep_fds i) (\<lambda>low.
     bnd (get_unchecked keep_fds (i + 1)) (\<lambda>high.
     bnd (debug_assert (debug_assertions cfg) (high \<ge> low)) (\<lambda>_.
     bnd (sub_i32 (overflow_checks cfg) high low) (\<lambda>d.
     if d \<ge> 2 then
       bnd (add_i32 (overflow_checks cfg) low 1) (\<lambda>l.
       bnd (sub_i32 (overflow_checks cfg) high 1) (\<lambda>h.
       func l h))
     else ret (Ok ())))))"

definition apply_range ::
  "config \<Rightarrow> c_int \<Rightarrow> c_int list \<Rightarrow> (c_int \<Rightarrow> c_int \<Rightarrow> ('s, (unit, unit) result) prog) \<Rightarrow>
   ('s, (unit, unit) result) prog" where
  "apply_range cfg minfd keep_fds func =
     (case position (\<lambda>fd. fd \<ge> minfd) keep_fds of
        None \<Rightarrow> func minfd i32_MAX
      | Some ix \<Rightarrow>
          let keep = drop ix keep_fds in
          bnd (index keep 0) (\<lambda>k0.
          bnd (if k0 > minfd
               then bnd (sub_i32 (overflow_checks cfg) k0 1) (\<lambda>h. func minfd h)
               else ret (Ok ())) (\<lambda>r.
          case r of Err _ \<Rightarrow> ret (Err ()) | Ok _ \<Rightarrow>
          bnd (try_for (apply_range_gap cfg func keep) [0..<length keep - 1]) (\<lambda>r.
          case r of Err _ \<Rightarrow> ret (Err ()) | Ok _ \<Rightarrow>
          bnd (index keep (length keep - 1)) (\<lambda>klast.
          bnd (add_i32 (overflow_checks cfg) klast 1) (\<lambda>l.
          func l i32_MAX))))))"

definition set_cloexec :: "'k os \<Rightarrow> c_int \<Rightarrow> ('k world, unit) prog" where
  "set_cloexec os fd = bnd (sys (os_fcntl_getfd os fd)) (\<lambda>flags.
     if flags \<ge> 0 \<and> flags AND c_FD_CLOEXEC os \<noteq> c_FD_CLOEXEC os then
       bnd (sys (os_fcntl_setfd os fd (flags OR c_FD_CLOEXEC os))) (\<lambda>_. ret ())
     else ret ())"

text \<open>The specification of \<^verbatim>\<open>apply_range\<close>: the maximal ranges from \<open>minfd\<close> on that avoid the list.\<close>

fun gaps_between :: "c_int list \<Rightarrow> (c_int \<times> c_int) list" where
  "gaps_between (a # b # xs) =
     (if b - a \<ge> 2 then [(a + 1, b - 1)] else []) @ gaps_between (b # xs)"
| "gaps_between [a] = []"
| "gaps_between [] = []"

definition gaps :: "c_int \<Rightarrow> c_int list \<Rightarrow> (c_int \<times> c_int) list" where
  "gaps minfd keep_fds =
     (case dropWhile (\<lambda>x. x < minfd) keep_fds of
        [] \<Rightarrow> [(minfd, i32_MAX)]
      | k # ks \<Rightarrow> (if k > minfd then [(minfd, k - 1)] else []) @ gaps_between (k # ks) @
                  [(last (k # ks) + 1, i32_MAX)])"

section \<open>Inspecting the list\<close>

lemma inspect_loop_eq:
  assumes "\<forall>fd\<in>set fds. i32_MIN \<le> fd" "last_fd \<le> mx" "i32_MIN \<le> last_fd"
  shows "inspect_loop cfg fds mx last_fd srt =
    ret (fold max fds mx, srt \<and> sorted (last_fd # fds))"
  using assms
proof (induction fds arbitrary: mx last_fd srt)
  case (Cons fd fds)
  consider "fd > mx" | "fd \<le> mx" "last_fd > fd" | "fd \<le> mx" "last_fd \<le> fd" by linarith
  then show ?case
  proof cases
    case 1
    with Cons show ?thesis
      by (simp add: sorted2 max_absorb1 max_absorb2 del: sorted_wrt.simps)
  next
    case 2
    with Cons show ?thesis
      by (simp add: sorted2 max_absorb1 max_absorb2 del: sorted_wrt.simps)
  next
    case 3
    with Cons show ?thesis
      by (simp add: sorted2 max_absorb1 max_absorb2 del: sorted_wrt.simps)
  qed
qed simp

lemma inspect_keep_fds_eq:
  assumes "\<forall>fd\<in>set fds. in_i32 fd"
  shows "inspect_keep_fds cfg fds = ret (fold max fds i32_MIN, sorted fds)"
  using assms by (auto simp: inspect_keep_fds_def inspect_loop_eq in_i32_def)

lemma fold_max_ge: "(a::int) \<le> fold max xs a \<and> (\<forall>x\<in>set xs. x \<le> fold max xs a)"
  by (induction xs arbitrary: a) (auto, (meson le_max_iff_disj max.bounded_iff order_trans)+)


lemma fold_max_in: "fold max xs (a::int) \<in> insert a (set xs)"
  by (induction xs arbitrary: a) (auto simp: max_def split: if_splits)

section \<open>Simplifying the list\<close>

lemma has_other: "m \<le> x \<Longrightarrow> x \<le> i32_MAX \<Longrightarrow> x \<notin> set fds \<Longrightarrow> \<not> {m..i32_MAX} \<subseteq> set fds"
  by auto

text \<open>The loop stops at the least descriptor from \<open>minfd\<close> on that is not in the list.\<close>

lemma simplify_loop_ret:
  assumes "sorted fds" "\<not> {minfd..i32_MAX} \<subseteq> set fds" "in_i32 minfd"
  shows "\<exists>fds' m. simplify_loop cfg fds minfd = (ret (fds', m) :: ('s, c_int list \<times> c_int) prog) \<and> minfd \<le> m \<and> in_i32 m \<and>
    fds' = filter (\<lambda>x. m < x) fds \<and> m \<notin> set fds \<and> {minfd..<m} \<subseteq> set fds"
  using assms
proof (induction fds arbitrary: minfd)
  case Nil
  then show ?case by (intro exI [of _ "[]"] exI [of _ minfd]) simp
next
  case (Cons fd fds)
  consider "minfd < fd" | "fd = minfd" | "fd < minfd" by linarith
  then show ?case
  proof cases
    case 1
    with Cons.prems have "filter (\<lambda>x. minfd < x) fds = fds" by (auto intro!: filter_True)
    with 1 Cons.prems show ?thesis by (intro exI [of _ "fd # fds"] exI [of _ minfd]) auto
  next
    case 2
    from Cons.prems(2) obtain x where "x \<in> {minfd..i32_MAX}" "x \<notin> set (fd # fds)" by blast
    then have x: "minfd \<le> x" "x \<le> i32_MAX" "x \<noteq> fd" "x \<notin> set fds" by simp_all
    with 2 Cons.prems(3) have "in_i32 (minfd + 1)" by (simp add: in_i32_def)
    moreover have "\<not> {minfd + 1..i32_MAX} \<subseteq> set fds" using x 2 by (intro has_other [of _ x]) simp_all
    ultimately obtain fds' m where
      m: "simplify_loop cfg fds (minfd + 1) = (ret (fds', m) :: ('s, c_int list \<times> c_int) prog)" "minfd + 1 \<le> m" "in_i32 m"
        "fds' = filter (\<lambda>x. m < x) fds" "m \<notin> set fds" "{minfd + 1..<m} \<subseteq> set fds"
      using Cons.IH [of "minfd + 1"] Cons.prems(1) by auto
    have "{minfd..<m} \<subseteq> insert minfd {minfd + 1..<m}" by auto
    with m(6) have "{minfd..<m} \<subseteq> insert minfd (set fds)" by blast
    with m 2 \<open>in_i32 (minfd + 1)\<close> show ?thesis
      by (intro exI [of _ fds'] exI [of _ m]) (auto simp: add_i32_def)
  next
    case 3
    then have "\<not> {minfd..i32_MAX} \<subseteq> set fds" using Cons.prems(2) by auto
    with Cons.prems Cons.IH [of minfd] obtain fds' m where
      m: "simplify_loop cfg fds minfd = (ret (fds', m) :: ('s, c_int list \<times> c_int) prog)"
        "minfd \<le> m" "in_i32 m"
        "fds' = filter (\<lambda>x. m < x) fds" "m \<notin> set fds" "{minfd..<m} \<subseteq> set fds"
      by auto
    with 3 show ?thesis by (intro exI [of _ fds'] exI [of _ m]) auto
  qed
qed

lemma simplify_keep_fds_ret:
  assumes "srt \<longrightarrow> sorted fds" "\<not> {minfd..i32_MAX} \<subseteq> set fds" "in_i32 minfd"
  obtains fds' m where
    "simplify_keep_fds cfg fds srt minfd = (ret (fds', m) :: ('s, c_int list \<times> c_int) prog)"
    "minfd \<le> m" "in_i32 m" "set fds' \<subseteq> set fds" "sorted fds \<longrightarrow> sorted fds'"
    "\<forall>x \<ge> m. x \<in> set fds' \<longleftrightarrow> x \<in> set fds" "{minfd..<m} \<subseteq> set fds"
    "srt \<longrightarrow> fds' = filter (\<lambda>x. m < x) fds \<and> m \<notin> set fds"
proof (cases srt)
  case True
  with assms simplify_loop_ret [of fds minfd cfg] obtain fds' m where
    m: "simplify_loop cfg fds minfd = (ret (fds', m) :: ('s, c_int list \<times> c_int) prog)" "minfd \<le> m" "in_i32 m"
      "fds' = filter (\<lambda>x. m < x) fds" "m \<notin> set fds" "{minfd..<m} \<subseteq> set fds"
    by blast
  from m(4,5) have "\<forall>x \<ge> m. x \<in> set fds' \<longleftrightarrow> x \<in> set fds" by (auto simp: order_le_less)
  with m True show ?thesis
    by (intro that [of fds' m]) (auto simp: simplify_keep_fds_def sorted_filter [of "\<lambda>x. x", simplified])
next
  case False
  with assms(3) show ?thesis
    by (intro that [of fds minfd]) (auto simp: simplify_keep_fds_def)
qed

section \<open>Searching the list\<close>

lemma first_is_member:
  assumes "sorted xs" "\<forall>x\<in>set xs. (a::int) \<le> x"
  shows "(case xs of y # _ \<Rightarrow> y = a | [] \<Rightarrow> False) \<longleftrightarrow> a \<in> set xs"
  using assms by (cases xs) (auto intro: antisym)

lemma check_should_keep_spec:
  assumes "srt \<longrightarrow> sorted keep"
  obtains keep' where "check_should_keep keep fd srt = (fd \<in> set keep, keep')"
    "srt \<longrightarrow> sorted keep'" "set keep' \<subseteq> set keep" "\<forall>x \<ge> fd. x \<in> set keep' \<longleftrightarrow> x \<in> set keep"
proof (cases srt)
  case False
  then show ?thesis by (intro that [of keep]) (auto simp: check_should_keep_def)
next
  case srt: True
  show ?thesis
  proof (cases "position (\<lambda>x. x \<ge> fd) keep")
    case None
    then have "\<forall>x\<in>set keep. x < fd" by (auto simp: position_None)
    with None srt assms show ?thesis
      by (intro that [of keep]) (auto simp: check_should_keep_def split: list.splits)
  next
    case (Some ix)
    let ?k = "dropWhile (\<lambda>x. x < fd) keep"
    have k: "drop ix keep = ?k" using position_Some_drop [OF Some] by (simp add: not_le)
    from assms srt have s: "set ?k = {x \<in> set keep. fd \<le> x}" "sorted ?k"
      by (auto simp: sorted_dropWhile_less sorted_dropWhile)
    have "(case ?k of first # _ \<Rightarrow> first = fd | [] \<Rightarrow> False) \<longleftrightarrow> fd \<in> set ?k"
      by (rule first_is_member) (use s in auto)
    with s Some srt k show ?thesis
      by (intro that [of ?k]) (auto simp: check_should_keep_def)
  qed
qed

section \<open>Walking over the gaps\<close>

lemma unit_result_eta:
  "bnd m (\<lambda>r. case r of Err _ \<Rightarrow> ret (Err ()) | Ok u \<Rightarrow> ret (Ok ())) = (m :: ('s, (unit, unit) result) prog)"
proof -
  have "(\<lambda>r. case r of Err _ \<Rightarrow> ret (Err ()) | Ok u \<Rightarrow> ret (Ok ())) = (ret :: _ \<Rightarrow> ('s, (unit, unit) result) prog)"
    by (auto split: result.splits)
  then show ?thesis by simp
qed

lemma try_for_single: "try_for f [i] = f i"
  by (simp add: unit_result_eta)

lemma apply_range_gap_Cons: "apply_range_gap cfg func (k # ks) (Suc i) = apply_range_gap cfg func ks i"
  by (simp add: apply_range_gap_def get_unchecked_def)

lemma apply_range_gap_0:
  assumes "0 \<le> a" "a \<le> b" "b \<le> i32_MAX"
  shows "apply_range_gap cfg func (a # b # ks) 0 =
    (if b - a \<ge> 2 then func (a + 1) (b - 1) else ret (Ok ()))"
  using assms by (auto simp: apply_range_gap_def get_unchecked_def sub_i32_def add_i32_def in_i32_def)

lemma try_for_gaps_between:
  assumes "sorted ks" "\<forall>k\<in>set ks. 0 \<le> k \<and> k \<le> i32_MAX"
  shows "try_for (apply_range_gap cfg func ks) [0..<length ks - 1] =
    try_for (\<lambda>(l, h). func l h) (gaps_between ks)"
  using assms
proof (induction ks rule: gaps_between.induct)
  case (1 a b xs)
  have "[0..<length (a # b # xs) - 1] = 0 # map Suc [0..<length (b # xs) - 1]"
    by (simp add: upt_conv_Cons map_Suc_upt del: upt_Suc)
  then have "try_for (apply_range_gap cfg func (a # b # xs)) [0..<length (a # b # xs) - 1] =
      bnd (apply_range_gap cfg func (a # b # xs) 0) (\<lambda>r. case r of Err _ \<Rightarrow> ret (Err ())
        | Ok u \<Rightarrow> try_for (\<lambda>(l, h). func l h) (gaps_between (b # xs)))"
    using 1 by (simp add: try_for_map apply_range_gap_Cons del: upt_Suc)
  with 1 show ?case by (simp add: apply_range_gap_0)
qed simp_all

lemma sorted_le_last: "sorted xs \<Longrightarrow> x \<in> set xs \<Longrightarrow> x \<le> last xs"
  by (induction xs) auto

text \<open>\<^verbatim>\<open>apply_range\<close> calls its callback on the gaps, in order, until one call fails.\<close>

lemma bnd_arg_eq: "(\<And>x. f x = g x) \<Longrightarrow> bnd m f = bnd m g"
  by presburger

text \<open>Before the last range, nothing can overflow. Its start is \<^verbatim>\<open>minfd\<close> or the successor of the last entry.\<close>

definition last_start :: "config \<Rightarrow> c_int \<Rightarrow> c_int list \<Rightarrow> ('s, c_int) prog" where
  "last_start cfg minfd keep =
     (if \<forall>k\<in>set keep. k < minfd then ret minfd else add_i32 (overflow_checks cfg) (last keep) 1)"

lemma last_start_succ:
  assumes "k \<in> set keep" "minfd \<le> k"
  shows "last_start cfg minfd keep = add_i32 (overflow_checks cfg) (last keep) 1"
proof -
  have "\<not> (\<forall>k\<in>set keep. k < minfd)" using assms by (meson not_le)
  then show ?thesis unfolding last_start_def by (rule if_not_P)
qed

lemma apply_range_unfold:
  fixes func :: "c_int \<Rightarrow> c_int \<Rightarrow> ('s, (unit, unit) result) prog"
  assumes "sorted keep" "\<forall>k\<in>set keep. in_i32 k" "0 \<le> minfd"
  shows "apply_range cfg minfd keep func =
    bnd (try_for (\<lambda>(l, h). func l h) (butlast (gaps minfd keep))) (\<lambda>r. case r of Err _ \<Rightarrow> ret (Err ())
      | Ok _ \<Rightarrow> bnd (last_start cfg minfd keep) (\<lambda>l. func l i32_MAX))"
proof (cases "position (\<lambda>fd. fd \<ge> minfd) keep")
  case None
  then have "dropWhile (\<lambda>x. x < minfd) keep = []" "\<forall>k\<in>set keep. k < minfd" by (auto simp: position_None not_le)
  with None show ?thesis
    by (simp add: apply_range_def gaps_def last_start_def del: dropWhile_eq_Nil_conv)
next
  case (Some ix)
  note ix = position_Some_less [OF Some]
  then have "drop ix keep \<noteq> []" by auto
  moreover have keep: "drop ix keep = dropWhile (\<lambda>x. x < minfd) keep"
    using position_Some_drop [OF Some] by (simp add: not_le)
  ultimately obtain k ks where ks: "dropWhile (\<lambda>x. x < minfd) keep = k # ks" by (metis neq_Nil_conv)
  have set_ks: "set (k # ks) = {x \<in> set keep. minfd \<le> x}" "sorted (k # ks)"
    using assms(1) by (simp_all add: sorted_dropWhile_less sorted_dropWhile flip: ks)
  then have range: "\<forall>x\<in>set (k # ks). 0 \<le> x \<and> x \<le> i32_MAX" using assms(2,3) by (auto simp: in_i32_def)
  then have l: "in_i32 (k - 1)" by (auto simp: in_i32_def)
  have last: "(k # ks) ! (length (k # ks) - 1) = last keep"
    using last_drop [OF conjunct1 [OF ix]] unfolding keep ks by (metis last_conv_nth list.distinct(1))
  have start: "last_start cfg minfd keep = (add_i32 (overflow_checks cfg) (last keep) 1 :: ('s, c_int) prog)"
    using set_ks(1) by (intro last_start_succ [of k]) auto
  have "try_for (apply_range_gap cfg func (k # ks)) [0..<length (k # ks) - 1] =
      try_for (\<lambda>(l, h). func l h) (gaps_between (k # ks))"
    using range set_ks(2) by (intro try_for_gaps_between) auto
  with Some keep ks l last show ?thesis unfolding start
    by (auto simp: apply_range_def gaps_def index_def sub_i32_def try_for_append try_for_single butlast_append bnd_assoc
        Let_def simp del: try_for.simps(2) last.simps length_Cons nth_Cons_Suc
        intro!: bnd_arg_eq split: result.splits)
qed

lemma gaps_Nil: "\<forall>k\<in>set keep. k < minfd \<Longrightarrow> gaps minfd keep = [(minfd, i32_MAX)]"
proof -
  assume "\<forall>k\<in>set keep. k < minfd"
  then have "dropWhile (\<lambda>x. x < minfd) keep = []" by simp
  then show ?thesis unfolding gaps_def by (simp only: list.case)
qed

lemma gaps_Cons:
  assumes "k \<in> set keep" "minfd \<le> k"
  shows "gaps minfd keep = butlast (gaps minfd keep) @ [(last keep + 1, i32_MAX)]"
proof -
  obtain x xs where xs: "dropWhile (\<lambda>x. x < minfd) keep = x # xs"
    using assms by (cases "dropWhile (\<lambda>x. x < minfd) keep") auto
  then have "last keep = last (x # xs)" by (metis last_appendR list.distinct(1) takeWhile_dropWhile_id)
  then show ?thesis unfolding gaps_def xs list.case by (simp add: butlast_append del: last.simps)
qed

lemma apply_range_eq:
  fixes func :: "c_int \<Rightarrow> c_int \<Rightarrow> ('s, (unit, unit) result) prog"
  assumes "sorted keep" "\<forall>k\<in>set keep. in_i32 k \<and> k < i32_MAX" "0 \<le> minfd"
  shows "apply_range cfg minfd keep func = try_for (\<lambda>(l, h). func l h) (gaps minfd keep)"
proof -
  have in32: "\<forall>k\<in>set keep. in_i32 k" using assms(2) by blast
  note unfold = apply_range_unfold [OF assms(1) in32 assms(3), of cfg func]
  show ?thesis
  proof (cases "\<forall>k\<in>set keep. k < minfd")
    case True
    then show ?thesis unfolding unfold gaps_Nil [OF True] try_for_single last_start_def if_P [OF True] by simp
  next
    case False
    then obtain k where k: "k \<in> set keep" "minfd \<le> k" by (meson not_le)
    then have "last keep \<in> set keep" by (cases keep) simp_all
    with assms(2) have "in_i32 (last keep) \<and> last keep < i32_MAX" by blast
    then have "in_i32 (last keep + 1)" by (simp add: in_i32_def)
    then have "last_start cfg minfd keep = (ret (last keep + 1) :: ('s, c_int) prog)" unfolding last_start_succ [OF k] by (simp add: add_i32_def)
    then show ?thesis unfolding unfold by (subst (2) gaps_Cons [OF k]) (auto simp: try_for_append try_for_single
      simp del: try_for.simps(2) intro!: bnd_arg_eq split: result.splits)
  qed
qed

text \<open>In a build without overflow checks the start of the last range wraps around when the list holds \<^verbatim>\<open>i32::MAX\<close>.\<close>

lemma apply_range_wraps:
  fixes func :: "c_int \<Rightarrow> c_int \<Rightarrow> ('s, (unit, unit) result) prog"
  assumes "sorted keep" "\<forall>k\<in>set keep. in_i32 k" "0 \<le> minfd" "minfd \<le> i32_MAX" "i32_MAX \<in> set keep" "\<not> overflow_checks cfg"
  shows "apply_range cfg minfd keep func = try_for (\<lambda>(l, h). func l h) (butlast (gaps minfd keep) @ [(i32_MIN, i32_MAX)])"
proof -
  have "last keep = i32_MAX"
    using assms(1,2,5) sorted_le_last [OF assms(1,5)] last_in_set [of keep] by (fastforce simp: in_i32_def)
  then have "last_start cfg minfd keep = (ret i32_MIN :: ('s, c_int) prog)"
    unfolding last_start_succ [OF assms(5,4)] using assms(6) by (simp add: add_i32_def norm_i32_def in_i32_def wrap_i32_def)
  then show ?thesis
    unfolding apply_range_unfold [OF assms(1-3)] try_for_append try_for_single prod.case by simp
qed

lemma interval_split:
  assumes "(a::int) \<le> b" "b \<le> z" "b \<in> S" "\<forall>x\<in>S. b \<le> x"
  shows "{a + 1..b - 1} \<union> ({b..z} - S) = {a..z} - insert a S"
  using assms by auto

lemma interval_split3:
  assumes "(m::int) \<le> k" "k \<le> l" "l \<le> z" "\<forall>x\<in>S. k \<le> x \<and> x \<le> l"
  shows "{m..k - 1} \<union> ({k..l} - S) \<union> {l + 1..z} = {m..z} - S"
  using assms by fastforce

lemma gaps_between_cover:
  "sorted ks \<Longrightarrow> ks \<noteq> [] \<Longrightarrow>
   (\<Union>(l, h)\<in>set (gaps_between ks). {l..h}) = {hd ks..last ks} - set ks"
proof (induction ks rule: gaps_between.induct)
  case (1 a b xs)
  have "(\<Union>(l, h)\<in>set (gaps_between (a # b # xs)). {l..h}) =
      {a + 1..b - 1} \<union> ({b..last (b # xs)} - set (b # xs))"
    using 1 by auto
  also have "\<dots> = {a..last (b # xs)} - insert a (set (b # xs))"
    using 1 sorted_le_last [of "b # xs" b] by (intro interval_split) auto
  finally show ?case by simp
qed auto

lemma gaps_between_bounds:
  "sorted ks \<Longrightarrow> (l, h) \<in> set (gaps_between ks) \<Longrightarrow> hd ks < l \<and> l \<le> h \<and> h < last ks"
proof (induction ks rule: gaps_between.induct)
  case (1 a b xs)
  then have "b \<le> last (b # xs)" "a \<le> b" using sorted_le_last [of "b # xs" b] by auto
  with 1 show ?case by (auto simp del: last.simps simp: last_ConsR split: if_splits)
qed auto

lemma gaps_between_ascending:
  "sorted ks \<Longrightarrow> sorted_wrt (\<lambda>(l, h) (l', h'). h + 1 < l') (gaps_between ks)"
proof (induction ks rule: gaps_between.induct)
  case (1 a b xs)
  then show ?case using gaps_between_bounds [of "b # xs"] by fastforce
qed auto

lemma dropWhile_less_Cons:
  assumes "sorted keep" "dropWhile (\<lambda>x. x < minfd) keep = k # ks"
  shows "set (k # ks) = {x \<in> set keep. (minfd::int) \<le> x}" "sorted (k # ks)"
  using assms(1) by (simp_all add: sorted_dropWhile_less sorted_dropWhile flip: assms(2))

text \<open>The gaps are nonempty, separated by at least one descriptor of the list, and together they
  are exactly the descriptors from \<open>minfd\<close> on that are not in the list.\<close>

lemma gaps_cover:
  assumes "sorted keep" "\<forall>k\<in>set keep. k \<le> i32_MAX" "minfd \<le> i32_MAX"
  shows "(\<Union>(l, h)\<in>set (gaps minfd keep). {l..h}) = {minfd..i32_MAX} - set keep"
proof (cases "dropWhile (\<lambda>x. x < minfd) keep")
  case Nil
  then have "gaps minfd keep = [(minfd, i32_MAX)]" by (simp only: gaps_def list.case)
  with Nil assms show ?thesis by force
next
  case (Cons k ks)
  note ks = dropWhile_less_Cons [OF assms(1) Cons]
  have last: "last (k # ks) \<in> set (k # ks)" "k \<le> last (k # ks)" "\<forall>x\<in>set (k # ks). x \<le> last (k # ks)"
    using ks(2) sorted_le_last [OF ks(2)] last_in_set [of "k # ks"] by (auto simp del: last.simps)
  have "minfd \<le> k" using ks(1) by auto
  have "(\<Union>(l, h)\<in>set (gaps minfd keep). {l..h}) =
      {minfd..k - 1} \<union> ({k..last (k # ks)} - set (k # ks)) \<union> {last (k # ks) + 1..i32_MAX}"
    using gaps_between_cover [OF ks(2)] Cons by (auto simp: gaps_def simp del: gaps_between.simps last.simps)
  also have "\<dots> = {minfd..i32_MAX} - set (k # ks)"
  proof (rule interval_split3)
    show "last (k # ks) \<le> i32_MAX" using last(1) ks(1) assms(2) by blast
    show "\<forall>x\<in>set (k # ks). k \<le> x \<and> x \<le> last (k # ks)" using last(3) ks(2) by auto
  qed (use \<open>minfd \<le> k\<close> last(2) in simp_all)
  also have "\<dots> = {minfd..i32_MAX} - set keep" unfolding ks(1) by auto
  finally show ?thesis .
qed

lemma gaps_bounds:
  assumes "sorted keep" "\<forall>k\<in>set keep. k \<le> i32_MAX" "minfd \<le> i32_MAX"
    "(l, h) \<in> set (gaps minfd keep)"
  shows "minfd \<le> l \<and> h \<le> i32_MAX \<and> ((\<forall>k\<in>set keep. k < i32_MAX) \<or> (l, h) \<in> set (butlast (gaps minfd keep)) \<longrightarrow> l \<le> h)"
proof (cases "dropWhile (\<lambda>x. x < minfd) keep")
  case Nil
  then have "gaps minfd keep = [(minfd, i32_MAX)]" by (simp only: gaps_def list.case)
  with assms show ?thesis by simp
next
  case (Cons k ks)
  note ks = dropWhile_less_Cons [OF assms(1) Cons]
  have "minfd \<le> k" "last (k # ks) \<in> set keep" "k \<le> last (k # ks)"
    using ks sorted_le_last [OF ks(2), of k] last_in_set [of "k # ks"] by auto
  then have "minfd \<le> k" "last (k # ks) \<le> i32_MAX" "k \<le> last (k # ks)" "(\<forall>k\<in>set keep. k < i32_MAX) \<longrightarrow> last (k # ks) + 1 \<le> i32_MAX"
    using assms(2) by (auto simp del: last.simps)
  with assms Cons gaps_between_bounds [OF ks(2), of l h] show ?thesis
    by (auto simp: gaps_def simp del: gaps_between.simps last.simps split: if_splits)
qed

lemma gaps_ascending:
  assumes "sorted keep"
  shows "sorted_wrt (\<lambda>(l, h) (l', h'). h + 1 < l') (gaps minfd keep)"
proof (cases "dropWhile (\<lambda>x. x < minfd) keep")
  case Nil
  then have "gaps minfd keep = [(minfd, i32_MAX)]" by (simp only: gaps_def list.case)
  then show ?thesis by simp
next
  case (Cons k ks)
  note ks = dropWhile_less_Cons [OF assms(1) Cons]
  have "k \<le> last (k # ks)" using sorted_le_last [OF ks(2), of k] by simp
  with Cons gaps_between_bounds [OF ks(2)] gaps_between_ascending [OF ks(2)] show ?thesis
    by (fastforce simp: gaps_def sorted_wrt_append simp del: gaps_between.simps last.simps)
qed

section \<open>Properties\<close>

text \<open>
  C10. \<^verbatim>\<open>apply_range\<close> on a sorted list of \<^verbatim>\<open>i32\<close> values below \<^verbatim>\<open>i32::MAX\<close> never panics by itself and calls its
  callback exactly on the maximal ranges between \<^verbatim>\<open>minfd\<close> and \<^verbatim>\<open>i32::MAX\<close> that avoid the list, in ascending
  order, stopping at the first failure: the ranges are nonempty, separated by at least one number, and
  together they are every number from \<^verbatim>\<open>minfd\<close> on that is not in the list.
\<close>

theorem apply_range_visits_gaps:
  assumes "sorted keep" "\<forall>k\<in>set keep. in_i32 k \<and> k < i32_MAX" "0 \<le> minfd" "minfd \<le> i32_MAX"
  shows "apply_range cfg minfd keep func = try_for (\<lambda>(l, h). func l h) (gaps minfd keep) \<and>
    (\<Union>(l, h)\<in>set (gaps minfd keep). {l..h}) = {minfd..i32_MAX} - set keep \<and>
    (\<forall>l h. (l, h) \<in> set (gaps minfd keep) \<longrightarrow> minfd \<le> l \<and> l \<le> h \<and> h \<le> i32_MAX) \<and>
    sorted_wrt (\<lambda>(l, h) (l', h'). h + 1 < l') (gaps minfd keep)"
proof -
  have "\<forall>k\<in>set keep. k < i32_MAX" using assms(2) by blast
  moreover from this have keep: "\<forall>k\<in>set keep. k \<le> i32_MAX" by (simp add: less_imp_le)
  ultimately show ?thesis
    using apply_range_eq [OF assms(1,2,3)] gaps_cover [OF assms(1) keep assms(4)]
      gaps_bounds [OF assms(1) keep assms(4)] gaps_ascending [OF assms(1)] by blast
qed

definition log_range :: "c_int \<Rightarrow> c_int \<Rightarrow> ((c_int \<times> c_int) list, (unit, unit) result) prog" where
  "log_range l h = bnd (modify (\<lambda>s. s @ [(l, h)])) (\<lambda>_. ret (Ok ()))"

theorem apply_range_visits_gaps_witness:
  "\<forall>cfg. apply_range cfg 3 [1, 5, 6, 9] log_range [] = Some (Inr (Ok (), [(3, 4), (7, 8), (10, i32_MAX)]))"
proof
  fix cfg
  show "apply_range cfg 3 [1, 5, 6, 9] log_range [] = Some (Inr (Ok (), [(3, 4), (7, 8), (10, i32_MAX)]))"
    using apply_range_visits_gaps [of "[1, 5, 6, 9]" 3 cfg log_range]
    by (simp add: in_i32_def gaps_def log_range_def bnd_def modify_def ret_def)
qed

text \<open>
  C37. When the list ends in \<^verbatim>\<open>i32::MAX\<close>, the last step of \<^verbatim>\<open>apply_range\<close> adds one to it: with overflow
  checks on, \<^verbatim>\<open>apply_range\<close> panics after it has called its callback on every other range.
\<close>

theorem apply_range_overflow:
  fixes func :: "c_int \<Rightarrow> c_int \<Rightarrow> ('s, (unit, unit) result) prog"
  assumes "sorted keep" "\<forall>k\<in>set keep. in_i32 k" "keep \<noteq> []" "last keep = i32_MAX" "0 \<le> minfd" "minfd \<le> i32_MAX"
    "overflow_checks cfg"
  shows "apply_range cfg minfd keep func =
    bnd (try_for (\<lambda>(l, h). func l h) (butlast (gaps minfd keep))) (\<lambda>r. case r of
      Err _ \<Rightarrow> ret (Err ()) | Ok _ \<Rightarrow> fail Overflow)"
proof -
  have max: "i32_MAX \<in> set keep" using assms(3,4) last_in_set by fastforce
  have "last_start cfg minfd keep = (fail Overflow :: ('s, c_int) prog)"
    unfolding last_start_succ [OF max assms(6)] using assms(4,7) by (simp add: add_i32_def norm_i32_def in_i32_def)
  then show ?thesis unfolding apply_range_unfold [OF assms(1,2,5)] by simp
qed

theorem apply_range_overflow_witness:
  "apply_range (ref_config Linux True False) 3 [5, i32_MAX] log_range [] = Some (Inl Overflow)"
proof -
  have g: "gaps 3 [5, i32_MAX] = [(3, 4), (6, 2147483646), (2147483648, i32_MAX)]" by (simp add: gaps_def)
  show ?thesis
    by (subst apply_range_overflow) (simp_all add: g in_i32_def fail_def ref_config_def log_range_def bnd_def modify_def ret_def)
qed

text \<open>The answers of \<^verbatim>\<open>check_should_keep\<close> to a sequence of questions, each on the list the last one left.\<close>

fun keep_answers :: "c_int list \<Rightarrow> c_int list \<Rightarrow> bool \<Rightarrow> bool list" where
  "keep_answers keep [] srt = []"
| "keep_answers keep (fd # fds) srt =
     (case check_should_keep keep fd srt of (b, keep') \<Rightarrow> b # keep_answers keep' fds srt)"

text \<open>
  C28. \<^verbatim>\<open>check_should_keep\<close> drops entries from the list as it goes. Asked about descriptors in ascending
  order, as the clients do, it still answers each time whether the descriptor is in the original list,
  whether that list is sorted (and flagged so) or not.
\<close>

theorem check_should_keep_ascending:
  assumes "srt \<longrightarrow> sorted keep" "sorted fds"
  shows "keep_answers keep fds srt = map (\<lambda>fd. fd \<in> set keep) fds"
  using assms
proof (induction fds arbitrary: keep)
  case (Cons fd fds)
  obtain keep' where k: "check_should_keep keep fd srt = (fd \<in> set keep, keep')" "srt \<longrightarrow> sorted keep'"
    "\<forall>x \<ge> fd. x \<in> set keep' \<longleftrightarrow> x \<in> set keep"
    using check_should_keep_spec [OF Cons.prems(1)] by metis
  from Cons.IH [OF k(2)] Cons.prems(2) k(3) have "keep_answers keep' fds srt = map (\<lambda>fd. fd \<in> set keep) fds" by simp
  with k(1) show ?case by simp
qed simp

theorem check_should_keep_ascending_witness:
  "keep_answers [0, 1, 4, 5] [3, 4, 6] True = [False, True, False] \<and>
   keep_answers [5, 1, 4] [1, 2, 5] False = [True, False, True]"
  using check_should_keep_ascending [of True "[0, 1, 4, 5]" "[3, 4, 6]"]
    check_should_keep_ascending [of False "[5, 1, 4]" "[1, 2, 5]"] by simp

text \<open>
  C29. \<^verbatim>\<open>simplify_keep_fds\<close> never overflows unless the list holds every number from \<^verbatim>\<open>minfd\<close> to \<^verbatim>\<open>i32::MAX\<close>, and the shorter list and the larger
  \<^verbatim>\<open>minfd\<close> it computes describe the same descriptors: those from \<^verbatim>\<open>minfd\<close> on that are not in the list. When the
  list is sorted, the new \<^verbatim>\<open>minfd\<close> is the least of them and every entry left is larger.
\<close>

theorem simplify_keep_fds_same_range:
  assumes "srt \<longrightarrow> sorted fds" "\<not> {minfd..i32_MAX} \<subseteq> set fds" "in_i32 minfd"
  shows "\<exists>fds' m. simplify_keep_fds cfg fds srt minfd = (ret (fds', m) :: ('s, c_int list \<times> c_int) prog) \<and>
    {m..} - set fds' = {minfd..} - set fds \<and> (srt \<longrightarrow> m \<notin> set fds \<and> sorted fds' \<and> (\<forall>x\<in>set fds'. m < x))"
proof -
  obtain fds' m where m: "simplify_keep_fds cfg fds srt minfd = (ret (fds', m) :: ('s, c_int list \<times> c_int) prog)"
    "minfd \<le> m" "in_i32 m" "set fds' \<subseteq> set fds" "sorted fds \<longrightarrow> sorted fds'"
    "\<forall>x \<ge> m. x \<in> set fds' \<longleftrightarrow> x \<in> set fds" "{minfd..<m} \<subseteq> set fds"
    "srt \<longrightarrow> fds' = filter (\<lambda>x. m < x) fds \<and> m \<notin> set fds"
    using simplify_keep_fds_ret [OF assms] by blast
  have "x \<in> {m..} - set fds' \<longleftrightarrow> x \<in> {minfd..} - set fds" for x
    using m(2,6,7) by (cases "m \<le> x") (auto simp: subset_iff)
  then have "{m..} - set fds' = {minfd..} - set fds" by blast
  with m(1,5,8) assms(1) show ?thesis by (intro exI [of _ fds'] exI [of _ m]) auto
qed

theorem simplify_keep_fds_same_range_witness:
  "\<exists>fds' m. simplify_keep_fds (ref_config Linux True False) [3, 4, 6, 7] True 3 () = Some (Inr ((fds', m), ())) \<and> {m..} - set fds' = {3..} - {3, 4, 6, 7}"
proof -
  obtain fds' m where "simplify_keep_fds (ref_config Linux True False) [3, 4, 6, 7] True 3 = (ret (fds', m) :: (unit, c_int list \<times> c_int) prog)" "{m..} - set fds' = {3..} - {3, 4, 6, 7}"
    using simplify_keep_fds_same_range [of True "[3, 4, 6, 7]" 3 "ref_config Linux True False", where 's = unit] has_other [of 3 5 "[3, 4, 6, 7]"]
    by (auto simp: in_i32_def)
  then show ?thesis by (auto simp: ret_def)
qed

text \<open>
  C36. \<^verbatim>\<open>inspect_keep_fds\<close> never trips its debug assertion, and returns the largest entry of the list
  (\<^verbatim>\<open>i32::MIN\<close> for an empty list) and whether the list is sorted.
\<close>

theorem inspect_keep_fds_correct:
  assumes "\<forall>fd\<in>set fds. in_i32 fd"
  shows "inspect_keep_fds cfg fds = ret (if fds = [] then i32_MIN else Max (set fds), sorted fds)"
proof -
  have "fold max fds i32_MIN = Max (insert i32_MIN (set fds))" by (metis Max.set_eq_fold list.set(2))
  also have "\<dots> = (if fds = [] then i32_MIN else Max (set fds))"
    using assms by (auto simp: in_i32_def)
  finally show ?thesis unfolding inspect_keep_fds_eq [OF assms] by simp
qed

theorem inspect_keep_fds_correct_witness:
  "\<forall>cfg. inspect_keep_fds cfg [3, 9, 4] () = Some (Inr ((9, False), ()))"
  by (subst inspect_keep_fds_correct) (simp_all add: in_i32_def ret_def)

text \<open>
  C39. The WSL 1 test looks at the release name up to its first NUL byte and asks whether it ends in
  \<^verbatim>\<open>Microsoft\<close>; what follows the NUL byte in the buffer does not matter.
\<close>

theorem uname_is_wsl1_iff:
  assumes "0 \<notin> set name"
  shows "uname_is_wsl1 (name @ 0 # junk) \<longleftrightarrow> (\<exists>p. name = p @ microsoft)"
proof -
  have "position (\<lambda>c. c = 0) (name @ 0 # junk) = Some (length name)"
    using assms by (induction name) auto
  moreover have "ends_with name microsoft \<longleftrightarrow> (\<exists>p. name = p @ microsoft)"
    by (auto simp: ends_with_def) (metis append_take_drop_id)
  ultimately show ?thesis by (simp add: uname_is_wsl1_def)
qed

theorem uname_is_wsl1_iff_witness:
  "uname_is_wsl1 ([52, 45] @ microsoft @ 0 # [7, 8]) \<and> \<not> uname_is_wsl1 ([53, 46, 52] @ 0 # [])"
  using uname_is_wsl1_iff [of "[52, 45] @ microsoft" "[7, 8]"] uname_is_wsl1_iff [of "[53, 46, 52]" "[]"]
  by (simp add: microsoft_def)

text \<open>
  C38. \<^verbatim>\<open>is_wsl_1\<close> asks the kernel at most once: after a call, every later call returns the same answer
  and changes nothing, whatever \<^verbatim>\<open>uname()\<close> would say by then.
\<close>

theorem is_wsl_1_cached:
  "runs (is_wsl_1 os) w (\<lambda>b w'. \<forall>os'. is_wsl_1 os' w' = Some (Inr (b, w')))"
  by (auto simp: is_wsl_1_def wp bnd_def gets_def ret_def)

end
