(* ===== verification/Dirents.thy ===== *)
theory Dirents
  imports Util
begin

text \<open>
  The directory entries that \<^verbatim>\<open>src/iterfds/dirfd.rs\<close> reads: the \<^verbatim>\<open>getdents\<close> of each target and the
  parser for descriptor numbers (\<^verbatim>\<open>parse_int_bytes\<close>), and, as specification, the decimal names the
  kernel gives to descriptors and the byte encoding of a sequence of entries.
\<close>

section \<open>Definitions\<close>

text \<open>\<^verbatim>\<open>getdents(fd, buf)\<close>: the result and the bytes written to the front of the buffer.\<close>

definition getdents :: "config \<Rightarrow> 'k os \<Rightarrow> c_int \<Rightarrow> usize \<Rightarrow> 'k \<Rightarrow> (int \<times> u8 list) \<times> 'k" where
  "getdents cfg os fd len = (case target cfg of
     Linux \<Rightarrow> os_getdents64 os (as_c_uint fd) len
   | Freebsd \<Rightarrow> os_getdirentries os fd len
   | Macos \<Rightarrow> os_syscall_getdirentries os SYS_GETDIRENTRIES64 fd len
   | Ios \<Rightarrow> os_syscall_getdirentries os SYS_GETDIRENTRIES64 fd len
   | _ \<Rightarrow> os_getdents os fd len)"

fun parse_int_loop :: "u8 list \<Rightarrow> c_int \<Rightarrow> bool \<Rightarrow> c_int option" where
  "parse_int_loop [] num seen_any = (if seen_any then Some num else None)"
| "parse_int_loop (ch # it) num seen_any =
     (if 48 \<le> ch \<and> ch \<le> 57 then
        (case checked_i32 (num * 10) of None \<Rightarrow> None | Some num10 \<Rightarrow>
        (case checked_i32 (num10 + uint (ch - 48)) of None \<Rightarrow> None | Some num' \<Rightarrow>
           parse_int_loop it num' True))
      else None)"

definition parse_int_bytes :: "u8 list \<Rightarrow> c_int option" where
  "parse_int_bytes it = parse_int_loop it 0 False"

section \<open>Specification of names and entries\<close>

definition is_digit :: "u8 \<Rightarrow> bool" where
  "is_digit c \<longleftrightarrow> 48 \<le> c \<and> c \<le> 57"

definition digits_val :: "int \<Rightarrow> u8 list \<Rightarrow> int" where
  "digits_val a bs = foldl (\<lambda>a c. a * 10 + uint (c - 48)) a bs"

fun dec_bytes :: "nat \<Rightarrow> u8 list" where
  "dec_bytes n = (if n < 10 then [48 + word_of_nat n] else dec_bytes (n div 10) @ [48 + word_of_nat (n mod 10)])"

declare dec_bytes.simps [simp del]

text \<open>A descriptor directory holds the entries \<open>.\<close> and \<open>..\<close> and one entry per descriptor.\<close>

datatype dir_entry = Dot | Dot_Dot | Fd_Entry int

fun entry_name :: "dir_entry \<Rightarrow> u8 list" where
  "entry_name Dot = [46]"
| "entry_name Dot_Dot = [46, 46]"
| "entry_name (Fd_Entry fd) = dec_bytes (nat fd)"

fun entry_fds :: "dir_entry list \<Rightarrow> int list" where
  "entry_fds [] = []"
| "entry_fds (Fd_Entry fd # es) = fd # entry_fds es"
| "entry_fds (_ # es) = entry_fds es"

definition read_u16 :: "bool \<Rightarrow> u8 \<Rightarrow> u8 \<Rightarrow> nat" where
  "read_u16 be b0 b1 = (if be then unat b0 * 256 + unat b1 else unat b0 + unat b1 * 256)"

text \<open>One record: its length is what its \<open>d_reclen\<close> field says, and its \<open>d_name\<close> field holds the name
  followed by a NUL byte, inside the record.\<close>

definition dirent_block :: "dirent_layout \<Rightarrow> bool \<Rightarrow> u8 list \<Rightarrow> u8 list \<Rightarrow> bool" where
  "dirent_block L be name blk \<longleftrightarrow>
     d_reclen_off L + 1 < length blk \<and>
     read_u16 be (blk ! d_reclen_off L) (blk ! (d_reclen_off L + 1)) = length blk \<and>
     length name < d_name_len L \<and>
     take (length name + 1) (drop (d_name_off L) blk) = name @ [0]"

fun dirents :: "dirent_layout \<Rightarrow> bool \<Rightarrow> dir_entry list \<Rightarrow> u8 list \<Rightarrow> bool" where
  "dirents L be [] bs \<longleftrightarrow> bs = []"
| "dirents L be (e # es) bs \<longleftrightarrow>
     (\<exists>n \<le> length bs. dirent_block L be (entry_name e) (take n bs) \<and> dirents L be es (drop n bs))"

section \<open>Parsing\<close>

lemma digits_val_simps [simp]:
  "digits_val a [] = a" "digits_val a (c # cs) = digits_val (a * 10 + uint (c - 48)) cs"
  "digits_val a (cs @ ds) = digits_val (digits_val a cs) ds"
  by (simp_all add: digits_val_def)

lemma digits_val_mono: "0 \<le> a \<Longrightarrow> a \<le> digits_val a bs"
proof (induction bs arbitrary: a)
  case (Cons c bs)
  have "a \<le> a * 10 + uint (c - 48)" using Cons.prems by simp
  with Cons.prems Cons.IH [of "a * 10 + uint (c - 48)"] show ?case
    by (simp only: digits_val_simps) linarith
qed simp

lemma parse_int_loop_eq:
  assumes "0 \<le> num" "num \<le> i32_MAX"
  shows "parse_int_loop bs num seen =
    (if (seen \<or> bs \<noteq> []) \<and> list_all is_digit bs \<and> digits_val num bs \<le> i32_MAX
     then Some (digits_val num bs) else None)"
  using assms
proof (induction bs arbitrary: num seen)
  case (Cons c bs)
  let ?n = "num * 10 + uint (c - 48)"
  have n: "0 \<le> ?n" "0 \<le> num * 10" "num * 10 \<le> ?n" using Cons.prems by simp_all
  show ?case
  proof (cases "?n \<le> i32_MAX")
    case True
    with n have "in_i32 (num * 10)" "in_i32 ?n" by (auto simp only: in_i32_def)
    then have "checked_i32 (num * 10) = Some (num * 10)" "checked_i32 ?n = Some ?n"
      by (simp_all add: checked_i32_def)
    with Cons.IH [OF n(1) True] show ?thesis by (simp add: is_digit_def)
  next
    case False
    then have "i32_MAX < digits_val ?n bs" using digits_val_mono [OF n(1), of bs] by linarith
    with False n show ?thesis by (auto simp: checked_i32_def in_i32_def split: option.splits if_splits)
  qed
qed simp

lemma parse_int_bytes_eq:
  "parse_int_bytes bs =
    (if bs \<noteq> [] \<and> list_all is_digit bs \<and> digits_val 0 bs \<le> i32_MAX then Some (digits_val 0 bs) else None)"
  by (simp add: parse_int_bytes_def parse_int_loop_eq)

lemma dec_digit:
  assumes "n < 10"
  shows "is_digit (48 + word_of_nat n)" "uint (48 + word_of_nat n - 48 :: u8) = int n"
    "48 + word_of_nat n \<noteq> (0 :: u8)"
proof -
  from assms have "n = 0 \<or> n = 1 \<or> n = 2 \<or> n = 3 \<or> n = 4 \<or> n = 5 \<or> n = 6 \<or> n = 7 \<or> n = 8 \<or> n = 9"
    by arith
  then show "is_digit (48 + word_of_nat n)" "uint (48 + word_of_nat n - 48 :: u8) = int n"
    "48 + word_of_nat n \<noteq> (0 :: u8)"
    by (auto simp: is_digit_def)
qed

lemma dec_bytes_props:
  "list_all is_digit (dec_bytes n) \<and> digits_val 0 (dec_bytes n) = int n \<and> dec_bytes n \<noteq> [] \<and>
   0 \<notin> set (dec_bytes n)"
proof (induction n rule: dec_bytes.induct)
  case (1 n)
  show ?case
  proof (cases "n < 10")
    case True
    with dec_digit [OF True] show ?thesis by (subst (1 2 3 4) dec_bytes.simps) simp
  next
    case False
    have "n mod 10 < 10" by simp
    note d = dec_digit [OF this]
    have "int (n div 10) * 10 + int (n mod 10) = int n" by presburger
    with False 1 d show ?thesis by (subst (1 2 3 4) dec_bytes.simps) simp
  qed
qed

lemma parse_entry_name:
  "parse_int_bytes (entry_name (Fd_Entry fd)) = (if nat fd \<le> 2147483647 then Some (int (nat fd)) else None)"
  "parse_int_bytes (entry_name Dot) = None" "parse_int_bytes (entry_name Dot_Dot) = None"
  using dec_bytes_props [of "nat fd"]
  by (auto simp: parse_int_bytes_eq is_digit_def)

lemma entry_name_no_nul: "0 \<notin> set (entry_name e)"
  using dec_bytes_props by (cases e) auto

section \<open>Properties\<close>

text \<open>
  C33. \<^verbatim>\<open>parse_int_bytes\<close> accepts exactly the nonempty strings of ASCII digits whose value fits into an
  \<^verbatim>\<open>i32\<close>, and returns that value: no sign, no other character, and no wrap-around.
\<close>

theorem parse_int_bytes_iff:
  "parse_int_bytes bs = Some v \<longleftrightarrow>
     bs \<noteq> [] \<and> list_all is_digit bs \<and> v = foldl (\<lambda>a c. 10 * a + uint (c - 48)) 0 bs \<and> v \<le> i32_MAX"
proof -
  have "digits_val 0 bs = foldl (\<lambda>a c. 10 * a + uint (c - 48)) 0 bs" by (simp add: digits_val_def mult.commute)
  then show ?thesis unfolding parse_int_bytes_eq by auto
qed

text \<open>
  C34. Parsing the decimal name of a descriptor gives the descriptor back, for every number that an
  \<^verbatim>\<open>i32\<close> can hold, and larger names are rejected; the names \<open>.\<close> and \<open>..\<close> are rejected.
\<close>

theorem parse_print_fd:
  "parse_int_bytes (dec_bytes n) = (if int n \<le> i32_MAX then Some (int n) else None) \<and>
   parse_int_bytes (entry_name Dot) = None \<and> parse_int_bytes (entry_name Dot_Dot) = None"
  using parse_entry_name(1) [of "int n"] parse_entry_name(2,3) by auto

end
