(* ===== verification/Kernel.thy ===== *)
theory Kernel
  imports Dirents
begin

text \<open>
  The contract between the crate and the operating system. The locale \<open>fd_kernel\<close> says, law by law,
  what the documentation of the calls promises about two views of the kernel's state:
  \<^item> \<open>fdt k\<close>, the descriptor table: the flags of every open descriptor;
  \<^item> \<open>dirs k\<close>, the open descriptor directories (\<^verbatim>\<open>/proc/self/fd\<close>, \<^verbatim>\<open>/dev/fd\<close>): how far each has been
    read, as the least descriptor not listed yet and a bound on the number of reads left.
  Most calls may fail, and then they change nothing; nothing says when they fail. The one promise
  that the manual pages do not make, that the descriptors of a directory are listed in ascending
  order, is the assumption the comment in \<^verbatim>\<open>DirFdIter::next\<close> states; it is part of \<open>getdents_law\<close>.
\<close>

section \<open>Views and effects\<close>

type_synonym fd_table = "int \<Rightarrow> int option"

text \<open>What happens to a descriptor that is closed, or gets the close-on-exec flag.\<close>

definition eff_close :: "int option \<Rightarrow> int option" where
  "eff_close fl = None"

definition eff_cloexec :: "int \<Rightarrow> int option \<Rightarrow> int option" where
  "eff_cloexec c fl = map_option (\<lambda>b. b OR c) fl"

definition upd :: "(int option \<Rightarrow> int option) \<Rightarrow> int set \<Rightarrow> fd_table \<Rightarrow> fd_table" where
  "upd eff S T = (\<lambda>fd. if fd \<in> S then eff (T fd) else T fd)"

text \<open>The largest descriptor the scan without a directory looks at (\<^verbatim>\<open>get_maxfd_direct\<close>'s last resort).\<close>

definition scan_max :: "int \<Rightarrow> int" where
  "scan_max open_max = min (max open_max 1024) 65536 - 1"

text \<open>The number under which the target's \<^verbatim>\<open>close_range()\<close> is called.\<close>

definition close_range_nr :: "config \<Rightarrow> 'k os \<Rightarrow> c_int" where
  "close_range_nr cfg os = (if target cfg = Linux then c_SYS_close_range os else SYS_CLOSE_RANGE)"

text \<open>A descriptor number below the limit is free, so that another file can be opened.\<close>

definition has_slot :: "int \<Rightarrow> fd_table \<Rightarrow> bool" where
  "has_slot open_max T \<longleftrightarrow> (\<exists>fd. 0 \<le> fd \<and> fd < open_max \<and> fd < i32_MAX \<and> T fd = None)"

text \<open>The cached answer about WSL 1 is the right one, and FreeBSD's \<^verbatim>\<open>close_range()\<close> is remembered as present only
  if the kernel is new enough for it. Nothing is said of a system call that is remembered as missing.\<close>

definition statics_ok :: "u8 list \<Rightarrow> int \<Rightarrow> 'k world \<Rightarrow> bool" where
  "statics_ok release osreldate w \<longleftrightarrow>
     (IS_WSL1 w = 1 \<longrightarrow> uname_is_wsl1 release) \<and>
     (IS_WSL1 w = 0 \<longrightarrow> \<not> uname_is_wsl1 release) \<and>
     (HAS_CLOSE_RANGE w = 1 \<longrightarrow> osreldate \<ge> 1202000)"

text \<open>A step that leaves both views and the atomics alone.\<close>

definition quiet :: "('k \<Rightarrow> fd_table) \<Rightarrow> ('k \<Rightarrow> int \<Rightarrow> (int \<times> nat) option) \<Rightarrow> 'k world \<Rightarrow> 'k world \<Rightarrow> bool" where
  "quiet fdt dirs w w' \<longleftrightarrow> only_kern w w' \<and> fdt (kern w') = fdt (kern w) \<and> dirs (kern w') = dirs (kern w)"

section \<open>The contract\<close>

locale fd_kernel =
  fixes cfg :: config
    and os :: "'k os"
    and fdt :: "'k \<Rightarrow> fd_table"
    and dirs :: "'k \<Rightarrow> int \<Rightarrow> (int \<times> nat) option"
    and open_max :: int
    and release :: "u8 list"
    and osreldate :: int
    and dirs_work :: bool
  assumes fd_range: "fdt k fd = Some fl \<Longrightarrow> 0 \<le> fd \<and> fd < i32_MAX"
    and fd_flags: "fdt k fd = Some fl \<Longrightarrow> 0 \<le> fl"
    and cloexec_pos: "0 < c_FD_CLOEXEC os"
    and close_fdt: "fdt (snd (os_close os fd k)) = (fdt k)(fd := None)"
    and close_dirs: "d \<noteq> fd \<Longrightarrow> dirs (snd (os_close os fd k)) d = dirs k d"
    and getfd_ret: "fst (os_fcntl_getfd os fd k) = (case fdt k fd of None \<Rightarrow> - 1 | Some fl \<Rightarrow> fl)"
    and getfd_fdt: "fdt (snd (os_fcntl_getfd os fd k)) = fdt k"
    and getfd_dirs: "dirs (snd (os_fcntl_getfd os fd k)) = dirs k"
    and setfd_fdt: "fdt k fd \<noteq> None \<Longrightarrow> 0 \<le> fl \<Longrightarrow>
      fdt (snd (os_fcntl_setfd os fd fl k)) = (fdt k)(fd := Some fl)"
    and setfd_bad: "fdt k fd = None \<Longrightarrow> fdt (snd (os_fcntl_setfd os fd fl k)) = fdt k"
    and setfd_dirs: "dirs (snd (os_fcntl_setfd os fd fl k)) = dirs k"
    and sysconf_ret: "fst (os_sysconf_open_max os k) = open_max"
    and sysconf_fdt: "fdt (snd (os_sysconf_open_max os k)) = fdt k"
    and sysconf_dirs: "dirs (snd (os_sysconf_open_max os k)) = dirs k"
    and uname_ret: "fst (os_uname_release os k) = release"
    and uname_fdt: "fdt (snd (os_uname_release os k)) = fdt k"
    and uname_dirs: "dirs (snd (os_uname_release os k)) = dirs k"
    and closefrom_fdt: "cfg_closefrom (target cfg) \<Longrightarrow> 0 \<le> low \<Longrightarrow>
      fdt (os_closefrom os low k) = upd eff_close {low..} (fdt k)"
    and close_range_law: "target cfg = Linux \<or> target cfg = Freebsd \<and> osreldate \<ge> 1202000 \<Longrightarrow>
      uint lo \<le> uint hi \<Longrightarrow>
      os_syscall3 os (close_range_nr cfg os) lo hi 0 k = (r, k') \<Longrightarrow>
      fdt k' = (if r = 0 then upd eff_close {uint lo..uint hi} (fdt k) else fdt k) \<and>
      (\<forall>d. d \<notin> {uint lo..uint hi} \<or> r \<noteq> 0 \<longrightarrow> dirs k' d = dirs k d)"
    and close_range_cloexec_law: "target cfg = Linux \<Longrightarrow> uint lo \<le> uint hi \<Longrightarrow>
      os_syscall3 os (c_SYS_close_range os) lo hi CLOSE_RANGE_CLOEXEC k = (r, k') \<Longrightarrow>
      fdt k' = (if r = 0 then upd (eff_cloexec (c_FD_CLOEXEC os)) {uint lo..uint hi} (fdt k) else fdt k) \<and>
      dirs k' = dirs k"
    and close_range_inval: "target cfg = Linux \<or> target cfg = Freebsd \<and> osreldate \<ge> 1202000 \<Longrightarrow>
      uint hi < uint lo \<Longrightarrow> os_syscall3 os (close_range_nr cfg os) lo hi flg k = (r, k') \<Longrightarrow>
      r \<noteq> 0 \<and> fdt k' = fdt k \<and> dirs k' = dirs k"
    and open_law: "os_open os path ofl k = (fd, k') \<Longrightarrow> path \<in> {''/proc/self/fd'', ''/dev/fd''} \<Longrightarrow>
      fd < 0 \<and> fdt k' = fdt k \<and> dirs k' = dirs k \<or>
      fdt k fd = None \<and> (\<exists>x. fdt k' = (fdt k)(fd := Some x)) \<and> (\<forall>d. d \<noteq> fd \<longrightarrow> dirs k' d = dirs k d)"
    and open_dir: "os_open os path ofl k = (fd, k') \<Longrightarrow> 0 \<le> fd \<Longrightarrow>
      (target cfg, path) \<in> {(Linux, ''/proc/self/fd''), (Netbsd, ''/proc/self/fd''), (Macos, ''/dev/fd''),
        (Ios, ''/dev/fd''), (Solaris, ''/dev/fd''), (Solaris, ''/proc/self/fd''),
        (Illumos, ''/dev/fd''), (Illumos, ''/proc/self/fd'')} \<Longrightarrow>
      (target cfg = Linux \<longrightarrow> \<not> uname_is_wsl1 release) \<Longrightarrow> \<exists>n. dirs k' fd = Some (0, n)"
    and stat_quiet: "os_stat_dev os path k = (x, k') \<Longrightarrow> fdt k' = fdt k \<and> dirs k' = dirs k"
    and fstat_quiet: "os_fstat_dev os fd k = (x, k') \<Longrightarrow> fdt k' = fdt k \<and> dirs k' = dirs k"
    and fdescfs_law: "target cfg = Freebsd \<Longrightarrow> os_open os ''/dev/fd'' ofl k = (fd, k1) \<Longrightarrow> 0 \<le> fd \<Longrightarrow>
      os_stat_dev os ''/dev'' k1 = ((0, dev), k2) \<Longrightarrow> os_fstat_dev os fd k2 = ((0, dev'), k3) \<Longrightarrow>
      dev \<noteq> dev' \<Longrightarrow> \<exists>n. dirs k3 fd = Some (0, n)"
    and getdents_frame: "fdt k d \<noteq> None \<Longrightarrow> getdents cfg os d len k = ((r, bs), k') \<Longrightarrow>
      fdt k' = fdt k \<and> (\<forall>d'. d' \<noteq> d \<longrightarrow> dirs k' d' = dirs k d')"
    and getdents_law: "dirs k d = Some (p, n) \<Longrightarrow> fdt k d \<noteq> None \<Longrightarrow>
      getdents cfg os d (d_size (RawDirent cfg)) k = ((r, bs), k') \<Longrightarrow>
      r < 0 \<and> \<not> dirs_work \<or>
      r = 0 \<and> (\<forall>fd. fdt k fd \<noteq> None \<longrightarrow> fd < p) \<or>
      r > 0 \<and> int (length bs) = r \<and> length bs \<le> d_size (RawDirent cfg) \<and>
        (\<exists>es p' n'. dirs k' d = Some (p', n') \<and> n' < n \<and> p \<le> p' \<and>
           dirents (RawDirent cfg) (big_endian cfg) es bs \<and> sorted_wrt (<) (entry_fds es) \<and>
           set (entry_fds es) = {fd. fdt k fd \<noteq> None \<and> p \<le> fd \<and> fd < p'})"
    and dirs_work_law: "dirs_work \<Longrightarrow> target cfg \<in> {Linux, Netbsd, Macos, Ios, Solaris, Illumos} \<and>
      (target cfg = Linux \<longrightarrow> \<not> uname_is_wsl1 release) \<and>
      (path \<in> {''/proc/self/fd'', ''/dev/fd''} \<and> has_slot open_max (fdt k) \<longrightarrow> 0 \<le> fst (os_open os path ofl k))"
    and errno_quiet: "fdt (os_set_errno os e k) = fdt k \<and> dirs (os_set_errno os e k) = dirs k"
    and maxfd_law: "target cfg = Netbsd \<Longrightarrow> os_fcntl_maxfd os 0 (os_set_errno os 0 k) = (m, k') \<Longrightarrow>
      fdt k' = fdt k \<and> dirs k' = dirs k \<and>
      (m = - 1 \<and> (os_errno os k' = 0 \<longrightarrow> (\<forall>fd. fdt k fd = None)) \<or>
       fdt k m \<noteq> None \<and> (\<forall>fd. fdt k fd \<noteq> None \<longrightarrow> fd \<le> m))"
    and sysctl_quiet: "os_sysctl os mib k = (y, k') \<Longrightarrow> fdt k' = fdt k \<and> dirs k' = dirs k"
    and sysctl_nfds: "target cfg = Freebsd \<Longrightarrow>
      os_sysctl os [c_CTL_KERN os, c_KERN_PROC os, KERN_PROC_NFDS, 0] k = ((0, v), k') \<Longrightarrow>
      v = int (card {fd. fdt k fd \<noteq> None})"
    and sysctl_osreldate: "os_sysctl os [c_CTL_KERN os, c_KERN_OSRELDATE os] k = ((0, v), k') \<Longrightarrow> v = osreldate"
    and dtablecount_law: "target cfg = Openbsd \<Longrightarrow> os_getdtablecount os k = (v, k') \<Longrightarrow>
      fdt k' = fdt k \<and> dirs k' = dirs k \<and> v = int (card {fd. fdt k fd \<noteq> None})"
begin

lemma finite_fds: "finite {fd. fdt k fd \<noteq> None}"
  by (rule finite_subset [of _ "{0..i32_MAX}"]) (auto dest!: fd_range)

lemmas quiet_simps = getfd_fdt getfd_dirs sysconf_fdt sysconf_dirs sysconf_ret uname_fdt uname_dirs
  uname_ret errno_quiet

end

section \<open>Updating a table\<close>

lemma upd_apply: "upd eff S T fd = (if fd \<in> S then eff (T fd) else T fd)"
  by (simp add: upd_def)

lemma upd_empty [simp]: "upd eff {} T = T"
  by (simp add: upd_def)

lemma upd_cong_dom:
  "eff None = None \<Longrightarrow> (\<And>fd. T fd \<noteq> None \<Longrightarrow> fd \<in> S \<longleftrightarrow> fd \<in> S') \<Longrightarrow> upd eff S T = upd eff S' T"
  by (rule ext) (metis upd_apply)

lemma upd_upto:
  assumes "eff None = None" "\<And>fd. T fd \<noteq> None \<Longrightarrow> fd < i32_MAX" "i32_MAX \<le> b"
  shows "upd eff ({a..b} - K) T = upd eff ({a..} - K) T"
proof (rule upd_cong_dom [of eff, OF assms(1)])
  fix fd assume "T fd \<noteq> None"
  then have "fd \<le> b" using assms(2) [of fd] assms(3) by simp
  then show "fd \<in> {a..b} - K \<longleftrightarrow> fd \<in> {a..} - K" by simp
qed

lemma upd_upd: "(\<And>x. eff (eff x) = eff x) \<Longrightarrow> upd eff S (upd eff S' T) = upd eff (S \<union> S') T"
  by (rule ext) (simp add: upd_apply)

lemma eff_laws [simp]:
  "eff_close x = None" "eff_cloexec c None = None" "eff_cloexec c (eff_cloexec c x) = eff_cloexec c x"
  "eff_cloexec c (Some b) = Some (b OR c)"
  by (simp_all add: eff_close_def eff_cloexec_def option.map_comp comp_def or.assoc)

lemma only_kern_statics: "only_kern w w' \<Longrightarrow> statics_ok release osreldate w' = statics_ok release osreldate w"
  by (cases w; cases w') (simp add: only_kern_def statics_ok_def)

lemma statics_upd: "statics_ok release osreldate (w\<lparr>kern := k\<rparr>) = statics_ok release osreldate w"
  by (simp add: statics_ok_def)

lemma quiet_refl [simp]: "quiet fdt dirs w w"
  by (simp add: quiet_def)

lemma quiet_upd [simp]:
  "quiet fdt dirs w (w'\<lparr>kern := k\<rparr>) \<longleftrightarrow> only_kern w w' \<and> fdt k = fdt (kern w) \<and> dirs k = dirs (kern w)"
  by (simp add: quiet_def)

lemma quiet_trans: "quiet fdt dirs w w' \<Longrightarrow> quiet fdt dirs w' w'' \<Longrightarrow> quiet fdt dirs w w''"
  by (auto simp: quiet_def dest: only_kern_trans)

lemma quietD: "quiet fdt dirs w w' \<Longrightarrow> fdt (kern w') = fdt (kern w) \<and> dirs (kern w') = dirs (kern w) \<and> only_kern w w'"
  by (simp add: quiet_def)

section \<open>The contract an iterator needs\<close>

text \<open>
  An iterator relies on less than \<open>fd_kernel\<close>, and it can be used while other threads open and close
  descriptors. The locale \<open>shared_kernel\<close> is the contract of one iteration: \<open>P\<close> are the descriptors of the program
  that stay open all the time, \<open>Q\<close> those that may be open at some time, and \<open>ok H k\<close> says that \<open>k\<close> is a state
  that can arise while the iterator itself holds the descriptors in \<open>H\<close>. \<open>dirs_work\<close> and \<open>can_open\<close> promise that reading and
  opening the directory do not fail; \<open>alone\<close> that nothing else opens or closes descriptors meanwhile, so that
  \<open>P\<close> are all the descriptors there are. Every kernel in \<open>fd_kernel\<close> keeps this contract, as long as the program's
  own descriptors do not change.
\<close>

locale shared_kernel =
  fixes cfg :: config
    and os :: "'k os"
    and ok :: "int set \<Rightarrow> 'k \<Rightarrow> bool"
    and dirs :: "'k \<Rightarrow> int \<Rightarrow> (int \<times> nat) option"
    and P :: "int set"
    and Q :: "int set"
    and open_max :: int
    and release :: "u8 list"
    and dirs_work :: bool
    and can_open :: bool
    and alone :: bool
  assumes P_range: "ok H k \<Longrightarrow> fd \<in> P \<Longrightarrow> 0 \<le> fd \<and> fd < i32_MAX"
    and held_not_P: "ok H k \<Longrightarrow> d \<in> H \<Longrightarrow> d \<notin> P"
    and close_ok: "ok {d} k \<Longrightarrow> ok {} (snd (os_close os d k))"
    and getfd_law: "ok {} k \<Longrightarrow> os_fcntl_getfd os fd k = (r, k') \<Longrightarrow>
      ok {} k' \<and> (fd \<in> P \<longrightarrow> 0 \<le> r) \<and> (0 \<le> r \<longrightarrow> fd \<in> Q \<and> (alone \<longrightarrow> fd \<in> P))"
    and sysconf_law: "ok {} k \<Longrightarrow> os_sysconf_open_max os k = (r, k') \<Longrightarrow> ok {} k' \<and> r = open_max"
    and uname_law: "ok {} k \<Longrightarrow> os_uname_release os k = (rel, k') \<Longrightarrow> ok {} k' \<and> rel = release"
    and open_ok: "ok {} k \<Longrightarrow> path \<in> {''/proc/self/fd'', ''/dev/fd''} \<Longrightarrow> os_open os path ofl k = (fd, k') \<Longrightarrow>
      fd < 0 \<and> ok {} k' \<or> 0 \<le> fd \<and> ok {fd} k'"
    and open_dir_law: "ok {} k \<Longrightarrow> os_open os path ofl k = (fd, k') \<Longrightarrow> 0 \<le> fd \<Longrightarrow>
      (target cfg, path) \<in> {(Linux, ''/proc/self/fd''), (Netbsd, ''/proc/self/fd''), (Macos, ''/dev/fd''),
        (Ios, ''/dev/fd''), (Solaris, ''/dev/fd''), (Solaris, ''/proc/self/fd''),
        (Illumos, ''/dev/fd''), (Illumos, ''/proc/self/fd'')} \<Longrightarrow>
      (target cfg = Linux \<longrightarrow> \<not> uname_is_wsl1 release) \<Longrightarrow> \<exists>n. dirs k' fd = Some (0, n)"
    and stat_ok: "ok {d} k \<Longrightarrow> os_stat_dev os path k = (x, k') \<Longrightarrow> ok {d} k'"
    and fstat_ok: "ok {d} k \<Longrightarrow> os_fstat_dev os d k = (x, k') \<Longrightarrow> ok {d} k'"
    and fdescfs: "target cfg = Freebsd \<Longrightarrow> ok {} k \<Longrightarrow> os_open os ''/dev/fd'' ofl k = (fd, k1) \<Longrightarrow> 0 \<le> fd \<Longrightarrow>
      os_stat_dev os ''/dev'' k1 = ((0, dev), k2) \<Longrightarrow> os_fstat_dev os fd k2 = ((0, dev'), k3) \<Longrightarrow>
      dev \<noteq> dev' \<Longrightarrow> \<exists>n. dirs k3 fd = Some (0, n)"
    and getdents_ok: "ok {d} k \<Longrightarrow> getdents cfg os d len k = ((r, bs), k') \<Longrightarrow> ok {d} k'"
    and getdents_entries: "ok {d} k \<Longrightarrow> dirs k d = Some (p, n) \<Longrightarrow>
      getdents cfg os d (d_size (RawDirent cfg)) k = ((r, bs), k') \<Longrightarrow>
      r < 0 \<and> \<not> dirs_work \<or> r = 0 \<and> (\<forall>fd\<in>P. fd < p) \<or>
      r > 0 \<and> int (length bs) = r \<and> length bs \<le> d_size (RawDirent cfg) \<and>
        (\<exists>es p' n'. dirs k' d = Some (p', n') \<and> n' < n \<and> p \<le> p' \<and>
           dirents (RawDirent cfg) (big_endian cfg) es bs \<and> sorted_wrt (<) (entry_fds es) \<and>
           (\<forall>fd\<in>set (entry_fds es). 0 \<le> fd \<and> fd < i32_MAX \<and> p \<le> fd \<and> fd < p' \<and> (fd \<in> Q \<or> fd = d)) \<and>
           (\<forall>fd\<in>P. p \<le> fd \<and> fd < p' \<longrightarrow> fd \<in> set (entry_fds es)))"
    and can_open_law: "can_open \<Longrightarrow> target cfg \<in> {Linux, Netbsd, Macos, Ios, Solaris, Illumos} \<and>
      (target cfg = Linux \<longrightarrow> \<not> uname_is_wsl1 release) \<and>
      (ok {} k \<and> path \<in> {''/proc/self/fd'', ''/dev/fd''} \<longrightarrow> 0 \<le> fst (os_open os path ofl k))"
    and netbsd_maxfd: "target cfg = Netbsd \<Longrightarrow> ok {} k \<Longrightarrow> os_fcntl_maxfd os 0 (os_set_errno os 0 k) = (m, k') \<Longrightarrow>
      ok {} k' \<and> (m = - 1 \<and> (os_errno os k' = 0 \<longrightarrow> P = {}) \<or> 0 \<le> m \<and> m < i32_MAX \<and> (\<forall>fd\<in>P. fd \<le> m))"
    and freebsd_nfds: "target cfg = Freebsd \<Longrightarrow> ok {} k \<Longrightarrow>
      os_sysctl os [c_CTL_KERN os, c_KERN_PROC os, KERN_PROC_NFDS, 0] k = ((r, v), k') \<Longrightarrow>
      ok {} k' \<and> (alone \<and> r = 0 \<longrightarrow> v = int (card P))"
    and openbsd_nfds: "target cfg = Openbsd \<Longrightarrow> ok {} k \<Longrightarrow> os_getdtablecount os k = (v, k') \<Longrightarrow>
      ok {} k' \<and> (alone \<longrightarrow> v = int (card P))"
begin

lemma finite_P: "ok H k \<Longrightarrow> finite P"
  by (rule finite_subset [of _ "{0..i32_MAX}"]) (auto dest: P_range)

end

text \<open>The state \<open>k\<close> while the iterator holds \<open>H\<close> and the descriptors of the program are \<open>U\<close>.\<close>

definition holding :: "('k \<Rightarrow> fd_table) \<Rightarrow> fd_table \<Rightarrow> int set \<Rightarrow> int set \<Rightarrow> 'k \<Rightarrow> bool" where
  "holding fdt U Q H k \<longleftrightarrow> upd eff_close H (fdt k) = U \<and> H \<subseteq> dom (fdt k) \<and> dom U \<subseteq> Q"

lemma holding_empty: "holding fdt U Q {} k \<longleftrightarrow> fdt k = U \<and> dom U \<subseteq> Q"
  by (simp add: holding_def)

lemma holding_single: "holding fdt U Q {d} k \<longleftrightarrow> (fdt k)(d := None) = U \<and> fdt k d \<noteq> None \<and> dom U \<subseteq> Q"
  by (auto simp: holding_def upd_def fun_upd_def)

context fd_kernel
begin

lemma getdents_sandwich:
  assumes d: "dirs k d = Some (p, n)" "fdt k d \<noteq> None"
    and g: "getdents cfg os d (d_size (RawDirent cfg)) k = ((r, bs), k')"
    and P: "P \<subseteq> dom (fdt k)" and Q: "dom (fdt k) \<subseteq> insert d Q"
  shows "r < 0 \<and> \<not> dirs_work \<or> r = 0 \<and> (\<forall>fd\<in>P. fd < p) \<or>
      r > 0 \<and> int (length bs) = r \<and> length bs \<le> d_size (RawDirent cfg) \<and>
        (\<exists>es p' n'. dirs k' d = Some (p', n') \<and> n' < n \<and> p \<le> p' \<and>
           dirents (RawDirent cfg) (big_endian cfg) es bs \<and> sorted_wrt (<) (entry_fds es) \<and>
           (\<forall>fd\<in>set (entry_fds es). 0 \<le> fd \<and> fd < i32_MAX \<and> p \<le> fd \<and> fd < p' \<and> (fd \<in> Q \<or> fd = d)) \<and>
           (\<forall>fd\<in>P. p \<le> fd \<and> fd < p' \<longrightarrow> fd \<in> set (entry_fds es)))"
proof -
  have "fd \<in> Q \<or> fd = d" if "fdt k fd \<noteq> None" for fd using that Q by blast
  moreover have "fdt k fd \<noteq> None" if "fd \<in> P" for fd using that P by blast
  moreover have "0 \<le> fd \<and> fd < i32_MAX" if "fdt k fd \<noteq> None" for fd using that fd_range by blast
  ultimately show ?thesis using getdents_law [OF d g]
    by (elim disjE) (blast, blast, metis (mono_tags, lifting) mem_Collect_eq)
qed

end

sublocale fd_kernel < sh: shared_kernel cfg os "holding fdt U Q" dirs "dom U" Q open_max release dirs_work
  "dirs_work \<and> has_slot open_max U" True for U Q
proof (unfold_locales, goal_cases)
  case (1 H k fd)
  then show ?case using fd_range [of k fd] by (auto simp: holding_def upd_apply split: if_splits)
next
  case (2 H k d)
  then show ?case by (auto simp: holding_def upd_apply)
next
  case (3 d k)
  then show ?case by (simp add: holding_empty holding_single close_fdt)
next
  case (4 k fd r k')
  with getfd_ret [of fd k] getfd_fdt [of fd k] fd_flags [of k fd] show ?case
    by (auto simp: holding_empty split: option.splits)
next
  case (5 k r k')
  with sysconf_fdt [of k] sysconf_ret [of k] show ?case by (simp add: holding_empty)
next
  case (6 k rel k')
  with uname_fdt [of k] uname_ret [of k] show ?case by (simp add: holding_empty)
next
  case (7 k path ofl fd k')
  from 7(1) have U: "fdt k = U" "dom U \<subseteq> Q" by (simp_all add: holding_empty)
  have "0 \<le> fd" if "fdt k' = U(fd := Some y)" for y using that fd_range [of k' fd y] by simp
  with open_law [OF 7(3,2), unfolded U(1)] U(2) show ?case
    unfolding holding_empty holding_single by (auto simp: fun_upd_idem)
next
  case (8 k path ofl fd k')
  then show ?case by (intro open_dir)
next
  case (9 d k path x k')
  then show ?case using stat_quiet [OF 9(2)] by (simp add: holding_def)
next
  case (10 d k x k')
  then show ?case using fstat_quiet [OF 10(2)] by (simp add: holding_def)
next
  case (11 k ofl fd k1 dev k2 dev' k3)
  then show ?case by (intro fdescfs_law)
next
  case (12 d k len r bs k')
  then show ?case using getdents_frame [OF _ 12(2)] by (simp add: holding_single)
next
  case (13 d k p n r bs k')
  then have d: "fdt k d \<noteq> None" and "U = (fdt k)(d := None)" "dom U \<subseteq> Q" by (simp_all add: holding_single)
  then have "dom U = dom (fdt k) - {d}" by simp
  with d \<open>dom U \<subseteq> Q\<close> have "fdt k d \<noteq> None" "dom U \<subseteq> dom (fdt k)" "dom (fdt k) \<subseteq> insert d Q" by blast+
  from getdents_sandwich [OF 13(2) this(1) 13(3) this(2,3)] show ?case .
next
  case (14 k path ofl)
  then show ?case using dirs_work_law [of path k ofl] by (auto simp: holding_empty)
next
  case (15 k m k')
  then show ?case using maxfd_law [OF 15(1,3)] fd_range by (auto simp: holding_empty)
next
  case (16 k r v k')
  then show ?case using sysctl_quiet [OF 16(3)] sysctl_nfds [OF 16(1)] by (auto simp: holding_empty dom_def)
next
  case (17 k v k')
  then show ?case using dtablecount_law [OF 17(1,3)] by (auto simp: holding_empty dom_def)
qed

end
