(* ===== verification/Dir_Fd.thy ===== *)
theory Dir_Fd
  imports Kernel
begin

text \<open>
  \<^verbatim>\<open>DirFdIter\<close> of \<^verbatim>\<open>src/iterfds/dirfd.rs\<close>: an iterator over the entries of a descriptor directory, which
  it reads through \<^verbatim>\<open>getdents\<close> into a buffer that holds one maximal entry. The invariant \<open>dir_live\<close>
  relates the unread part of the buffer and the read position of the directory to the descriptor
  table; the lemmas show that every operation keeps it and that \<^verbatim>\<open>next\<close> returns the next descriptor.
\<close>

section \<open>Definitions\<close>

record DirFdIter =
  di_minfd :: c_int
  di_dirfd :: c_int
  di_buf :: "u8 list"
  di_nbytes :: usize
  di_offset :: usize

text \<open>The \<^verbatim>\<open>dirfd\<close> that \<^verbatim>\<open>open\<close> computes on each target; \<open>None\<close> is the early return on WSL 1.\<close>

definition open_dirfd :: "config \<Rightarrow> 'k os \<Rightarrow> ('k world, c_int option) prog" where
  "open_dirfd cfg os = (case target cfg of
     Linux \<Rightarrow>
       bnd (is_wsl_1 os) (\<lambda>wsl.
       if wsl then ret None
       else bnd (sys (os_open os ''/proc/self/fd'' [O_RDONLY, O_DIRECTORY, O_CLOEXEC])) (\<lambda>fd. ret (Some fd)))
   | Freebsd \<Rightarrow>
       bnd (sys (os_open os ''/dev/fd'' [O_RDONLY, O_DIRECTORY, O_CLOEXEC])) (\<lambda>dirfd.
       bnd (if dirfd \<ge> 0 then
              bnd (sys (os_stat_dev os ''/dev'')) (\<lambda>(r, dev).
              if r \<noteq> 0 then ret True
              else bnd (sys (os_fstat_dev os dirfd)) (\<lambda>(r', dev'). ret (r' \<noteq> 0 \<or> dev = dev')))
            else ret False) (\<lambda>distrust.
       if distrust then bnd (sys (os_close os dirfd)) (\<lambda>_. ret (Some (- 1)))
       else ret (Some dirfd)))
   | Netbsd \<Rightarrow>
       bnd (sys (os_open os ''/proc/self/fd'' [O_RDONLY, O_DIRECTORY, O_CLOEXEC])) (\<lambda>fd. ret (Some fd))
   | Macos \<Rightarrow> bnd (sys (os_open os ''/dev/fd'' [O_RDONLY, O_DIRECTORY, O_CLOEXEC])) (\<lambda>fd. ret (Some fd))
   | Ios \<Rightarrow> bnd (sys (os_open os ''/dev/fd'' [O_RDONLY, O_DIRECTORY, O_CLOEXEC])) (\<lambda>fd. ret (Some fd))
   | Solaris \<Rightarrow>
       bnd (sys (os_open os ''/dev/fd'' [O_RDONLY, O_CLOEXEC])) (\<lambda>fd.
       if fd < 0 then bnd (sys (os_open os ''/proc/self/fd'' [O_RDONLY, O_CLOEXEC])) (\<lambda>fd. ret (Some fd))
       else ret (Some fd))
   | Illumos \<Rightarrow>
       bnd (sys (os_open os ''/dev/fd'' [O_RDONLY, O_CLOEXEC])) (\<lambda>fd.
       if fd < 0 then bnd (sys (os_open os ''/proc/self/fd'' [O_RDONLY, O_CLOEXEC])) (\<lambda>fd. ret (Some fd))
       else ret (Some fd))
   | _ \<Rightarrow> ret None)"

definition DirFdIter_open :: "config \<Rightarrow> 'k os \<Rightarrow> c_int \<Rightarrow> ('k world, DirFdIter option) prog" where
  "DirFdIter_open cfg os minfd = bnd (open_dirfd cfg os) (\<lambda>fd. case fd of
     None \<Rightarrow> ret None
   | Some dirfd \<Rightarrow>
       if dirfd \<ge> 0 then
         ret (Some \<lparr>di_minfd = minfd, di_dirfd = dirfd,
           di_buf = replicate (d_size (RawDirent cfg)) 0, di_nbytes = 0, di_offset = 0\<rparr>)
       else ret None)"

text \<open>\<^verbatim>\<open>get_entry_info\<close> reads through a raw pointer: \<open>d_name\<close> byte by byte, until a NUL byte, the end of
  the array or the first byte the parser rejects, and the two bytes of \<open>d_reclen\<close>. A byte outside the
  buffer is undefined behaviour.\<close>

definition get_entry_info :: "config \<Rightarrow> DirFdIter \<Rightarrow> usize \<Rightarrow> ('s, c_int option \<times> usize) prog" where
  "get_entry_info cfg it offset =
     (let L = RawDirent cfg;
          avail = take (d_name_len L) (drop (offset + d_name_off L) (di_buf it));
          name = takeWhile (\<lambda>c. c \<noteq> 0) avail;
          ran_out = (length name = length avail \<and> length avail < d_name_len L)
      in if ran_out \<and> (name = [] \<or> parse_int_bytes name \<noteq> None) then fail UB
         else bnd (get_unchecked (di_buf it) (offset + d_reclen_off L)) (\<lambda>b0.
              bnd (get_unchecked (di_buf it) (offset + d_reclen_off L + 1)) (\<lambda>b1.
              ret (parse_int_bytes name, read_u16 (big_endian cfg) b0 b1))))"

text \<open>The first half of the loop of \<^verbatim>\<open>next\<close>: refill the buffer when it is used up.\<close>

definition dir_refill :: "config \<Rightarrow> 'k os \<Rightarrow> DirFdIter \<Rightarrow>
  ('k world, (DirFdIter, (c_int option, unit) result \<times> DirFdIter) ctl) prog" where
  "dir_refill cfg os it =
     (if di_offset it \<ge> di_nbytes it then
        bnd (sys (getdents cfg os (di_dirfd it) (length (di_buf it)))) (\<lambda>(nbytes, bs).
        let it = it\<lparr>di_buf := bs @ drop (length bs) (di_buf it)\<rparr> in
        if nbytes > 0 then ret (Continue (it\<lparr>di_nbytes := nat nbytes, di_offset := 0\<rparr>))
        else if nbytes = 0 then
          bnd (sys (os_close os (di_dirfd it))) (\<lambda>_. ret (Break (Ok None, it\<lparr>di_dirfd := - 1\<rparr>)))
        else ret (Break (Err (), it)))
      else ret (Continue it))"

text \<open>The second half: take the next entry of the buffer.\<close>

definition dir_take :: "config \<Rightarrow> DirFdIter \<Rightarrow>
  ('s, (DirFdIter, (c_int option, unit) result \<times> DirFdIter) ctl) prog" where
  "dir_take cfg it =
     bnd (get_entry_info cfg it (di_offset it)) (\<lambda>(fd, reclen).
     let it = it\<lparr>di_offset := di_offset it + reclen\<rparr> in
     case fd of
       Some fd \<Rightarrow> if fd \<ge> di_minfd it \<and> fd \<noteq> di_dirfd it then ret (Break (Ok (Some fd), it))
                  else ret (Continue it)
     | None \<Rightarrow> ret (Continue it))"

definition DirFdIter_next :: "config \<Rightarrow> 'k os \<Rightarrow> DirFdIter \<Rightarrow>
  ('k world, (c_int option, unit) result \<times> DirFdIter) prog" where
  "DirFdIter_next cfg os it =
     (if di_dirfd it < 0 then ret (Ok None, it)
      else loop_m (\<lambda>it. bnd (dir_refill cfg os it) (\<lambda>c. case c of
                     Break r \<Rightarrow> ret (Break r)
                   | Continue it \<Rightarrow> dir_take cfg it)) it)"

definition dir_count_body :: "config \<Rightarrow> DirFdIter \<Rightarrow> usize \<times> usize \<Rightarrow> ('s, (usize \<times> usize, usize) ctl) prog" where
  "dir_count_body cfg it = (\<lambda>(low, offset).
     if offset < di_nbytes it then
       bnd (get_entry_info cfg it offset) (\<lambda>(fd, reclen).
       case fd of
         Some fd \<Rightarrow>
           bnd (debug_assert (debug_assertions cfg) (fd \<ge> di_minfd it)) (\<lambda>_.
           if fd \<noteq> di_dirfd it then ret (Continue (low + 1, offset + reclen))
           else ret (Continue (low, offset + reclen)))
       | None \<Rightarrow> ret (Continue (low, offset + reclen)))
     else ret (Break low))"

definition DirFdIter_size_hint :: "config \<Rightarrow> DirFdIter \<Rightarrow> ('s, usize \<times> usize option) prog" where
  "DirFdIter_size_hint cfg it =
     (if di_dirfd it < 0 then ret (0, Some 0)
      else bnd (loop_m (dir_count_body cfg it) (0, di_offset it)) (\<lambda>low.
           ret (low, Some (as_usize cfg i32_MAX))))"

definition DirFdIter_drop :: "'k os \<Rightarrow> DirFdIter \<Rightarrow> ('k world, unit) prog" where
  "DirFdIter_drop os it =
     (if di_dirfd it \<ge> 0 then bnd (sys (os_close os (di_dirfd it))) (\<lambda>_. ret ()) else ret ())"

section \<open>Invariants\<close>

text \<open>The unread part of the buffer holds the entries \<open>es\<close>.\<close>

definition buf_ok :: "config \<Rightarrow> DirFdIter \<Rightarrow> dir_entry list \<Rightarrow> bool" where
  "buf_ok cfg it es \<longleftrightarrow>
     length (di_buf it) = d_size (RawDirent cfg) \<and> di_nbytes it \<le> length (di_buf it) \<and>
     di_offset it \<le> di_nbytes it \<and>
     dirents (RawDirent cfg) (big_endian cfg) es (drop (di_offset it) (take (di_nbytes it) (di_buf it)))"

text \<open>The iterator has still to deliver every descriptor of \<open>P\<close> from \<open>cur\<close> on: those below the directory's
  position \<open>p\<close> are in the buffer, in ascending order; and what it will deliver from the buffer is in \<open>Q\<close>.\<close>

definition dir_pending :: "int set \<Rightarrow> int set \<Rightarrow> int \<Rightarrow> int \<Rightarrow> int \<Rightarrow> int \<Rightarrow> int list \<Rightarrow> bool" where
  "dir_pending P Q dirfd minfd cur p fds \<longleftrightarrow>
     sorted_wrt (<) fds \<and> cur \<le> max minfd p \<and>
     (\<forall>fd\<in>set fds. 0 \<le> fd \<and> fd < i32_MAX \<and> fd < p \<and>
        (minfd \<le> fd \<longrightarrow> cur \<le> fd \<and> (fd \<in> Q \<or> fd = dirfd))) \<and>
     (\<forall>fd\<in>P. cur \<le> fd \<and> fd < p \<longrightarrow> fd \<in> set fds)"

text \<open>In the loop of \<^verbatim>\<open>next\<close> (\<open>dir_live\<close>) the buffer may hold descriptors below \<^verbatim>\<open>minfd\<close>. Between two calls (\<open>dir_rest\<close>) it does
  not: it is empty, or a descriptor from \<^verbatim>\<open>minfd\<close> on has just been taken from it. \<^verbatim>\<open>size_hint\<close> relies on this.\<close>

definition dir_live ::
  "int set \<Rightarrow> int set \<Rightarrow> config \<Rightarrow> (int \<Rightarrow> (int \<times> nat) option) \<Rightarrow> int \<Rightarrow> DirFdIter \<Rightarrow> bool" where
  "dir_live P Q cfg D cur it \<longleftrightarrow> 0 \<le> di_dirfd it \<and> di_minfd it \<le> cur \<and>
     (\<exists>es p n. D (di_dirfd it) = Some (p, n) \<and> buf_ok cfg it es \<and>
        dir_pending P Q (di_dirfd it) (di_minfd it) cur p (entry_fds es))"

definition dir_rest ::
  "int set \<Rightarrow> int set \<Rightarrow> config \<Rightarrow> (int \<Rightarrow> (int \<times> nat) option) \<Rightarrow> int \<Rightarrow> DirFdIter \<Rightarrow> bool" where
  "dir_rest P Q cfg D cur it \<longleftrightarrow> 0 \<le> di_dirfd it \<and> di_minfd it \<le> cur \<and>
     (\<exists>es p n. D (di_dirfd it) = Some (p, n) \<and> buf_ok cfg it es \<and> (\<forall>fd\<in>set (entry_fds es). di_minfd it \<le> fd) \<and>
        dir_pending P Q (di_dirfd it) (di_minfd it) cur p (entry_fds es))"

lemma dir_rest_live: "dir_rest P Q cfg D cur it \<Longrightarrow> dir_live P Q cfg D cur it"
  unfolding dir_rest_def dir_live_def by blast

text \<open>What other code does keeps the invariant, as long as it neither opens descriptors that have to be delivered
  nor touches the directory.\<close>

lemma dir_rest_mono:
  assumes "dir_rest P Q cfg D cur it" "P' \<subseteq> P" "Q \<subseteq> Q'" "D' (di_dirfd it) = D (di_dirfd it)"
  shows "dir_rest P' Q' cfg D' cur it"
proof -
  have "dir_pending P' Q' d m cur p fds" if "dir_pending P Q d m cur p fds" for d m p fds
    using that assms(2,3) unfolding dir_pending_def by blast
  with assms(1,4) show ?thesis unfolding dir_rest_def by metis
qed

section \<open>Reading one entry\<close>

lemma take_drop_prefix:
  assumes "take k (drop a (take n (drop off (take nb buf)))) = zs" "length zs = k"
  shows "take k (drop (off + a) buf) = zs"
proof -
  let ?m = "min n (nb - off)"
  have ys: "take n (drop off (take nb buf)) = take ?m (drop off buf)"
    by (simp add: drop_take)
  have "drop (off + a) buf = drop a (take ?m (drop off buf) @ drop ?m (drop off buf))"
    by (subst append_take_drop_id) (simp add: add.commute)
  then have "take k (drop (off + a) buf) =
      take k (drop a (take ?m (drop off buf))) @
      take (k - length (drop a (take ?m (drop off buf)))) (drop (a - length (take ?m (drop off buf))) (drop ?m (drop off buf)))"
    by (simp only: drop_append take_append)
  moreover have "k \<le> length (drop a (take ?m (drop off buf)))"
    using assms unfolding ys by (metis length_take min.cobounded1)
  ultimately show ?thesis using assms(1) unfolding ys by simp
qed

lemma take_nth_prefix:
  assumes "i < length (take n (drop off (take nb buf)))"
  shows "off + i < length buf" "buf ! (off + i) = take n (drop off (take nb buf)) ! i"
proof -
  from assms have i: "i < n" "off \<le> length (take nb buf)" "i < length (take nb buf) - off" by auto
  then show "off + i < length buf" by auto
  show "buf ! (off + i) = take n (drop off (take nb buf)) ! i"
    using i by (simp add: nth_drop [OF i(2)])
qed

lemma name_in_buffer:
  assumes "take (length name + 1) X = name @ [0]" "0 \<notin> set name" "length name < m"
  shows "takeWhile (\<lambda>c. c \<noteq> (0::u8)) (take m X) = name" "length name < length (take m X)"
proof -
  have "X = (name @ [0]) @ drop (length name + 1) X" using assms(1) by (metis append_take_drop_id)
  then obtain Y where X: "X = name @ 0 # Y" by simp
  have "take m X = name @ 0 # take (m - length name - 1) Y"
    using assms(3) unfolding X by (simp add: take_Cons' )
  with assms(2) show "takeWhile (\<lambda>c. c \<noteq> 0) (take m X) = name" "length name < length (take m X)"
    by (auto simp: takeWhile_append)
qed

lemma get_entry_info_ok:
  assumes "buf_ok cfg it (e # es)"
  obtains n where "get_entry_info cfg it (di_offset it) = (ret (parse_int_bytes (entry_name e), n) :: ('s, _) prog)"
    "0 < n" "di_offset it + n \<le> di_nbytes it" "buf_ok cfg (it\<lparr>di_offset := di_offset it + n\<rparr>) es"
proof -
  let ?L = "RawDirent cfg" and ?rem = "drop (di_offset it) (take (di_nbytes it) (di_buf it))"
  from assms obtain n where n: "n \<le> length ?rem" "dirents ?L (big_endian cfg) es (drop n ?rem)"
    and blk: "dirent_block ?L (big_endian cfg) (entry_name e) (take n ?rem)"
    by (auto simp: buf_ok_def)
  have off: "di_offset it + n \<le> di_nbytes it" "0 < n" "length (take n ?rem) = n"
    using n(1) blk assms by (auto simp: buf_ok_def dirent_block_def)
  note X = blk [unfolded dirent_block_def]
  have "take (length (entry_name e) + 1) (drop (di_offset it + d_name_off ?L) (di_buf it)) = entry_name e @ [0]"
    by (rule take_drop_prefix) (use X in auto)
  note name = name_in_buffer [OF this entry_name_no_nul, of "d_name_len ?L"]
  have "get_entry_info cfg it (di_offset it) = (ret (parse_int_bytes (entry_name e), n) :: ('s, _) prog)"
    using X name off(3)
      take_nth_prefix [of "d_reclen_off ?L" n "di_offset it" "di_nbytes it" "di_buf it"]
      take_nth_prefix [of "d_reclen_off ?L + 1" n "di_offset it" "di_nbytes it" "di_buf it"]
    by (auto simp: get_entry_info_def Let_def get_unchecked_def add.assoc)
  moreover have "buf_ok cfg (it\<lparr>di_offset := di_offset it + n\<rparr>) es"
    using n(2) off assms by (simp add: buf_ok_def add.commute)
  ultimately show ?thesis using off that by blast
qed

lemma buf_ok_Nil: "buf_ok cfg it es \<Longrightarrow> di_nbytes it \<le> di_offset it \<longleftrightarrow> es = []"
  by (cases es) (auto simp: buf_ok_def dirent_block_def)

section \<open>Taking an entry\<close>

lemma dir_pending_skip:
  assumes "dir_pending P Q dirfd minfd cur p (fd # fds)" "fd < minfd \<or> fd = dirfd" "minfd \<le> cur" "dirfd \<notin> P"
  shows "dir_pending P Q dirfd minfd cur p fds"
  unfolding dir_pending_def
proof (intro conjI ballI impI)
  fix x assume x: "x \<in> P" "cur \<le> x \<and> x < p"
  with assms(1) have "x \<in> set (fd # fds)" unfolding dir_pending_def by blast
  with x assms(2-4) show "x \<in> set fds" by auto
qed (use assms(1) in \<open>simp_all add: dir_pending_def\<close>)

lemma dir_pending_take:
  assumes "dir_pending P Q dirfd minfd cur p (fd # fds)" "minfd \<le> fd" "fd \<noteq> dirfd"
  shows "dir_pending P Q dirfd minfd (fd + 1) p fds" "cur \<le> fd" "0 \<le> fd" "fd < i32_MAX" "fd \<in> Q"
    "\<forall>x\<in>P. cur \<le> x \<longrightarrow> fd \<le> x" "\<forall>x\<in>set fds. minfd \<le> x"
proof -
  from assms show fd: "cur \<le> fd" "0 \<le> fd" "fd < i32_MAX" "fd \<in> Q" by (simp_all add: dir_pending_def)
  have less: "\<forall>x\<in>set fds. fd < x" "fd < p" using assms(1) by (simp_all add: dir_pending_def)
  then show "\<forall>x\<in>set fds. minfd \<le> x" using assms(2) by fastforce
  have mem: "x = fd \<or> x \<in> set fds" if "x \<in> P" "cur \<le> x" "x < p" for x
    using that assms(1) by (simp add: dir_pending_def)
  show "dir_pending P Q dirfd minfd (fd + 1) p fds"
    unfolding dir_pending_def
  proof (intro conjI ballI impI)
    fix x assume "x \<in> P" "fd + 1 \<le> x \<and> x < p"
    with mem [of x] fd(1) show "x \<in> set fds" by simp
  qed (use assms(1) less in \<open>auto simp: dir_pending_def\<close>)
  show "\<forall>x\<in>P. cur \<le> x \<longrightarrow> fd \<le> x" using mem less by fastforce
qed

lemma dir_pending_refill:
  assumes "dir_pending P Q dirfd minfd cur p []" "p \<le> p'" "sorted_wrt (<) fds"
    and "\<forall>fd\<in>set fds. 0 \<le> fd \<and> fd < i32_MAX \<and> p \<le> fd \<and> fd < p' \<and> (fd \<in> Q \<or> fd = dirfd)"
    and "\<forall>fd\<in>P. p \<le> fd \<and> fd < p' \<longrightarrow> fd \<in> set fds"
  shows "dir_pending P Q dirfd minfd cur p' fds"
proof -
  from assms(1) have old: "cur \<le> max minfd p" "\<And>fd. fd \<in> P \<Longrightarrow> cur \<le> fd \<Longrightarrow> p \<le> fd" by (auto simp: dir_pending_def)
  then have "cur \<le> max minfd p'" using assms(2) by linarith
  moreover have "cur \<le> fd" if "fd \<in> set fds" "minfd \<le> fd" for fd using that old(1) assms(4) by fastforce
  ultimately show ?thesis using assms(3-5) old(2) unfolding dir_pending_def by blast
qed

lemma dir_take_runs:
  assumes "D (di_dirfd it) = Some (p, n)" "buf_ok cfg it (e # es)" "di_minfd it \<le> cur"
    "dir_pending P Q (di_dirfd it) (di_minfd it) cur p (entry_fds (e # es))" "0 \<le> di_dirfd it" "di_dirfd it \<notin> P"
  shows "runs (dir_take cfg it) s (\<lambda>r s'. s' = s \<and> (case r of
      Continue it' \<Rightarrow> dir_live P Q cfg D cur it' \<and> di_offset it < di_offset it' \<and> di_offset it' \<le> di_nbytes it \<and>
        (\<exists>k. it' = it\<lparr>di_offset := k\<rparr>)
    | Break (x, it') \<Rightarrow> (\<exists>fd k. x = Ok (Some fd) \<and> it' = it\<lparr>di_offset := k\<rparr> \<and>
        dir_rest P Q cfg D (fd + 1) it' \<and> cur \<le> fd \<and> 0 \<le> fd \<and> fd < i32_MAX \<and> fd \<noteq> di_dirfd it \<and> fd \<in> Q \<and>
        (\<forall>x\<in>P. cur \<le> x \<longrightarrow> fd \<le> x))))"
proof -
  obtain k where k: "get_entry_info cfg it (di_offset it) = (ret (parse_int_bytes (entry_name e), k) :: ('a, _) prog)"
    "0 < k" "di_offset it + k \<le> di_nbytes it" "buf_ok cfg (it\<lparr>di_offset := di_offset it + k\<rparr>) es"
    using get_entry_info_ok [OF assms(2)] .
  show ?thesis
  proof (cases e)
    case (Fd_Entry fd)
    with assms(4) have fd: "0 \<le> fd" "fd < i32_MAX" by (auto simp: dir_pending_def)
    then have parse: "parse_int_bytes (entry_name e) = Some fd" using parse_entry_name(1) [of fd] Fd_Entry by simp
    show ?thesis
    proof (cases "di_minfd it \<le> fd \<and> fd \<noteq> di_dirfd it")
      case True
      with assms Fd_Entry dir_pending_take [of P Q "di_dirfd it" "di_minfd it" cur p fd "entry_fds es"] k parse fd
      show ?thesis by (auto simp: dir_take_def dir_rest_def wp)
    next
      case False
      with assms Fd_Entry dir_pending_skip [of P Q "di_dirfd it" "di_minfd it" cur p fd "entry_fds es"] k parse
      show ?thesis by (auto simp: dir_take_def dir_live_def wp)
    qed
  qed (use k assms parse_entry_name(2,3) in \<open>auto simp: dir_take_def dir_live_def wp\<close>)
qed

section \<open>The operations under the contract\<close>

context shared_kernel
begin

lemma dir_refill_runs:
  assumes live: "dir_live P Q cfg (dirs (kern w)) cur it" and ok: "ok {di_dirfd it} (kern w)"
  shows "runs (dir_refill cfg os it) w (\<lambda>r w'. only_kern w w' \<and> (case r of
      Continue it' \<Rightarrow> ok {di_dirfd it} (kern w') \<and> di_dirfd it' = di_dirfd it \<and> di_minfd it' = di_minfd it \<and>
        (\<exists>e es p n. dirs (kern w') (di_dirfd it) = Some (p, n) \<and> buf_ok cfg it' (e # es) \<and>
          dir_pending P Q (di_dirfd it) (di_minfd it) cur p (entry_fds (e # es)) \<and>
          n * (d_size (RawDirent cfg) + 1) + (di_nbytes it' - di_offset it') \<le>
          snd (the (dirs (kern w) (di_dirfd it))) * (d_size (RawDirent cfg) + 1) + (di_nbytes it - di_offset it))
    | Break (Ok None, it') \<Rightarrow> di_dirfd it' = - 1 \<and> ok {} (kern w') \<and> (\<forall>x\<in>P. x < cur)
    | Break (Ok (Some fd), it') \<Rightarrow> False
    | Break (Err _, it') \<Rightarrow> di_dirfd it' = di_dirfd it \<and> ok {di_dirfd it} (kern w') \<and> \<not> dirs_work))"
proof -
  let ?k = "kern w" and ?S = "d_size (RawDirent cfg)" and ?d = "di_dirfd it"
  from live obtain es p n where live: "dirs ?k ?d = Some (p, n)" "buf_ok cfg it es"
    "dir_pending P Q ?d (di_minfd it) cur p (entry_fds es)"
    unfolding dir_live_def by blast
  show ?thesis
  proof (cases "di_offset it \<ge> di_nbytes it")
    case False
    with buf_ok_Nil [OF live(2)] obtain e es' where "es = e # es'" by (cases es) auto
    with live False ok show ?thesis by (auto simp: dir_refill_def wp)
  next
    case True
    with buf_ok_Nil [OF live(2)] have es: "es = []" by simp
    obtain r bs k' where g: "getdents cfg os ?d ?S ?k = ((r, bs), k')" by (metis surj_pair)
    have len: "length (di_buf it) = ?S" using live(2) by (simp add: buf_ok_def)
    note ok' = getdents_ok [OF ok g]
    consider (err) "r < 0" "\<not> dirs_work" | (eof) "r = 0" "\<forall>fd\<in>P. fd < p" |
      (more) es' p' n' where "r > 0" "int (length bs) = r" "length bs \<le> ?S" "dirs k' ?d = Some (p', n')" "n' < n" "p \<le> p'"
        "dirents (RawDirent cfg) (big_endian cfg) es' bs" "sorted_wrt (<) (entry_fds es')"
        "\<forall>fd\<in>set (entry_fds es'). 0 \<le> fd \<and> fd < i32_MAX \<and> p \<le> fd \<and> fd < p' \<and> (fd \<in> Q \<or> fd = ?d)"
        "\<forall>fd\<in>P. p \<le> fd \<and> fd < p' \<longrightarrow> fd \<in> set (entry_fds es')"
      using getdents_entries [OF ok live(1) g] by blast
    then show ?thesis
    proof cases
      case err
      with True g len ok' show ?thesis by (simp add: dir_refill_def wp)
    next
      case eof
      have "\<forall>x\<in>P. x < cur" using live(3) eof(2) by (fastforce simp: es dir_pending_def)
      with True g len close_ok [OF ok'] eof(1) show ?thesis by (simp add: dir_refill_def wp)
    next
      case more
      let ?it = "it\<lparr>di_buf := bs @ drop (length bs) (di_buf it), di_nbytes := nat r, di_offset := 0\<rparr>"
      have buf: "buf_ok cfg ?it es'" using more len by (auto simp: buf_ok_def)
      moreover have "es' \<noteq> []" using more(1) buf_ok_Nil [OF buf] by auto
      then obtain e es'' where es': "es' = e # es''" by (cases es') auto
      moreover have "dir_pending P Q ?d (di_minfd it) cur p' (entry_fds es')"
        by (rule dir_pending_refill [OF live(3) [unfolded es entry_fds.simps] more(6,8,9,10)])
      moreover have "n' * (?S + 1) + nat r \<le> n * (?S + 1)"
      proof -
        have "n' * (?S + 1) + (?S + 1) \<le> n * (?S + 1)"
          using mult_le_mono1 [of "Suc n'" n "?S + 1"] more(5) by simp
        with more(2,3) show ?thesis by linarith
      qed
      ultimately show ?thesis using True g len ok' more(1-4) live(1)
        by (auto simp: dir_refill_def wp intro!: exI [of _ e] exI [of _ es''])
    qed
  qed
qed

lemma DirFdIter_next_runs:
  assumes live: "dir_live P Q cfg (dirs (kern w)) cur it" and ok: "ok {di_dirfd it} (kern w)"
  shows "runs (DirFdIter_next cfg os it) w (\<lambda>(r, it') w'. only_kern w w' \<and> (case r of
      Ok (Some fd) \<Rightarrow> ok {di_dirfd it} (kern w') \<and> di_dirfd it' = di_dirfd it \<and> di_minfd it' = di_minfd it \<and>
        dir_rest P Q cfg (dirs (kern w')) (fd + 1) it' \<and>
        cur \<le> fd \<and> 0 \<le> fd \<and> fd < i32_MAX \<and> fd \<noteq> di_dirfd it \<and> fd \<in> Q \<and> (\<forall>x\<in>P. cur \<le> x \<longrightarrow> fd \<le> x)
    | Ok None \<Rightarrow> di_dirfd it' = - 1 \<and> ok {} (kern w') \<and> (\<forall>x\<in>P. x < cur)
    | Err _ \<Rightarrow> di_dirfd it' = di_dirfd it \<and> ok {di_dirfd it} (kern w') \<and> \<not> dirs_work))"
    (is "runs _ _ ?Q")
proof -
  let ?S = "d_size (RawDirent cfg)"
  let ?I = "\<lambda>it' w'. only_kern w w' \<and> ok {di_dirfd it} (kern w') \<and> di_dirfd it' = di_dirfd it \<and>
    di_minfd it' = di_minfd it \<and> dir_live P Q cfg (dirs (kern w')) cur it'"
  let ?mu = "\<lambda>it' w'. snd (the (dirs (kern w') (di_dirfd it'))) * (?S + 1) + (di_nbytes it' - di_offset it')"
  have "di_dirfd it \<notin> P" using held_not_P [OF ok] by simp
  have "runs (loop_m (\<lambda>it. bnd (dir_refill cfg os it) (\<lambda>c. case c of
      Break r \<Rightarrow> ret (Break r) | Continue it \<Rightarrow> dir_take cfg it)) it) w ?Q"
  proof (rule runs_loop_m [where I = ?I and \<mu> = ?mu])
    fix it' w' assume I: "?I it' w'"
    then have live': "dir_live P Q cfg (dirs (kern w')) cur it'" "ok {di_dirfd it'} (kern w')" by auto
    show "runs (bnd (dir_refill cfg os it') (\<lambda>c. case c of
        Break r \<Rightarrow> ret (Break r) | Continue it \<Rightarrow> dir_take cfg it)) w' (\<lambda>r w''. case r of
        Continue it'' \<Rightarrow> ?I it'' w'' \<and> ?mu it'' w'' < ?mu it' w' | Break x \<Rightarrow> ?Q x w'')"
      unfolding runs_bnd
    proof (rule runs_conseq [OF dir_refill_runs [OF live']], goal_cases)
      case 2: (1 c w'')
      show ?case
      proof (cases c)
        case (Break b)
        obtain r it'' where b: "b = (r, it'')" by (cases b)
        from 2 I have "only_kern w w''" by (auto dest: only_kern_trans)
        with 2 I Break b show ?thesis
          by (cases r) (auto simp: wp split: option.split_asm)
      next
        case (Continue it'')
        with 2 obtain e es p n where R: "only_kern w' w''" "ok {di_dirfd it} (kern w'')"
          "di_dirfd it'' = di_dirfd it'" "di_minfd it'' = di_minfd it'"
          "dirs (kern w'') (di_dirfd it'') = Some (p, n)" "buf_ok cfg it'' (e # es)"
          "dir_pending P Q (di_dirfd it'') (di_minfd it'') cur p (entry_fds (e # es))"
          "n * (?S + 1) + (di_nbytes it'' - di_offset it'') \<le> ?mu it' w'"
          using I by auto
        from I R have D: "0 \<le> di_dirfd it''" "di_minfd it'' \<le> cur" by (auto simp: dir_live_def)
        from I R have F: "only_kern w w''" "di_dirfd it'' = di_dirfd it" "di_minfd it'' = di_minfd it"
          "di_dirfd it'' \<notin> P" using \<open>di_dirfd it \<notin> P\<close> by (auto dest: only_kern_trans)
        have "runs (dir_take cfg it'') w'' (\<lambda>r w''. case r of
          Continue it'' \<Rightarrow> ?I it'' w'' \<and> ?mu it'' w'' < ?mu it' w' | Break x \<Rightarrow> ?Q x w'')"
          by (rule runs_conseq [OF dir_take_runs [where D = "dirs (kern w'')", OF R(5,6) D(2) R(7) D(1) F(4)]])
            (use F R(2,5,8) in \<open>auto split: ctl.splits\<close>)
        with Continue show ?thesis by simp
      qed
    qed
  qed (use live ok in auto)
  with live show ?thesis by (auto simp: DirFdIter_next_def dir_live_def)
qed

lemma is_wsl_1_shared:
  assumes "statics_ok release osreldate w" "ok {} (kern w)"
  shows "runs (is_wsl_1 os) w (\<lambda>b w'. b = uname_is_wsl1 release \<and> statics_ok release osreldate w' \<and> ok {} (kern w'))"
proof -
  obtain rel k where u: "os_uname_release os (kern w) = (rel, k)" by fastforce
  from uname_law [OF assms(2) u] u assms show ?thesis by (auto simp: is_wsl_1_def statics_ok_def wp)
qed

lemma open_plain:
  assumes "(target cfg, path) \<in> {(Linux, ''/proc/self/fd''), (Netbsd, ''/proc/self/fd''), (Macos, ''/dev/fd''),
        (Ios, ''/dev/fd''), (Solaris, ''/dev/fd''), (Solaris, ''/proc/self/fd''),
        (Illumos, ''/dev/fd''), (Illumos, ''/proc/self/fd'')}"
    "target cfg = Linux \<longrightarrow> \<not> uname_is_wsl1 release" "ok {} k"
  shows "if fst (os_open os path fl k) < 0 then ok {} (snd (os_open os path fl k)) \<and> \<not> can_open
     else ok {fst (os_open os path fl k)} (snd (os_open os path fl k)) \<and>
       (\<exists>n. dirs (snd (os_open os path fl k)) (fst (os_open os path fl k)) = Some (0, n))"
proof -
  obtain fd k' where o: "os_open os path fl k = (fd, k')" by fastforce
  have "path \<in> {''/proc/self/fd'', ''/dev/fd''}" using assms(1) by auto
  with o assms(3) open_ok [OF assms(3) this o] open_dir_law [OF assms(3) o _ assms(1,2)] can_open_law [of k path fl]
  show ?thesis by auto
qed

lemma open_dirfd_freebsd:
  assumes "target cfg = Freebsd" "ok {} (kern w)"
  shows "runs (open_dirfd cfg os) w (\<lambda>r w'. only_kern w w' \<and>
    (case r of None \<Rightarrow> False
     | Some fd \<Rightarrow> if fd < 0 then ok {} (kern w') else ok {fd} (kern w') \<and> (\<exists>n. dirs (kern w') fd = Some (0, n))))"
proof -
  let ?fl = "[O_RDONLY, O_DIRECTORY, O_CLOEXEC]"
  obtain fd k1 where o: "os_open os ''/dev/fd'' ?fl (kern w) = (fd, k1)" by fastforce
  obtain r dev k2 where st: "os_stat_dev os ''/dev'' k1 = ((r, dev), k2)" by (metis surj_pair)
  obtain r' dev' k3 where fst: "os_fstat_dev os fd k2 = ((r', dev'), k3)" by (metis surj_pair)
  show ?thesis
  proof (cases "fd < 0")
    case True
    with open_ok [OF assms(2) _ o] o assms(1) show ?thesis by (simp add: open_dirfd_def wp)
  next
    case False
    with open_ok [OF assms(2) _ o] have k1: "ok {fd} k1" by simp
    note k2 = stat_ok [OF k1 st] note k3 = fstat_ok [OF k2 fst]
    from False k2 k3 close_ok [OF k2] close_ok [OF k3] fdescfs [OF assms(1,2) o, of dev k2 dev' k3] st fst o assms(1)
    show ?thesis by (auto simp: open_dirfd_def wp)
  qed
qed

lemma open_dirfd_runs:
  assumes "statics_ok release osreldate w" "ok {} (kern w)"
  shows "runs (open_dirfd cfg os) w (\<lambda>r w'. statics_ok release osreldate w' \<and>
    (case r of None \<Rightarrow> ok {} (kern w') \<and> \<not> can_open
     | Some fd \<Rightarrow> if fd < 0 then ok {} (kern w') \<and> \<not> can_open
       else ok {fd} (kern w') \<and> (\<exists>n. dirs (kern w') fd = Some (0, n))))" (is "runs _ _ ?Q")
proof (cases "target cfg")
  case Linux
  show ?thesis unfolding open_dirfd_def Linux target_os.case runs_bnd
  proof (rule runs_conseq [OF is_wsl_1_shared [OF assms]], goal_cases)
    case (1 wsl w')
    show ?case
    proof (cases wsl)
      case True
      with 1 Linux can_open_law show ?thesis by (auto simp: wp)
    next
      case False
      with 1 Linux open_plain [of "''/proc/self/fd''" "kern w'" "[O_RDONLY, O_DIRECTORY, O_CLOEXEC]"]
      show ?thesis by (simp add: wp statics_upd split: if_splits)
    qed
  qed
next
  case Freebsd
  then show ?thesis
    using can_open_law assms
    by (auto intro!: runs_conseq [OF open_dirfd_freebsd] simp: only_kern_statics split: option.splits)
next
  case Solaris
  with assms open_plain [of "''/dev/fd''" "kern w" "[O_RDONLY, O_CLOEXEC]"]
    open_plain [of "''/proc/self/fd''" "snd (os_open os ''/dev/fd'' [O_RDONLY, O_CLOEXEC] (kern w))" "[O_RDONLY, O_CLOEXEC]"]
  show ?thesis by (simp add: open_dirfd_def wp statics_upd split: if_splits)
next
  case Illumos
  with assms open_plain [of "''/dev/fd''" "kern w" "[O_RDONLY, O_CLOEXEC]"]
    open_plain [of "''/proc/self/fd''" "snd (os_open os ''/dev/fd'' [O_RDONLY, O_CLOEXEC] (kern w))" "[O_RDONLY, O_CLOEXEC]"]
  show ?thesis by (simp add: open_dirfd_def wp statics_upd split: if_splits)
next
  case Netbsd
  with assms open_plain [of "''/proc/self/fd''" "kern w" "[O_RDONLY, O_DIRECTORY, O_CLOEXEC]"]
  show ?thesis by (simp add: open_dirfd_def wp statics_upd split: if_splits)
next
  case Macos
  with assms open_plain [of "''/dev/fd''" "kern w" "[O_RDONLY, O_DIRECTORY, O_CLOEXEC]"]
  show ?thesis by (simp add: open_dirfd_def wp statics_upd split: if_splits)
next
  case Ios
  with assms open_plain [of "''/dev/fd''" "kern w" "[O_RDONLY, O_DIRECTORY, O_CLOEXEC]"]
  show ?thesis by (simp add: open_dirfd_def wp statics_upd split: if_splits)
qed (use can_open_law assms in \<open>auto simp: open_dirfd_def wp\<close>)

lemma DirFdIter_open_runs:
  assumes "statics_ok release osreldate w" "ok {} (kern w)" "0 \<le> minfd"
  shows "runs (DirFdIter_open cfg os minfd) w (\<lambda>r w'. statics_ok release osreldate w' \<and>
    (case r of None \<Rightarrow> ok {} (kern w') \<and> \<not> can_open
     | Some it \<Rightarrow> ok {di_dirfd it} (kern w') \<and> di_minfd it = minfd \<and> dir_rest P Q cfg (dirs (kern w')) minfd it))"
proof -
  have pend: "dir_pending P Q d minfd minfd 0 []" for d
    using assms(3) by (simp add: dir_pending_def)
  have buf: "buf_ok cfg \<lparr>di_minfd = minfd, di_dirfd = d, di_buf = replicate (d_size (RawDirent cfg)) 0,
    di_nbytes = 0, di_offset = 0\<rparr> []" for d
    by (simp add: buf_ok_def)
  show ?thesis unfolding DirFdIter_open_def runs_bnd
  proof (rule runs_conseq [OF open_dirfd_runs [OF assms(1,2)]], goal_cases)
    case (1 r w')
    show ?case
    proof (cases "r = None \<or> the r < 0")
      case True
      with 1 show ?thesis by (auto simp: wp split: option.splits)
    next
      case False
      then obtain fd where r: "r = Some fd" "0 \<le> fd" by auto
      with 1 obtain n where "ok {fd} (kern w')" "dirs (kern w') fd = Some (0, n)" "statics_ok release osreldate w'" by auto
      with r buf [of fd] pend [of fd] show ?thesis
        by (auto simp: wp dir_rest_def intro!: exI [of _ "[]"])
    qed
  qed
qed

end

context fd_kernel
begin

lemma is_wsl_1_runs:
  assumes "statics_ok release osreldate w"
  shows "runs (is_wsl_1 os) w (\<lambda>b w'. b = uname_is_wsl1 release \<and> statics_ok release osreldate w' \<and>
    fdt (kern w') = fdt (kern w) \<and> dirs (kern w') = dirs (kern w))"
  using assms by (auto simp: is_wsl_1_def statics_ok_def quiet_simps wp)

end

end
