(* ===== verification/Fd_Iter.thy ===== *)
theory Fd_Iter
  imports Dir_Fd
begin

text \<open>
  \<^verbatim>\<open>FdIter\<close> of \<^verbatim>\<open>src/iterfds/fditer.rs\<close>: it delivers the open descriptors in ascending order, from a
  descriptor directory as long as that works, and by trying every number up to a maximum otherwise.

  \<open>priv it\<close> is the descriptor the iterator holds for itself and \<open>utab T it\<close> the table without it: the
  descriptors of the program. \<open>it_inv\<close> is the invariant. The lemmas show that \<^verbatim>\<open>next\<close> returns, never
  panics, leaves the program's descriptors alone and delivers the least of those it has not
  delivered yet.
\<close>

section \<open>Definitions\<close>

record FdIter =
  fi_dirfd_iter :: "DirFdIter option"
  fi_curfd :: c_int
  fi_possible :: bool
  fi_maxfd :: "c_int option"
  fi_skip_nfds :: bool

definition get_nfds :: "config \<Rightarrow> 'k os \<Rightarrow> ('k world, c_int option) prog" where
  "get_nfds cfg os =
     (if target cfg = Freebsd then
        bnd (sys (os_sysctl os [c_CTL_KERN os, c_KERN_PROC os, KERN_PROC_NFDS, 0])) (\<lambda>(r, nfds).
        ret (if r = 0 then Some nfds else None))
      else bnd (sys (os_getdtablecount os)) (\<lambda>nfds. ret (Some nfds)))"

definition nfds_body :: "config \<Rightarrow> 'k os \<Rightarrow> c_int \<Rightarrow> c_int \<Rightarrow> c_int \<times> c_int \<Rightarrow>
  ('k world, (c_int \<times> c_int, c_int option) ctl) prog" where
  "nfds_body cfg os nfds end_fd = (\<lambda>(fd, nfds_found).
     if fd < end_fd then
       bnd (is_fd_valid os fd) (\<lambda>valid.
       if valid then
         bnd (add_i32 (overflow_checks cfg) nfds_found 1) (\<lambda>nfds_found.
         if nfds_found \<ge> nfds then ret (Break (Some fd))
         else ret (Continue (fd + 1, nfds_found)))
       else ret (Continue (fd + 1, nfds_found)))
     else ret (Break None))"

definition nfds_to_maxfd :: "config \<Rightarrow> 'k os \<Rightarrow> c_int \<Rightarrow> ('k world, c_int option) prog" where
  "nfds_to_maxfd cfg os nfds =
     (if nfds = 0 then ret (Some (- 1))
      else if nfds < 0 then ret None
      else if nfds \<ge> 100 then ret None
      else bnd (mul_i32 (overflow_checks cfg) nfds 2) (\<lambda>end_fd.
           loop_m (nfds_body cfg os nfds end_fd) (0, 0)))"

text \<open>The three blocks of \<^verbatim>\<open>get_maxfd_direct\<close>; \<open>None\<close> means that control falls through to the next.\<close>

definition maxfd_netbsd :: "config \<Rightarrow> 'k os \<Rightarrow> ('k world, c_int option) prog" where
  "maxfd_netbsd cfg os =
     (if target cfg = Netbsd then
        bnd (sysu (os_set_errno os 0)) (\<lambda>_.
        bnd (sys (os_fcntl_maxfd os 0)) (\<lambda>maxfd.
        if maxfd \<ge> 0 then ret (Some maxfd)
        else bnd (gets (\<lambda>w. os_errno os (kern w))) (\<lambda>errno.
             ret (if maxfd = - 1 \<and> errno = 0 then Some (- 1) else None))))
      else ret None)"

definition maxfd_nfds :: "config \<Rightarrow> 'k os \<Rightarrow> bool \<Rightarrow> ('k world, c_int option) prog" where
  "maxfd_nfds cfg os skip_nfds =
     (if cfg_nfds (target cfg) \<and> \<not> skip_nfds then
        bnd (get_nfds cfg os) (\<lambda>n. case n of None \<Rightarrow> ret None | Some nfds \<Rightarrow> nfds_to_maxfd cfg os nfds)
      else ret None)"

definition get_maxfd_direct :: "config \<Rightarrow> 'k os \<Rightarrow> FdIter \<Rightarrow> ('k world, c_int) prog" where
  "get_maxfd_direct cfg os it =
     bnd (maxfd_netbsd cfg os) (\<lambda>r. case r of Some maxfd \<Rightarrow> ret maxfd | None \<Rightarrow>
     bnd (maxfd_nfds cfg os (fi_skip_nfds it)) (\<lambda>r. case r of Some maxfd \<Rightarrow> ret maxfd | None \<Rightarrow>
     bnd (sys (os_sysconf_open_max os)) (\<lambda>fdlimit.
     sub_i32 (overflow_checks cfg) (wrap_i32 (min (max fdlimit 1024) 65536)) 1)))"

definition get_maxfd :: "config \<Rightarrow> 'k os \<Rightarrow> FdIter \<Rightarrow> ('k world, c_int \<times> FdIter) prog" where
  "get_maxfd cfg os it = (case fi_maxfd it of
     Some maxfd \<Rightarrow> ret (maxfd, it)
   | None \<Rightarrow>
       bnd (get_maxfd_direct cfg os it) (\<lambda>maxfd.
       bnd (debug_assert (debug_assertions cfg) (maxfd \<ge> - 1)) (\<lambda>_.
       ret (maxfd, it\<lparr>fi_maxfd := Some maxfd\<rparr>))))"

definition is_possible_iter :: "FdIter \<Rightarrow> bool" where
  "is_possible_iter it = fi_possible it"

text \<open>\<^verbatim>\<open>next\<close>: first the directory, then the loop over the numbers. Assigning \<open>None\<close> to \<^verbatim>\<open>dirfd_iter\<close>
  drops the \<^verbatim>\<open>DirFdIter\<close>.\<close>

definition next_dirfd :: "config \<Rightarrow> 'k os \<Rightarrow> FdIter \<Rightarrow>
  ('k world, (FdIter, c_int option \<times> FdIter) ctl) prog" where
  "next_dirfd cfg os it = (case fi_dirfd_iter it of
     None \<Rightarrow> ret (Continue it)
   | Some dfd_iter \<Rightarrow>
       bnd (DirFdIter_next cfg os dfd_iter) (\<lambda>(r, dfd_iter). case r of
         Ok (Some fd) \<Rightarrow>
           bnd (debug_assert (debug_assertions cfg) (fd \<ge> fi_curfd it)) (\<lambda>_.
           bnd (add_i32 (overflow_checks cfg) fd 1) (\<lambda>curfd.
           ret (Break (Some fd, it\<lparr>fi_dirfd_iter := Some dfd_iter, fi_curfd := curfd\<rparr>))))
       | Ok None \<Rightarrow> ret (Break (None, it\<lparr>fi_dirfd_iter := Some dfd_iter\<rparr>))
       | Err _ \<Rightarrow>
           bnd (DirFdIter_drop os dfd_iter) (\<lambda>_.
           ret (Continue (it\<lparr>fi_dirfd_iter := None\<rparr>)))))"

definition scan_body :: "config \<Rightarrow> 'k os \<Rightarrow> c_int \<Rightarrow> FdIter \<Rightarrow>
  ('k world, (FdIter, c_int option \<times> FdIter) ctl) prog" where
  "scan_body cfg os maxfd it =
     (if fi_curfd it \<le> maxfd then
        let fd = fi_curfd it in
        bnd (add_i32 (overflow_checks cfg) (fi_curfd it) 1) (\<lambda>curfd.
        let it = it\<lparr>fi_curfd := curfd\<rparr> in
        if fi_possible it then ret (Break (Some fd, it))
        else bnd (is_fd_valid os fd) (\<lambda>valid.
             if valid then ret (Break (Some fd, it)) else ret (Continue it)))
      else ret (Break (None, it)))"

definition FdIter_next :: "config \<Rightarrow> 'k os \<Rightarrow> FdIter \<Rightarrow> ('k world, c_int option \<times> FdIter) prog" where
  "FdIter_next cfg os it =
     bnd (next_dirfd cfg os it) (\<lambda>c. case c of
       Break r \<Rightarrow> ret r
     | Continue it \<Rightarrow> bnd (get_maxfd cfg os it) (\<lambda>(maxfd, it). loop_m (scan_body cfg os maxfd) it))"

definition add_usize :: "config \<Rightarrow> usize \<Rightarrow> usize \<Rightarrow> ('s, usize) prog" where
  "add_usize cfg a b =
     (if a + b < 2 ^ usize_bits cfg then ret (a + b)
      else if overflow_checks cfg then fail Overflow else ret ((a + b) mod 2 ^ usize_bits cfg))"

definition FdIter_size_hint :: "config \<Rightarrow> FdIter \<Rightarrow> ('s, usize \<times> usize option) prog" where
  "FdIter_size_hint cfg it = (case fi_dirfd_iter it of
     Some dfd_iter \<Rightarrow> DirFdIter_size_hint cfg dfd_iter
   | None \<Rightarrow> (case fi_maxfd it of
       Some maxfd \<Rightarrow>
         if maxfd = - 1 then ret (0, Some 0)
         else bnd (debug_assert (debug_assertions cfg) (maxfd \<ge> 0)) (\<lambda>_.
              bnd (add_usize cfg (as_usize cfg maxfd) 1) (\<lambda>n.
              let diff = n - as_usize cfg (fi_curfd it) in
              ret (if fi_possible it then diff else 0, Some diff)))
     | None \<Rightarrow> ret (0, Some (as_usize cfg i32_MAX))))"

definition FdIter_drop :: "'k os \<Rightarrow> FdIter \<Rightarrow> ('k world, unit) prog" where
  "FdIter_drop os it = (case fi_dirfd_iter it of
     Some dfd_iter \<Rightarrow> DirFdIter_drop os dfd_iter
   | None \<Rightarrow> ret ())"

text \<open>\<^verbatim>\<open>min\<close> takes the first descriptor; \<^verbatim>\<open>max\<close> is \<^verbatim>\<open>Iterator::last\<close>. Both consume the iterator.\<close>

definition FdIter_min :: "config \<Rightarrow> 'k os \<Rightarrow> FdIter \<Rightarrow> ('k world, c_int option) prog" where
  "FdIter_min cfg os it =
     bnd (FdIter_next cfg os it) (\<lambda>(r, it). bnd (FdIter_drop os it) (\<lambda>_. ret r))"

definition FdIter_max :: "config \<Rightarrow> 'k os \<Rightarrow> FdIter \<Rightarrow> ('k world, c_int option) prog" where
  "FdIter_max cfg os it =
     loop_m (\<lambda>(last, it). bnd (FdIter_next cfg os it) (\<lambda>(r, it). case r of
       Some fd \<Rightarrow> ret (Continue (Some fd, it))
     | None \<Rightarrow> bnd (FdIter_drop os it) (\<lambda>_. ret (Break last)))) (None, it)"

section \<open>Invariant\<close>

definition priv :: "FdIter \<Rightarrow> int set" where
  "priv it = (case fi_dirfd_iter it of
     Some d \<Rightarrow> if di_dirfd d \<ge> 0 then {di_dirfd d} else {}
   | None \<Rightarrow> {})"

definition utab :: "fd_table \<Rightarrow> FdIter \<Rightarrow> fd_table" where
  "utab T it = upd eff_close (priv it) T"

text \<open>The scan over the numbers would find every descriptor that is left.\<close>

definition scan_ok :: "int set \<Rightarrow> int \<Rightarrow> FdIter \<Rightarrow> bool" where
  "scan_ok P open_max it \<longleftrightarrow> (\<forall>fd\<in>P. fi_curfd it \<le> fd \<longrightarrow> fd \<le> scan_max open_max)"

text \<open>The invariant of an iterator that has to deliver the descriptors in \<open>P\<close> and may deliver those in \<open>Q\<close>. The
  count of descriptors is used only when nothing else opens or closes descriptors.\<close>

definition fd_inv :: "int set \<Rightarrow> int set \<Rightarrow> config \<Rightarrow> int \<Rightarrow> bool \<Rightarrow> bool \<Rightarrow> (int \<Rightarrow> (int \<times> nat) option) \<Rightarrow> FdIter \<Rightarrow> bool" where
  "fd_inv P Q cfg open_max dirs_work alone D it \<longleftrightarrow>
     0 \<le> fi_curfd it \<and> fi_curfd it \<le> i32_MAX \<and> (alone \<or> fi_skip_nfds it \<or> \<not> cfg_nfds (target cfg)) \<and>
     (case fi_dirfd_iter it of
        Some d \<Rightarrow> fi_maxfd it = None \<and> (dirs_work \<or> scan_ok P open_max it) \<and>
          (if di_dirfd d < 0 then \<forall>fd\<in>P. fd < fi_curfd it else dir_rest P Q cfg D (fi_curfd it) d)
      | None \<Rightarrow> (case fi_maxfd it of
          None \<Rightarrow> scan_ok P open_max it
        | Some m \<Rightarrow> - 1 \<le> m \<and> m < i32_MAX \<and> (\<forall>fd\<in>P. fi_curfd it \<le> fd \<longrightarrow> fd \<le> m)))"

text \<open>The same when the table is \<open>T\<close> and only this code changes it: all of the program's descriptors have to be
  delivered.\<close>

definition it_inv :: "int set \<Rightarrow> config \<Rightarrow> int \<Rightarrow> bool \<Rightarrow> fd_table \<Rightarrow> (int \<Rightarrow> (int \<times> nat) option) \<Rightarrow> FdIter \<Rightarrow> bool" where
  "it_inv Q cfg open_max dirs_work T D it \<longleftrightarrow>
     priv it \<subseteq> dom T \<and> dom (utab T it) \<subseteq> Q \<and> fd_inv (dom (utab T it)) Q cfg open_max dirs_work True D it"

text \<open>What \<^verbatim>\<open>next\<close> promises: it returns the least descriptor left, or there is none left.\<close>

definition next_post :: "int set \<Rightarrow> int set \<Rightarrow> FdIter \<Rightarrow> c_int option \<Rightarrow> FdIter \<Rightarrow> bool" where
  "next_post P Q it r it' \<longleftrightarrow> fi_possible it' = fi_possible it \<and> (case r of
     None \<Rightarrow> fi_curfd it \<le> fi_curfd it' \<and> (\<forall>fd\<in>P. fd < fi_curfd it)
   | Some fd \<Rightarrow> fi_curfd it \<le> fd \<and> fi_curfd it' = fd + 1 \<and> fd \<notin> priv it' \<and>
       (\<forall>x\<in>P. fi_curfd it \<le> x \<longrightarrow> fd \<le> x) \<and> (\<not> fi_possible it \<longrightarrow> fd \<in> Q))"

text \<open>Only \<^verbatim>\<open>curfd\<close> has changed.\<close>

definition only_curfd :: "FdIter \<Rightarrow> FdIter \<Rightarrow> bool" where
  "only_curfd it it' \<longleftrightarrow> fi_dirfd_iter it' = fi_dirfd_iter it \<and> fi_possible it' = fi_possible it \<and> fi_maxfd it' = fi_maxfd it \<and>
     fi_skip_nfds it' = fi_skip_nfds it"

section \<open>Finding the maximum\<close>

lemma card_below_Suc:
  fixes fd :: int
  assumes "finite A"
  shows "card {x \<in> A. x < fd + 1} = card {x \<in> A. x < fd} + (if fd \<in> A then 1 else 0)"
proof -
  have "{x \<in> A. x < fd + 1} = (if fd \<in> A then insert fd {x \<in> A. x < fd} else {x \<in> A. x < fd})"
    by (auto simp: zless_add1_eq order_le_less)
  with assms show ?thesis by simp
qed

lemma card_below_all:
  fixes fd :: int
  assumes "finite A" "card {x \<in> A. x < fd} = card A" "x \<in> A"
  shows "x < fd"
proof -
  have "{x \<in> A. x < fd} = A" using assms by (intro card_subset_eq) auto
  with assms(3) show ?thesis by blast
qed

context shared_kernel
begin

lemma is_fd_valid_runs:
  assumes "ok {} (kern w)"
  shows "runs (is_fd_valid os fd) w (\<lambda>b w'. only_kern w w' \<and> ok {} (kern w') \<and>
    (fd \<in> P \<longrightarrow> b) \<and> (b \<longrightarrow> fd \<in> Q \<and> (alone \<longrightarrow> fd \<in> P)))"
proof -
  obtain r k' where r: "os_fcntl_getfd os fd (kern w) = (r, k')" by fastforce
  with getfd_law [OF assms r] show ?thesis by (auto simp: is_fd_valid_def wp)
qed

lemma nfds_to_maxfd_runs:
  assumes "nfds = int (card P)" alone "ok {} (kern w)"
  shows "runs (nfds_to_maxfd cfg os nfds) w (\<lambda>r w'. only_kern w w' \<and> ok {} (kern w') \<and>
    (\<forall>m. r = Some m \<longrightarrow> - 1 \<le> m \<and> m < i32_MAX \<and> (\<forall>fd\<in>P. fd \<le> m)))"
    (is "runs _ _ ?Q")
proof (cases "0 < nfds \<and> nfds < 100")
  case False
  with assms finite_P [OF assms(3)] show ?thesis by (auto simp: nfds_to_maxfd_def wp)
next
  case True
  note fin = finite_P [OF assms(3)]
  let ?I = "\<lambda>(fd, n) w'. only_kern w w' \<and> ok {} (kern w') \<and>
    0 \<le> fd \<and> fd \<le> nfds * 2 \<and> n = int (card {x \<in> P. x < fd}) \<and> n < nfds"
  have "runs (loop_m (nfds_body cfg os nfds (nfds * 2)) (0, 0)) w ?Q"
  proof (rule runs_loop_m [where I = ?I and \<mu> = "\<lambda>c w'. nat (nfds * 2 - fst c)"])
    fix c w' assume I: "?I c w'"
    obtain fd n where c: "c = (fd, n)" by fastforce
    have step: "int (card {x \<in> P. x < fd + 1}) = n + (if fd \<in> P then 1 else 0)"
      using card_below_Suc [OF fin, of fd] I c by simp
    show "runs (nfds_body cfg os nfds (nfds * 2) c) w' (\<lambda>r w''. case r of
        Continue c' \<Rightarrow> ?I c' w'' \<and> nat (nfds * 2 - fst c') < nat (nfds * 2 - fst c)
      | Break x \<Rightarrow> ?Q x w'')"
    proof (cases "fd < nfds * 2")
      case False
      with I c show ?thesis by (simp add: nfds_body_def wp)
    next
      case fd: True
      have bound: "in_i32 (n + 1)" using I c True by (auto simp: in_i32_def)
      have body: "nfds_body cfg os nfds (nfds * 2) (fd, n) = bnd (is_fd_valid os fd) (\<lambda>valid.
          if valid then bnd (add_i32 (overflow_checks cfg) n 1) (\<lambda>n.
            if n \<ge> nfds then ret (Break (Some fd)) else ret (Continue (fd + 1, n)))
          else ret (Continue (fd + 1, n)))"
        using fd by (simp add: nfds_body_def)
      have "ok {} (kern w')" using I c by simp
      show ?thesis unfolding c body runs_bnd
      proof (rule runs_conseq [OF is_fd_valid_runs [OF \<open>ok {} (kern w')\<close>]], goal_cases)
        case (1 valid w'')
        then have F: "only_kern w w''" "ok {} (kern w'')" "valid = (fd \<in> P)"
          using I c assms(2) by (auto dest: only_kern_trans)
        show ?case
        proof (cases "valid \<and> n + 1 \<ge> nfds")
          case True
          with step F(3) I c assms(1) have "card {x \<in> P. x < fd + 1} = card P" by auto
          with card_below_all [OF fin] have "\<forall>x\<in>P. x < fd + 1" by blast
          with True F I c bound fd \<open>0 < nfds \<and> nfds < 100\<close> show ?thesis by (auto simp: wp add_i32_def)
        next
          case False
          with step F I c bound fd show ?thesis by (auto simp: wp add_i32_def)
        qed
      qed
    qed
  qed (use True fin assms(3) in \<open>auto simp: card_eq_0_iff dest: P_range\<close>)
  with True show ?thesis by (simp add: nfds_to_maxfd_def mul_i32_def in_i32_def)
qed

lemma maxfd_netbsd_runs:
  assumes "ok {} (kern w)"
  shows "runs (maxfd_netbsd cfg os) w (\<lambda>r w'. only_kern w w' \<and> ok {} (kern w') \<and>
    (\<forall>m. r = Some m \<longrightarrow> - 1 \<le> m \<and> m < i32_MAX \<and> (\<forall>fd\<in>P. fd \<le> m)))"
proof (cases "target cfg = Netbsd")
  case True
  obtain m k where m: "os_fcntl_maxfd os 0 (os_set_errno os 0 (kern w)) = (m, k)" by fastforce
  with netbsd_maxfd [OF True assms m] True m show ?thesis by (auto simp: maxfd_netbsd_def wp)
qed (use assms in \<open>simp add: maxfd_netbsd_def wp\<close>)

lemma maxfd_nfds_runs:
  assumes "ok {} (kern w)" "alone \<or> skip \<or> \<not> cfg_nfds (target cfg)"
  shows "runs (maxfd_nfds cfg os skip) w (\<lambda>r w'. only_kern w w' \<and> ok {} (kern w') \<and>
    (\<forall>m. r = Some m \<longrightarrow> - 1 \<le> m \<and> m < i32_MAX \<and> (\<forall>fd\<in>P. fd \<le> m)))"
proof (cases "cfg_nfds (target cfg) \<and> \<not> skip")
  case True
  with assms(2) have alone by blast
  have nfds: "runs (get_nfds cfg os) w (\<lambda>r w'. only_kern w w' \<and> ok {} (kern w') \<and> (\<forall>n. r = Some n \<longrightarrow> n = int (card P)))"
  proof (cases "target cfg = Freebsd")
    case F: True
    let ?mib = "[c_CTL_KERN os, c_KERN_PROC os, KERN_PROC_NFDS, 0]"
    obtain r v k where y: "os_sysctl os ?mib (kern w) = ((r, v), k)" by (metis surj_pair)
    with freebsd_nfds [OF F assms(1) y] F \<open>alone\<close> show ?thesis by (auto simp: get_nfds_def wp)
  next
    case False
    with True have "target cfg = Openbsd" by (auto simp: cfg_nfds_def)
    moreover obtain v k where y: "os_getdtablecount os (kern w) = (v, k)" by fastforce
    ultimately show ?thesis using openbsd_nfds [OF _ assms(1) y] \<open>alone\<close> by (auto simp: get_nfds_def wp)
  qed
  show ?thesis unfolding maxfd_nfds_def using True
    by (auto simp: wp intro!: runs_conseq [OF nfds] runs_conseq [OF nfds_to_maxfd_runs [OF _ \<open>alone\<close>]]
        intro: only_kern_trans split: option.splits)
qed (use assms(1) in \<open>auto simp: maxfd_nfds_def wp\<close>)

lemma get_maxfd_direct_runs:
  assumes "\<forall>fd\<in>P. cur \<le> fd \<longrightarrow> fd \<le> scan_max open_max" "ok {} (kern w)" "alone \<or> fi_skip_nfds it \<or> \<not> cfg_nfds (target cfg)"
  shows "runs (get_maxfd_direct cfg os it) w (\<lambda>m w'. only_kern w w' \<and> ok {} (kern w') \<and> - 1 \<le> m \<and> m < i32_MAX \<and>
    (\<forall>fd\<in>P. cur \<le> fd \<longrightarrow> fd \<le> m))" (is "runs _ _ ?Q")
proof -
  have "wrap_i32 (min (max x 1024) 65536) = min (max x 1024) 65536" "in_i32 (min (max x 1024) 65536 - 1)" for x
    by (auto simp: wrap_i32_def in_i32_def min_def max_def)
  then have sysconf: "runs (bnd (sys (os_sysconf_open_max os)) (\<lambda>fdlimit.
     sub_i32 (overflow_checks cfg) (wrap_i32 (min (max fdlimit 1024) 65536)) 1)) w'
     (\<lambda>m w''. m = scan_max open_max \<and> only_kern w' w'' \<and> ok {} (kern w''))" if "ok {} (kern w')" for w'
    using sysconf_law [OF that, of "fst (os_sysconf_open_max os (kern w'))" "snd (os_sysconf_open_max os (kern w'))"]
    by (simp add: wp sub_i32_def scan_max_def)
  have range: "- 1 \<le> scan_max open_max" "scan_max open_max < i32_MAX" by (auto simp: scan_max_def)
  show ?thesis unfolding get_maxfd_direct_def
  proof (rule runs_bndI [OF maxfd_netbsd_runs [OF assms(2)]])
    fix r w1 assume 1: "only_kern w w1 \<and> ok {} (kern w1) \<and>
      (\<forall>m. r = Some m \<longrightarrow> - 1 \<le> m \<and> m < i32_MAX \<and> (\<forall>fd\<in>P. fd \<le> m))"
    show "runs (case r of Some m \<Rightarrow> ret m | None \<Rightarrow> bnd (maxfd_nfds cfg os (fi_skip_nfds it)) (\<lambda>r.
      case r of Some m \<Rightarrow> ret m | None \<Rightarrow> bnd (sys (os_sysconf_open_max os)) (\<lambda>fdlimit.
        sub_i32 (overflow_checks cfg) (wrap_i32 (min (max fdlimit 1024) 65536)) 1))) w1 ?Q"
    proof (cases r)
      case None
      show ?thesis unfolding None option.case
        by (rule runs_bndI [OF maxfd_nfds_runs [OF _ assms(3)]])
          (use 1 assms(1) range in \<open>auto simp: runs_ret intro!: runs_conseq [OF sysconf] dest: only_kern_trans split: option.splits\<close>)
    qed (use 1 in \<open>auto simp: wp\<close>)
  qed
qed

end

section \<open>The next descriptor\<close>

lemma priv_None [simp]: "fi_dirfd_iter it = None \<Longrightarrow> priv it = {}"
  by (simp add: priv_def)

lemma priv_live [simp]: "fi_dirfd_iter it = Some d \<Longrightarrow> 0 \<le> di_dirfd d \<Longrightarrow> priv it = {di_dirfd d}"
  by (simp add: priv_def)

lemma priv_done [simp]: "fi_dirfd_iter it = Some d \<Longrightarrow> di_dirfd d < 0 \<Longrightarrow> priv it = {}"
  by (simp add: priv_def)

lemma utab_simps:
  "priv it = {} \<Longrightarrow> utab T it = T" "priv it = {d} \<Longrightarrow> utab T it = T(d := None)"
  by (auto simp: utab_def upd_def)

context shared_kernel
begin

lemma scan_runs:
  assumes "0 \<le> fi_curfd it" "m < i32_MAX" "\<forall>fd\<in>P. fi_curfd it \<le> fd \<longrightarrow> fd \<le> m" "ok {} (kern w)"
  shows "runs (loop_m (scan_body cfg os m) it) w (\<lambda>(r, it') w'. only_kern w w' \<and> ok {} (kern w') \<and> only_curfd it it' \<and> (case r of
      None \<Rightarrow> fi_curfd it \<le> fi_curfd it' \<and> (fi_curfd it' \<le> i32_MAX \<or> fi_curfd it' = fi_curfd it) \<and> (\<forall>fd\<in>P. fd < fi_curfd it)
    | Some fd \<Rightarrow> fi_curfd it \<le> fd \<and> fd \<le> m \<and> fi_curfd it' = fd + 1 \<and>
       (\<forall>x\<in>P. fi_curfd it \<le> x \<longrightarrow> fd \<le> x) \<and> (\<not> fi_possible it \<longrightarrow> fd \<in> Q)))"
    (is "runs _ _ ?Q")
proof -
  let ?I = "\<lambda>it' w'. only_kern w w' \<and> ok {} (kern w') \<and> only_curfd it it' \<and> fi_curfd it \<le> fi_curfd it' \<and>
      (fi_curfd it' \<le> i32_MAX \<or> fi_curfd it' = fi_curfd it) \<and> (\<forall>x\<in>P. fi_curfd it \<le> x \<longrightarrow> fi_curfd it' \<le> x)"
  show ?thesis
  proof (rule runs_loop_m [where \<mu> = "\<lambda>it' w'. nat (m + 1 - fi_curfd it')" and I = ?I])
    fix it' w' assume I: "?I it' w'"
    let ?c = "fi_curfd it'"
    show "runs (scan_body cfg os m it') w' (\<lambda>r w''. case r of
        Continue it'' \<Rightarrow> ?I it'' w'' \<and> nat (m + 1 - fi_curfd it'') < nat (m + 1 - fi_curfd it')
      | Break x \<Rightarrow> ?Q x w'')"
    proof (cases "?c \<le> m")
      case False
      have "fd < fi_curfd it" if "fd \<in> P" for fd
        using False I assms(3) that by (meson le_less_trans linorder_not_le)
      with False I show ?thesis by (auto simp: scan_body_def wp)
    next
      case True
      with assms I have c: "in_i32 (?c + 1)" by (auto simp: in_i32_def)
      have step: "x = ?c \<or> ?c + 1 \<le> x" if "x \<in> P" "fi_curfd it \<le> x" for x
        using I that by force
      show ?thesis
      proof (cases "fi_possible it")
        case P: True
        with True I c show ?thesis by (auto simp: scan_body_def Let_def add_i32_def wp only_curfd_def)
      next
        case P: False
        have body: "scan_body cfg os m it' = bnd (is_fd_valid os ?c) (\<lambda>valid.
            if valid then ret (Break (Some ?c, it'\<lparr>fi_curfd := ?c + 1\<rparr>)) else ret (Continue (it'\<lparr>fi_curfd := ?c + 1\<rparr>)))"
          using True I c P by (simp add: scan_body_def Let_def add_i32_def only_curfd_def)
        have "ok {} (kern w')" using I by blast
        show ?thesis unfolding body
        proof (rule runs_bndI [OF is_fd_valid_runs [OF \<open>ok {} (kern w')\<close>]], goal_cases)
          case (1 valid w'')
          then have q: "only_kern w w''" "ok {} (kern w'')" using I by (blast intro: only_kern_trans)+
          show ?case
          proof (cases valid)
            case True
            with 1 q I \<open>?c \<le> m\<close> show ?thesis by (auto simp: wp only_curfd_def)
          next
            case False
            then have "\<forall>x\<in>P. fi_curfd it \<le> x \<longrightarrow> ?c + 1 \<le> x" using 1 step by blast
            with False q I \<open>?c \<le> m\<close> assms(2) show ?thesis by (auto simp: wp only_curfd_def)
          qed
        qed
      qed
    qed
  qed (use assms in \<open>auto simp: only_curfd_def\<close>)
qed

abbreviation it_ok :: "FdIter \<Rightarrow> 'k world \<Rightarrow> bool" where
  "it_ok it w \<equiv> ok (priv it) (kern w) \<and> fd_inv P Q cfg open_max dirs_work alone (dirs (kern w)) it"

lemma FdIter_drop_shared:
  "it_ok it w \<Longrightarrow> runs (FdIter_drop os it) w (\<lambda>_ w'. only_kern w w' \<and> ok {} (kern w'))"
  by (auto simp: FdIter_drop_def DirFdIter_drop_def wp close_ok split: option.splits)

lemma next_dirfd_runs:
  assumes "it_ok it w"
  shows "runs (next_dirfd cfg os it) w (\<lambda>r w'. only_kern w w' \<and> (case r of
      Continue it' \<Rightarrow> it' = it\<lparr>fi_dirfd_iter := None\<rparr> \<and> it_ok it' w'
    | Break (x, it') \<Rightarrow> it_ok it' w' \<and> next_post P Q it x it'))"
proof (cases "fi_dirfd_iter it")
  case None
  moreover from None have "it = it\<lparr>fi_dirfd_iter := None\<rparr>" by (cases it) simp
  ultimately show ?thesis using assms by (auto simp: next_dirfd_def wp)
next
  case (Some d)
  show ?thesis
  proof (cases "di_dirfd d < 0")
    case True
    with Some assms show ?thesis
      by (auto simp: next_dirfd_def DirFdIter_next_def wp fd_inv_def next_post_def scan_ok_def)
  next
    case False
    with Some assms have ok: "ok {di_dirfd d} (kern w)" by simp
    from False Some assms have live: "dir_rest P Q cfg (dirs (kern w)) (fi_curfd it) d"
      and rest: "fi_maxfd it = None" "dirs_work \<or> scan_ok P open_max it" "0 \<le> fi_curfd it" "fi_curfd it \<le> i32_MAX"
      and nfds: "alone \<or> fi_skip_nfds it \<or> \<not> cfg_nfds (target cfg)"
      by (auto simp: fd_inv_def)
    have n: "next_dirfd cfg os it = bnd (DirFdIter_next cfg os d) (\<lambda>(r, dfd_iter). case r of
         Ok (Some fd) \<Rightarrow>
           bnd (debug_assert (debug_assertions cfg) (fd \<ge> fi_curfd it)) (\<lambda>_.
           bnd (add_i32 (overflow_checks cfg) fd 1) (\<lambda>curfd.
           ret (Break (Some fd, it\<lparr>fi_dirfd_iter := Some dfd_iter, fi_curfd := curfd\<rparr>))))
       | Ok None \<Rightarrow> ret (Break (None, it\<lparr>fi_dirfd_iter := Some dfd_iter\<rparr>))
       | Err _ \<Rightarrow>
           bnd (DirFdIter_drop os dfd_iter) (\<lambda>_.
           ret (Continue (it\<lparr>fi_dirfd_iter := None\<rparr>))))"
      by (simp add: next_dirfd_def Some)
    show ?thesis unfolding n
    proof (rule runs_bndI [OF DirFdIter_next_runs [OF dir_rest_live [OF live] ok]], goal_cases)
      case (1 x w')
      obtain r d' where x: "x = (r, d')" by fastforce
      consider (fd) fd where "r = Ok (Some fd)" | (eof) "r = Ok None" | (err) "r = Err ()"
        by (metis (full_types) not_None_eq old.unit.exhaust result.exhaust)
      then show ?case
      proof cases
        case fd
        with 1 x have F: "ok {di_dirfd d} (kern w')" "di_dirfd d' = di_dirfd d" "only_kern w w'"
          "dir_rest P Q cfg (dirs (kern w')) (fd + 1) d'"
          "fi_curfd it \<le> fd" "0 \<le> fd" "fd < i32_MAX" "fd \<noteq> di_dirfd d" "fd \<in> Q" "\<forall>x\<in>P. fi_curfd it \<le> x \<longrightarrow> fd \<le> x"
          by auto
        let ?it = "it\<lparr>fi_dirfd_iter := Some d', fi_curfd := fd + 1\<rparr>"
        have "it_ok ?it w'" using F False rest nfds by (auto simp: fd_inv_def scan_ok_def)
        moreover have "next_post P Q it (Some fd) ?it" using F False by (auto simp: next_post_def)
        ultimately show ?thesis using fd x F by (simp add: wp add_i32_def in_i32_def)
      next
        case eof
        with 1 x have F: "di_dirfd d' = - 1" "ok {} (kern w')" "only_kern w w'" "\<forall>x\<in>P. x < fi_curfd it"
          by simp_all
        let ?it = "it\<lparr>fi_dirfd_iter := Some d'\<rparr>"
        have "it_ok ?it w'" using F rest nfds by (auto simp: fd_inv_def scan_ok_def)
        with F eof x show ?thesis by (simp add: wp next_post_def)
      next
        case err
        with 1 x have F: "ok {di_dirfd d} (kern w')" "di_dirfd d' = di_dirfd d" "only_kern w w'" "\<not> dirs_work"
          by simp_all
        with rest nfds False err x close_ok [OF F(1)] show ?thesis
          by (auto simp: DirFdIter_drop_def wp fd_inv_def scan_ok_def)
      qed
    qed
  qed
qed

lemma get_maxfd_runs:
  assumes "it_ok it w" "fi_dirfd_iter it = None"
  shows "runs (get_maxfd cfg os it) w (\<lambda>(m, it') w'. only_kern w w' \<and> ok {} (kern w') \<and> it' = it\<lparr>fi_maxfd := Some m\<rparr> \<and>
    - 1 \<le> m \<and> m < i32_MAX \<and> (\<forall>fd\<in>P. fi_curfd it \<le> fd \<longrightarrow> fd \<le> m))"
proof (cases "fi_maxfd it")
  case None
  with assms have "\<forall>fd\<in>P. fi_curfd it \<le> fd \<longrightarrow> fd \<le> scan_max open_max" "ok {} (kern w)"
    "alone \<or> fi_skip_nfds it \<or> \<not> cfg_nfds (target cfg)"
    by (simp_all add: fd_inv_def scan_ok_def)
  note direct = get_maxfd_direct_runs [OF this]
  from None show ?thesis by (auto simp: get_maxfd_def wp intro!: runs_conseq [OF direct])
next
  case (Some m)
  then have "it = it\<lparr>fi_maxfd := Some m\<rparr>" by (cases it) simp
  with Some assms show ?thesis by (auto simp: get_maxfd_def wp fd_inv_def)
qed

lemma FdIter_next_shared:
  assumes "it_ok it w"
  shows "runs (FdIter_next cfg os it) w (\<lambda>(r, it') w'. only_kern w w' \<and> it_ok it' w' \<and> next_post P Q it r it')"
    (is "runs _ _ ?Q")
  unfolding FdIter_next_def
proof (rule runs_bndI [OF next_dirfd_runs [OF assms]], goal_cases)
  case (1 c w1)
  show ?case
  proof (cases c)
    case (Break b)
    with 1 show ?thesis by (auto simp: wp split: prod.splits)
  next
    case (Continue it1)
    with 1 have it1: "it1 = it\<lparr>fi_dirfd_iter := None\<rparr>" "it_ok it1 w1" "only_kern w w1" by auto
    have "runs (bnd (get_maxfd cfg os it1) (\<lambda>(maxfd, it). loop_m (scan_body cfg os maxfd) it)) w1 ?Q"
    proof (rule runs_bndI [OF get_maxfd_runs [OF it1(2)]], goal_cases)
      case 1 with it1 show ?case by simp
    next
      case (2 x w2)
      obtain m it2 where x: "x = (m, it2)" by fastforce
      with 2 it1(1) have m: "only_kern w1 w2" "ok {} (kern w2)" "it2 = it1\<lparr>fi_maxfd := Some m\<rparr>" "- 1 \<le> m" "m < i32_MAX"
        "\<forall>fd\<in>P. fi_curfd it2 \<le> fd \<longrightarrow> fd \<le> m" by auto
      then have cur: "0 \<le> fi_curfd it2" "fi_curfd it2 = fi_curfd it" "fi_curfd it2 \<le> i32_MAX" using it1 by (simp_all add: fd_inv_def)
      have nfds: "alone \<or> fi_skip_nfds it \<or> \<not> cfg_nfds (target cfg)" using assms by (simp add: fd_inv_def)
      show ?case unfolding x prod.case
      proof (rule runs_conseq [OF scan_runs [OF cur(1) m(5,6,2)]], goal_cases)
        case (1 y w3)
        obtain r it3 where y: "y = (r, it3)" by fastforce
        with 1 m(1) it1(3) have Q: "only_kern w w3" "ok {} (kern w3)" "only_curfd it2 it3" by (auto intro: only_kern_trans)
        then have it3: "fi_dirfd_iter it3 = None" "fi_maxfd it3 = Some m" "fi_skip_nfds it3 = fi_skip_nfds it"
          "fi_possible it3 = fi_possible it" using m(3) it1(1) by (simp_all add: only_curfd_def)
        have ge: "fi_curfd it2 \<le> fi_curfd it3" "fi_curfd it3 \<le> i32_MAX"
          using 1 y m(5) cur(3) by (auto split: option.splits)
        have "\<forall>fd\<in>P. fi_curfd it3 \<le> fd \<longrightarrow> fd \<le> m" using m(6) ge(1) by fastforce
        with ge m(4,5) cur(1) it3 nfds have "fd_inv P Q cfg open_max dirs_work alone (dirs (kern w3)) it3"
          by (simp add: fd_inv_def)
        moreover have "next_post P Q it r it3" using 1 y it3 cur(2) m(3) it1(1)
          by (auto simp: next_post_def split: option.splits)
        ultimately show ?case using y Q it3(1) by simp
      qed
    qed
    with Continue show ?thesis by simp
  qed
qed

end

text \<open>What other code does to other descriptors, short of opening new ones that have to be delivered, keeps the
  invariant.\<close>

lemma fd_inv_mono:
  assumes "fd_inv P Q cfg open_max dirs_work alone D it" "P' \<subseteq> P" "Q \<subseteq> Q'" "\<And>d. d \<in> priv it \<Longrightarrow> D' d = D d"
  shows "fd_inv P' Q' cfg open_max dirs_work alone D' it"
proof (cases "fi_dirfd_iter it")
  case None
  with assms(1,2) show ?thesis by (auto simp: fd_inv_def scan_ok_def split: option.splits)
next
  case (Some d)
  show ?thesis
  proof (cases "di_dirfd d < 0")
    case True
    with Some assms(1,2) show ?thesis by (auto simp: fd_inv_def scan_ok_def)
  next
    case False
    then have "D' (di_dirfd d) = D (di_dirfd d)" using Some assms(4) by simp
    with False Some assms(1-3) show ?thesis by (auto simp: fd_inv_def scan_ok_def intro: dir_rest_mono)
  qed
qed

context fd_kernel
begin

abbreviation iter_ok :: "int set \<Rightarrow> FdIter \<Rightarrow> 'k world \<Rightarrow> bool" where
  "iter_ok Q it w \<equiv> it_inv Q cfg open_max dirs_work (fdt (kern w)) (dirs (kern w)) it"

abbreviation user_tab :: "FdIter \<Rightarrow> 'k world \<Rightarrow> fd_table" where
  "user_tab it w \<equiv> utab (fdt (kern w)) it"

lemma iter_ok_shared:
  "iter_ok Q it w \<longleftrightarrow> holding fdt (user_tab it w) Q (priv it) (kern w) \<and>
     fd_inv (dom (user_tab it w)) Q cfg open_max dirs_work True (dirs (kern w)) it"
  by (auto simp: it_inv_def holding_def utab_def)

lemma FdIter_drop_runs:
  "runs (FdIter_drop os it) w (\<lambda>_ w'. only_kern w w' \<and> fdt (kern w') = user_tab it w)"
  by (auto simp: FdIter_drop_def DirFdIter_drop_def wp utab_simps close_fdt split: option.splits)

lemma FdIter_next_runs:
  assumes "iter_ok Q it w"
  shows "runs (FdIter_next cfg os it) w (\<lambda>(r, it') w'. only_kern w w' \<and> iter_ok Q it' w' \<and>
    user_tab it' w' = user_tab it w \<and> next_post (dom (user_tab it w)) Q it r it')"
proof (rule runs_conseq [OF sh.FdIter_next_shared [OF assms [unfolded iter_ok_shared]]], goal_cases)
  case (1 x w')
  obtain r it' where x: "x = (r, it')" by fastforce
  with 1 have ok: "holding fdt (user_tab it w) Q (priv it') (kern w')" by simp
  then have "user_tab it' w' = user_tab it w" by (simp add: holding_def utab_def)
  with 1 x ok show ?case by (simp add: iter_ok_shared)
qed

end

section \<open>On any kernel\<close>

text \<open>The lemmas of this section assume nothing about the kernel.\<close>

lemma bnd_returns:
  assumes "bnd m f s = Some (Inr (y, s'))"
  obtains x s1 where "m s = Some (Inr (x, s1))" "f x s1 = Some (Inr (y, s'))"
  using assms by (auto simp: bnd_def split: option.splits sum.splits)

lemma DirFdIter_next_None:
  assumes "DirFdIter_next cfg os d w = Some (Inr ((Ok None, d'), w'))"
  shows "di_dirfd d' < 0"
proof (cases "di_dirfd d < 0")
  case True
  with assms show ?thesis by (simp add: DirFdIter_next_def ret_def)
next
  case False
  let ?Q = "\<lambda>p :: (c_int option, unit) result \<times> DirFdIter. case p of (r, d') \<Rightarrow> r = Ok None \<longrightarrow> di_dirfd d' < 0"
  let ?body = "\<lambda>it. bnd (dir_refill cfg os it) (\<lambda>c. case c of Break r \<Rightarrow> ret (Break r) | Continue it \<Rightarrow> dir_take cfg it)"
  from assms False have "loop_m ?body d w = Some (Inr ((Ok None, d'), w'))" by (simp add: DirFdIter_next_def)
  then have "?Q (Ok None, d')"
  proof (rule loop_m_returns [where P = "\<lambda>_. True" and Q = ?Q])
    fix c s x s' assume "?body c s = Some (Inr (Break x, s'))"
    then show "?Q x"
      by (elim bnd_returns)
        (auto simp: dir_refill_def dir_take_def ret_def sys_def Let_def split: ctl.splits if_splits option.splits prod.splits elim!: bnd_returns)
  qed simp_all
  then show ?thesis by simp
qed

lemma scan_None:
  assumes "loop_m (scan_body cfg os m) it w = Some (Inr ((None, it'), w'))" "fi_dirfd_iter it = None" "fi_maxfd it = Some m"
  shows "fi_dirfd_iter it' = None \<and> fi_maxfd it' = Some m \<and> m < fi_curfd it'"
proof -
  let ?Q = "\<lambda>p :: c_int option \<times> FdIter. case p of (r, it') \<Rightarrow> r = None \<longrightarrow> fi_dirfd_iter it' = None \<and> fi_maxfd it' = Some m \<and> m < fi_curfd it'"
  have "?Q (None, it')"
  proof (rule loop_m_returns [OF assms(1), where P = "\<lambda>it. fi_dirfd_iter it = None \<and> fi_maxfd it = Some m" and Q = ?Q])
    fix c s c' s'
    assume "fi_dirfd_iter c = None \<and> fi_maxfd c = Some m" "scan_body cfg os m c s = Some (Inr (Continue c', s'))"
    then show "fi_dirfd_iter c' = None \<and> fi_maxfd c' = Some m"
      by (auto simp: scan_body_def Let_def ret_def split: if_splits elim!: bnd_returns)
  next
    fix c s x s'
    assume "fi_dirfd_iter c = None \<and> fi_maxfd c = Some m" "scan_body cfg os m c s = Some (Inr (Break x, s'))"
    then show "?Q x"
      by (auto simp: scan_body_def Let_def ret_def split: if_splits elim!: bnd_returns)
  qed (use assms in simp_all)
  then show ?thesis by simp
qed

lemma next_exhausted:
  assumes "fi_dirfd_iter it = Some d" "di_dirfd d < 0"
  shows "FdIter_next cfg os it w = Some (Inr ((None, it), w))"
proof -
  have "it\<lparr>fi_dirfd_iter := Some d\<rparr> = it" using assms(1) by (cases it) simp
  with assms show ?thesis by (simp add: FdIter_next_def next_dirfd_def DirFdIter_next_def) (simp add: ret_def)
qed

lemma next_past_max:
  assumes "fi_dirfd_iter it = None" "fi_maxfd it = Some m" "m < fi_curfd it"
  shows "FdIter_next cfg os it w = Some (Inr ((None, it), w))"
  using assms by (simp add: FdIter_next_def next_dirfd_def get_maxfd_def) (simp add: loop_m.simps scan_body_def ret_def)

lemma nfds_total:
  "runs (nfds_to_maxfd cfg os nfds) w (\<lambda>r w'. case r of None \<Rightarrow> True | Some m \<Rightarrow> - 1 \<le> m \<and> m \<le> 197)"
proof (cases "0 < nfds \<and> nfds < 100")
  case False
  then show ?thesis by (auto simp: nfds_to_maxfd_def wp)
next
  case True
  have "runs (loop_m (nfds_body cfg os nfds (nfds * 2)) (0, 0)) w (\<lambda>r w'. case r of None \<Rightarrow> True | Some m \<Rightarrow> - 1 \<le> m \<and> m \<le> 197)"
  proof (rule runs_loop_m [where I = "\<lambda>c w'. case c of (fd, n) \<Rightarrow> 0 \<le> fd \<and> 0 \<le> n \<and> n < nfds"
      and \<mu> = "\<lambda>c w'. case c of (fd, n) \<Rightarrow> nat (nfds * 2 - fd)"])
    fix c :: "c_int \<times> c_int" and w' assume "case c of (fd, n) \<Rightarrow> 0 \<le> fd \<and> 0 \<le> n \<and> n < nfds"
    then obtain fd n where "c = (fd, n)" "0 \<le> fd" "0 \<le> n" "n < nfds" by (cases c) simp
    moreover from this True have "in_i32 (n + 1)" by (simp add: in_i32_def)
    ultimately show "runs (nfds_body cfg os nfds (nfds * 2) c) w' (\<lambda>r s'. case r of
        Continue c' \<Rightarrow> (case c' of (fd, n) \<Rightarrow> 0 \<le> fd \<and> 0 \<le> n \<and> n < nfds) \<and>
          (case c' of (fd, n) \<Rightarrow> nat (nfds * 2 - fd)) < (case c of (fd, n) \<Rightarrow> nat (nfds * 2 - fd))
      | Break r \<Rightarrow> (case r of None \<Rightarrow> True | Some m \<Rightarrow> - 1 \<le> m \<and> m \<le> 197))"
      using True by (simp add: nfds_body_def is_fd_valid_def wp add_i32_def)
  qed (use True in simp)
  with True show ?thesis by (simp add: nfds_to_maxfd_def mul_i32_def in_i32_def)
qed

text \<open>The iterator after \<^verbatim>\<open>next\<close> has returned \<open>None\<close>, and what \<^verbatim>\<open>next\<close> returns then.\<close>

definition exhausted :: "FdIter \<Rightarrow> bool" where
  "exhausted it \<longleftrightarrow> (case fi_dirfd_iter it of
     Some d \<Rightarrow> di_dirfd d < 0
   | None \<Rightarrow> (case fi_maxfd it of Some m \<Rightarrow> m < fi_curfd it | None \<Rightarrow> False))"

lemma next_None_exhausted:
  assumes "FdIter_next cfg os it w = Some (Inr ((None, it'), w'))"
  shows "exhausted it'"
proof -
  from assms obtain c w1 where c: "next_dirfd cfg os it w = Some (Inr (c, w1))"
    "(case c of Break r \<Rightarrow> ret r
      | Continue it \<Rightarrow> bnd (get_maxfd cfg os it) (\<lambda>(maxfd, it). loop_m (scan_body cfg os maxfd) it)) w1 =
     Some (Inr ((None, it'), w'))"
    unfolding FdIter_next_def by (rule bnd_returns)
  show ?thesis
  proof (cases c)
    case (Break r)
    with c have "next_dirfd cfg os it w = Some (Inr (Break (None, it'), w1))" by (simp add: ret_def)
    then obtain d d' w3 where "DirFdIter_next cfg os d w = Some (Inr ((Ok None, d'), w3))" "fi_dirfd_iter it' = Some d'"
      by (auto simp: next_dirfd_def ret_def split: option.splits result.splits elim!: bnd_returns)
    with DirFdIter_next_None show ?thesis by (simp add: exhausted_def)
  next
    case (Continue it1)
    from c(1) Continue have none: "fi_dirfd_iter it1 = None"
      by (auto simp: next_dirfd_def ret_def split: option.splits result.splits elim!: bnd_returns)
    from c(2) Continue obtain m it2 w3 where m: "get_maxfd cfg os it1 w1 = Some (Inr ((m, it2), w3))"
      "loop_m (scan_body cfg os m) it2 w3 = Some (Inr ((None, it'), w'))"
      by (auto elim: bnd_returns)
    from m(1) none have "fi_dirfd_iter it2 = None" "fi_maxfd it2 = Some m"
      by (auto simp: get_maxfd_def ret_def split: option.splits elim!: bnd_returns)
    with scan_None [OF m(2)] show ?thesis by (simp add: exhausted_def)
  qed
qed

lemma exhausted_next: "exhausted it \<Longrightarrow> FdIter_next cfg os it w = Some (Inr ((None, it), w))"
  by (auto simp: exhausted_def next_exhausted next_past_max split: option.splits)

lemma exhausted_priv: "exhausted it \<Longrightarrow> priv it = {}"
  by (auto simp: exhausted_def split: option.splits)

lemma next_None_again:
  assumes "FdIter_next cfg os it w = Some (Inr ((None, it'), w'))"
  shows "FdIter_next cfg os it' w2 = Some (Inr ((None, it'), w2))"
  by (rule exhausted_next [OF next_None_exhausted [OF assms]])

section \<open>Properties\<close>

text \<open>
  C8. \<^verbatim>\<open>FdIter\<close> is fused, on any kernel and whatever other threads do to the descriptor table: once \<^verbatim>\<open>next\<close>
  has returned \<open>None\<close>, every later call returns \<open>None\<close>, in any state of the kernel, makes no system
  call and changes nothing.
\<close>

theorem FdIter_fused:
  assumes "FdIter_next cfg os it w = Some (Inr ((None, it'), w'))"
  shows "FdIter_next cfg os it' w2 = Some (Inr ((None, it'), w2))"
  using assms by (rule next_None_again)

theorem FdIter_fused_witness:
  "\<forall>cfg (os :: unit os) w2. FdIter_next cfg os
     \<lparr>fi_dirfd_iter = None, fi_curfd = 3, fi_possible = False, fi_maxfd = Some 2, fi_skip_nfds = False\<rparr> w2 =
     Some (Inr ((None, \<lparr>fi_dirfd_iter = None, fi_curfd = 3, fi_possible = False, fi_maxfd = Some 2, fi_skip_nfds = False\<rparr>), w2))"
  (is "\<forall>cfg os w2. FdIter_next cfg os ?it w2 = _")
proof (intro allI)
  fix cfg w2 and os :: "unit os"
  have "FdIter_next cfg os ?it (init_world ()) = Some (Inr ((None, ?it), init_world ()))"
    by (rule next_past_max [where m = 2]) simp_all
  then show "FdIter_next cfg os ?it w2 = Some (Inr ((None, ?it), w2))" by (rule FdIter_fused)
qed

text \<open>
  C31. \<^verbatim>\<open>nfds_to_maxfd\<close> returns on any kernel and for any count, without overflow, and what it returns
  is \<open>None\<close> or lies between \<open>-1\<close> and \<open>197\<close>.
\<close>

theorem nfds_to_maxfd_total:
  "runs (nfds_to_maxfd cfg os nfds) w (\<lambda>r w'. case r of None \<Rightarrow> True | Some m \<Rightarrow> - 1 \<le> m \<and> m \<le> 197)"
  by (rule nfds_total)

text \<open>
  C30. \<^verbatim>\<open>get_maxfd_direct\<close> returns on any kernel, with a maximum of at least \<open>-1\<close>, as the debug assertion in
  \<^verbatim>\<open>get_maxfd\<close> demands. On a target with neither \<^verbatim>\<open>F_MAXFD\<close> nor a descriptor count the maximum is the
  limit of \<^verbatim>\<open>sysconf()\<close> minus one, clamped to the range from 1023 to 65535.
\<close>

theorem get_maxfd_direct_total:
  "runs (get_maxfd_direct cfg os it) w (\<lambda>m w'. - 1 \<le> m \<and>
     (target cfg \<notin> {Netbsd, Freebsd, Openbsd} \<longrightarrow> m = scan_max (fst (os_sysconf_open_max os (kern w))) \<and> 1023 \<le> m \<and> m \<le> 65535))"
proof -
  have lim: "in_i32 (min (max x 1024) 65536 - 1)" "wrap_i32 (min (max x 1024) 65536) = min (max x 1024) 65536" for x
    by (auto simp: in_i32_def wrap_i32_def min_def max_def)
  have last: "runs (bnd (sys (os_sysconf_open_max os)) (\<lambda>fdlimit.
      sub_i32 (overflow_checks cfg) (wrap_i32 (min (max fdlimit 1024) 65536)) 1)) w1 (\<lambda>m w'. m = scan_max (fst (os_sysconf_open_max os (kern w1))) \<and> 1023 \<le> m \<and> m \<le> 65535)"
    for w1 using lim by (auto simp: wp sub_i32_def scan_max_def)
  have nb: "runs (maxfd_netbsd cfg os) w (\<lambda>r w'. (case r of None \<Rightarrow> True | Some m \<Rightarrow> - 1 \<le> m) \<and> (target cfg \<noteq> Netbsd \<longrightarrow> r = None \<and> w' = w))"
    by (auto simp: maxfd_netbsd_def wp)
  have nf: "runs (maxfd_nfds cfg os b) w1 (\<lambda>r w'. (case r of None \<Rightarrow> True | Some m \<Rightarrow> - 1 \<le> m) \<and> (\<not> cfg_nfds (target cfg) \<longrightarrow> r = None \<and> w' = w1))" for w1 b
  proof (cases "cfg_nfds (target cfg) \<and> \<not> b")
    case True
    have "runs (get_nfds cfg os) w1 (\<lambda>_ _. True)" by (auto simp: get_nfds_def wp split: prod.splits)
    then have "runs (get_nfds cfg os) w1 (\<lambda>x s'. runs (case x of None \<Rightarrow> ret None | Some n \<Rightarrow> nfds_to_maxfd cfg os n) s'
        (\<lambda>r w'. case r of None \<Rightarrow> True | Some m \<Rightarrow> - 1 \<le> m))"
      by (rule runs_conseq) (auto simp: wp intro!: runs_conseq [OF nfds_total] split: option.splits)
    with True show ?thesis by (simp add: maxfd_nfds_def wp)
  qed (auto simp: maxfd_nfds_def wp)
  show ?thesis unfolding get_maxfd_direct_def
  proof (rule runs_bndI [OF nb], goal_cases)
    case (1 r w1)
    show ?case
    proof (cases r)
      case (Some m)
      with 1 show ?thesis by (auto simp: wp)
    next
      case None
      have "runs (bnd (maxfd_nfds cfg os (fi_skip_nfds it)) (\<lambda>r. case r of Some maxfd \<Rightarrow> ret maxfd | None \<Rightarrow>
          bnd (sys (os_sysconf_open_max os)) (\<lambda>fdlimit.
          sub_i32 (overflow_checks cfg) (wrap_i32 (min (max fdlimit 1024) 65536)) 1))) w1 (\<lambda>m w'. - 1 \<le> m \<and>
        (\<not> cfg_nfds (target cfg) \<longrightarrow> m = scan_max (fst (os_sysconf_open_max os (kern w1))) \<and> 1023 \<le> m \<and> m \<le> 65535))"
      proof (rule runs_bndI [OF nf], goal_cases)
        case (1 r w2)
        show ?case
        proof (cases r)
          case None
          with 1 show ?thesis by (simp only: option.case) (rule runs_conseq [OF last], auto)
        qed (use 1 in \<open>simp add: wp\<close>)
      qed
      with None 1 show ?thesis by (auto simp: cfg_nfds_def intro: runs_conseq)
    qed
  qed
qed

end
