(* ===== verification/Fd_Source.thy ===== *)
theory Fd_Source
  imports Fd_Iter
begin

text \<open>
  The interface between the iterator over descriptors and the code that consumes it, as locales.

  \<^item> \<open>fd_source\<close> is the contract of an iterator: \<open>nxt\<close> delivers, in ascending order, every descriptor of
    the program's table \<open>tab\<close> from the cursor \<open>cur\<close> on, \<open>own\<close> are the descriptors the iterator holds for
    itself, and \<open>drp\<close> gives them back, so that the world is \<open>released\<close>.
  \<^item> \<open>fd_visitor\<close> adds an action on one descriptor that has the effect \<open>eff\<close> on the table and does not
    disturb the iterator; \<open>fd_sweeper\<close> adds the routine that finishes the job once no more descriptor
    has to be kept.
  \<^item> \<open>range_op\<close> is the contract of the callbacks of \<^verbatim>\<open>apply_range\<close>.

  The loops of the clients are proved once, inside the locales: draining an iterator
  (\<^verbatim>\<open>Iterator::collect\<close>, \<^verbatim>\<open>Iterator::last\<close>), \<^verbatim>\<open>for fd in fditer\<close> and the loop over all descriptors with a
  list of exceptions. The interpretations on \<^verbatim>\<open>FdIter\<close> are in this theory for \<open>fd_source\<close>, and with
  the two clients for the others.
\<close>

section \<open>Loops over an iterator\<close>

text \<open>\<^verbatim>\<open>for fd in fditer { act(fd) }\<close>: the iterator is dropped when it is exhausted.\<close>

definition for_each :: "('it \<Rightarrow> ('w, int option \<times> 'it) prog) \<Rightarrow> ('it \<Rightarrow> ('w, unit) prog) \<Rightarrow>
  (int \<Rightarrow> ('w, unit) prog) \<Rightarrow> 'it \<Rightarrow> ('w, unit) prog" where
  "for_each nxt drp act it = loop_m (\<lambda>it. bnd (nxt it) (\<lambda>(r, it). case r of
     Some fd \<Rightarrow> bnd (act fd) (\<lambda>_. ret (Continue it))
   | None \<Rightarrow> bnd (drp it) (\<lambda>_. ret (Break ())))) it"

text \<open>\<^verbatim>\<open>Iterator::collect\<close> into a vector and \<^verbatim>\<open>Iterator::last\<close>.\<close>

definition collect :: "('it \<Rightarrow> ('w, int option \<times> 'it) prog) \<Rightarrow> ('it \<Rightarrow> ('w, unit) prog) \<Rightarrow>
  'it \<Rightarrow> ('w, int list) prog" where
  "collect nxt drp it = loop_m (\<lambda>(acc, it). bnd (nxt it) (\<lambda>(r, it). case r of
     Some fd \<Rightarrow> ret (Continue (acc @ [fd], it))
   | None \<Rightarrow> bnd (drp it) (\<lambda>_. ret (Break acc)))) ([], it)"

definition iter_last :: "('it \<Rightarrow> ('w, int option \<times> 'it) prog) \<Rightarrow> ('it \<Rightarrow> ('w, unit) prog) \<Rightarrow>
  'it \<Rightarrow> ('w, int option) prog" where
  "iter_last nxt drp it = loop_m (\<lambda>(last, it). bnd (nxt it) (\<lambda>(r, it). case r of
     Some fd \<Rightarrow> ret (Continue (Some fd, it))
   | None \<Rightarrow> bnd (drp it) (\<lambda>_. ret (Break last)))) (None, it)"

text \<open>The loop that \<^verbatim>\<open>close_fds\<close> and \<^verbatim>\<open>set_fds_cloexec\<close> have in common, over the rest of the list of
  descriptors to keep and the iterator.\<close>

definition sweep_body :: "('it \<Rightarrow> ('w, int option \<times> 'it) prog) \<Rightarrow> ('it \<Rightarrow> ('w, unit) prog) \<Rightarrow>
  (int \<Rightarrow> ('w, unit) prog) \<Rightarrow> (int \<Rightarrow> 'it \<Rightarrow> ('w, unit) prog) \<Rightarrow> int \<Rightarrow> bool \<Rightarrow>
  int list \<times> 'it \<Rightarrow> ('w, (int list \<times> 'it, unit) ctl) prog" where
  "sweep_body nxt drp act rest max_keep_fd fds_sorted = (\<lambda>(keep_fds, it).
     bnd (nxt it) (\<lambda>(r, it). case r of
       None \<Rightarrow> bnd (drp it) (\<lambda>_. ret (Break ()))
     | Some fd \<Rightarrow>
         if fd > max_keep_fd then bnd (rest fd it) (\<lambda>_. ret (Break ()))
         else (case check_should_keep keep_fds fd fds_sorted of (should_keep, keep_fds) \<Rightarrow>
           if \<not> should_keep then bnd (act fd) (\<lambda>_. ret (Continue (keep_fds, it)))
           else ret (Continue (keep_fds, it)))))"

section \<open>Iterators\<close>

text \<open>The descriptors of a table from \<open>a\<close> on, in ascending order; that there is none from \<open>c\<close> on; and that
  none comes between \<open>c\<close> and \<open>fd\<close>.\<close>

definition open_from :: "fd_table \<Rightarrow> int \<Rightarrow> int list" where
  "open_from T a = sorted_list_of_set {fd. T fd \<noteq> None \<and> a \<le> fd}"

definition none_from :: "fd_table \<Rightarrow> int \<Rightarrow> bool" where
  "none_from T c \<longleftrightarrow> (\<forall>fd. T fd \<noteq> None \<longrightarrow> fd < c)"

definition least_from :: "fd_table \<Rightarrow> int \<Rightarrow> int \<Rightarrow> bool" where
  "least_from T c fd \<longleftrightarrow> c \<le> fd \<and> (\<forall>x. T x \<noteq> None \<and> c \<le> x \<longrightarrow> fd \<le> x)"

text \<open>The specification of an iterator: a list of descriptors from which \<^verbatim>\<open>next\<close> takes the first.\<close>

fun spec_next :: "int list \<Rightarrow> int option \<times> int list" where
  "spec_next [] = (None, [])"
| "spec_next (fd # fds) = (Some fd, fds)"

text \<open>What an iterator that started at \<open>a\<close> and has come to \<open>c\<close> has delivered.\<close>

definition drained :: "fd_table \<Rightarrow> int \<Rightarrow> int \<Rightarrow> int list \<Rightarrow> bool" where
  "drained T a c l \<longleftrightarrow> a \<le> c \<and> sorted_wrt (<) l \<and> set l \<subseteq> {a..<c} \<and> {x \<in> dom T. a \<le> x \<and> x < c} \<subseteq> set l"

lemma open_from_Nil: "none_from T c \<Longrightarrow> c \<le> c' \<Longrightarrow> open_from T c' = []"
proof -
  assume "none_from T c" "c \<le> c'"
  then have "{fd. T fd \<noteq> None \<and> c' \<le> fd} = {}" unfolding none_from_def by fastforce
  then show ?thesis unfolding open_from_def by (simp only: sorted_list_of_set_empty)
qed

lemma open_from_Cons:
  assumes "finite (dom T)" "least_from T c fd" "fd \<in> dom T"
  shows "open_from T c = fd # open_from T (fd + 1)"
proof -
  let ?A = "{fd. T fd \<noteq> None \<and> c \<le> fd}"
  have fin: "finite ?A" by (rule finite_subset [OF _ assms(1)]) auto
  have "fd \<in> ?A" "\<forall>x\<in>?A. fd \<le> x" using assms(2,3) by (auto simp: least_from_def)
  then have "Min ?A = fd" "?A \<noteq> {}" using fin by (auto intro: Min_eqI)
  moreover from this have "?A - {fd} = {x. T x \<noteq> None \<and> fd + 1 \<le> x}"
    using assms(2) by (auto simp: least_from_def order_le_less)
  ultimately have "sorted_list_of_set ?A = fd # sorted_list_of_set {x. T x \<noteq> None \<and> fd + 1 \<le> x}"
    using sorted_list_of_set_nonempty [OF fin] by metis
  then show ?thesis unfolding open_from_def .
qed

lemma drained_Nil: "drained T a a []"
  by (simp add: drained_def)

lemma drained_snoc:
  assumes "drained T a c l" "least_from T c fd"
  shows "drained T a (fd + 1) (l @ [fd])"
proof -
  have "x \<in> set l \<union> {fd}" if "x \<in> dom T" "a \<le> x" "x < fd + 1" for x
  proof (cases "x < c")
    case True
    with that assms(1) show ?thesis by (auto simp: drained_def)
  next
    case False
    then have "fd \<le> x" using that assms(2) by (simp add: least_from_def domIff)
    with that show ?thesis by simp
  qed
  then have "{x \<in> dom T. a \<le> x \<and> x < fd + 1} \<subseteq> set (l @ [fd])" by auto
  moreover have l: "\<forall>x\<in>set l. a \<le> x \<and> x < fd" "a \<le> fd" "sorted_wrt (<) l"
    using assms unfolding drained_def least_from_def by fastforce+
  from l have "set (l @ [fd]) \<subseteq> {a..<fd + 1}" "sorted_wrt (<) (l @ [fd])" "a \<le> fd + 1"
    by (auto simp: sorted_wrt_append)
  ultimately show ?thesis by (simp add: drained_def)
qed

lemma drained_end:
  assumes "drained T a c l" "none_from T c"
  shows "sorted_wrt (<) l" "set l \<subseteq> {a..}" "set (open_from T a) \<subseteq> set l"
    "set l \<subseteq> dom T \<Longrightarrow> l = open_from T a"
proof -
  have c: "x < c" if "x \<in> dom T" for x using that assms(2) by (simp add: none_from_def domIff)
  have s: "{fd. T fd \<noteq> None \<and> a \<le> fd} \<subseteq> set l" using assms(1) c by (auto simp: drained_def)
  show l: "sorted_wrt (<) l" "set l \<subseteq> {a..}" using assms(1) by (auto simp: drained_def)
  from s show "set (open_from T a) \<subseteq> set l" by (simp add: open_from_def finite_subset)
  assume "set l \<subseteq> dom T"
  with l s have "set l = {fd. T fd \<noteq> None \<and> a \<le> fd}" by (auto simp: dom_def)
  with l(1) show "l = open_from T a"
    by (metis open_from_def sorted_list_of_set.idem_if_sorted_distinct strict_sorted_iff)
qed

locale fd_source =
  fixes nxt :: "'it \<Rightarrow> ('w, int option \<times> 'it) prog"
    and drp :: "'it \<Rightarrow> ('w, unit) prog"
    and inv :: "int set \<Rightarrow> 'it \<Rightarrow> 'w \<Rightarrow> bool"
    and tab :: "'it \<Rightarrow> 'w \<Rightarrow> fd_table"
    and raw :: "'w \<Rightarrow> fd_table"
    and cur :: "'it \<Rightarrow> int"
    and own :: "'it \<Rightarrow> int set"
    and poss :: "'it \<Rightarrow> bool"
    and frame :: "'w \<Rightarrow> 'w \<Rightarrow> bool"
    and released :: "'w \<Rightarrow> bool"
  assumes nxt_law: "inv Q it w \<Longrightarrow> runs (nxt it) w (\<lambda>(r, it') w'.
      frame w w' \<and> inv Q it' w' \<and> tab it' w' = tab it w \<and> poss it' = poss it \<and> (case r of
        None \<Rightarrow> none_from (tab it w) (cur it) \<and> cur it \<le> cur it'
      | Some fd \<Rightarrow> least_from (tab it w) (cur it) fd \<and> cur it' = fd + 1 \<and> fd \<notin> own it' \<and>
          (\<not> poss it \<longrightarrow> fd \<in> Q)))"
    and cur_bounds: "inv Q it w \<Longrightarrow> 0 \<le> cur it \<and> cur it \<le> i32_MAX"
    and tab_finite: "inv Q it w \<Longrightarrow> finite (dom (tab it w))"
    and drp_law: "inv Q it w \<Longrightarrow> runs (drp it) w (\<lambda>_ w'. frame w w' \<and> released w' \<and> raw w' = tab it w)"
    and inv_weaken: "inv Q it w \<Longrightarrow> inv UNIV it w"
    and frame_refl: "frame w w"
    and frame_trans: "frame w w' \<Longrightarrow> frame w' w'' \<Longrightarrow> frame w w''"
begin

lemma nxt_cases:
  assumes "inv Q it w"
    and "\<And>it' w'. frame w w' \<Longrightarrow> inv Q it' w' \<Longrightarrow> tab it' w' = tab it w \<Longrightarrow>
      none_from (tab it w) (cur it) \<Longrightarrow> runs (f (None, it')) w' R"
    and "\<And>fd it' w'. frame w w' \<Longrightarrow> inv Q it' w' \<Longrightarrow> tab it' w' = tab it w \<Longrightarrow> poss it' = poss it \<Longrightarrow>
      least_from (tab it w) (cur it) fd \<Longrightarrow> cur it' = fd + 1 \<Longrightarrow> fd \<notin> own it' \<Longrightarrow>
      \<not> poss it \<longrightarrow> fd \<in> Q \<Longrightarrow> nat (i32_MAX - cur it') < nat (i32_MAX - cur it) \<Longrightarrow>
      runs (f (Some fd, it')) w' R"
  shows "runs (bnd (nxt it) f) w R"
proof (rule runs_bndI [OF nxt_law [OF assms(1)]], goal_cases)
  case (1 x w')
  obtain r it' where x: "x = (r, it')" by fastforce
  show ?case
  proof (cases r)
    case None
    with 1 x assms(2) show ?thesis by simp
  next
    case (Some fd)
    with 1 x have p: "inv Q it' w'" "cur it \<le> fd" "cur it' = fd + 1" by (simp_all add: least_from_def)
    with cur_bounds [OF p(1)] have "nat (i32_MAX - cur it') < nat (i32_MAX - cur it)" by simp
    with 1 x Some assms(3) show ?thesis by simp
  qed
qed

text \<open>An exact iterator refines its specification.\<close>

lemma nxt_refines:
  assumes "inv (dom (tab it w)) it w" "\<not> poss it"
  shows "runs (nxt it) w (\<lambda>(r, it') w'. frame w w' \<and> inv (dom (tab it' w')) it' w' \<and> \<not> poss it' \<and> tab it' w' = tab it w \<and>
    (r, open_from (tab it' w') (cur it')) = spec_next (open_from (tab it w) (cur it)))"
proof (rule runs_conseq [OF nxt_law [OF assms(1)]], goal_cases)
  case (1 x w')
  have "(None, open_from (tab it w) c') = spec_next (open_from (tab it w) (cur it))"
    if "none_from (tab it w) (cur it)" "cur it \<le> c'" for c'
    using open_from_Nil [OF that] open_from_Nil [OF that(1) order_refl] by simp
  moreover have "(Some fd, open_from (tab it w) (fd + 1)) = spec_next (open_from (tab it w) (cur it))"
    if "least_from (tab it w) (cur it) fd" "fd \<in> dom (tab it w)" for fd
    using open_from_Cons [OF tab_finite [OF assms(1)] that] by simp
  ultimately show ?case using 1 assms(2) by (auto split: option.splits)
qed

lemma drain_runs:
  assumes "inv Q it w"
    and fin: "\<And>l c w'. frame w w' \<Longrightarrow> released w' \<Longrightarrow> raw w' = tab it w \<Longrightarrow> drained (tab it w) (cur it) c l \<Longrightarrow>
      none_from (tab it w) c \<Longrightarrow> \<not> poss it \<longrightarrow> set l \<subseteq> Q \<Longrightarrow> c \<le> i32_MAX \<Longrightarrow> R (out l) w'"
    and upd_out: "\<And>l fd. snoc (out l) fd = out (l @ [fd])"
  shows "runs (loop_m (\<lambda>(acc, it). bnd (nxt it) (\<lambda>(r, it). case r of
     Some fd \<Rightarrow> ret (Continue (snoc acc fd, it))
   | None \<Rightarrow> bnd (drp it) (\<lambda>_. ret (Break acc)))) (out [], it)) w R"
proof (rule runs_loop_m [where \<mu> = "\<lambda>c w'. nat (i32_MAX - cur (snd c))" and
    I = "\<lambda>(o', it') w'. \<exists>l. o' = out l \<and> frame w w' \<and> inv Q it' w' \<and> tab it' w' = tab it w \<and> poss it' = poss it \<and>
      drained (tab it w) (cur it) (cur it') l \<and> (\<not> poss it \<longrightarrow> set l \<subseteq> Q)"], goal_cases)
  case (1 c w1)
  obtain o1 it1 where c: "c = (o1, it1)" by fastforce
  with 1 obtain l where I: "o1 = out l" "frame w w1" "inv Q it1 w1" "tab it1 w1 = tab it w" "poss it1 = poss it"
      "drained (tab it w) (cur it) (cur it1) l" "\<not> poss it \<longrightarrow> set l \<subseteq> Q" by auto
  show ?case unfolding c prod.case
  proof (rule nxt_cases [OF I(3)], goal_cases)
    case (1 it2 w2)
    have "runs (drp it2) w2 (\<lambda>_ w'. R (out l) w')"
    proof (rule runs_conseq [OF drp_law [OF 1(2)]])
      fix u w' assume "frame w2 w' \<and> released w' \<and> raw w' = tab it2 w2"
      then have "frame w w'" "released w'" "raw w' = tab it w" using 1(1,3) I(2,4) by (auto intro: frame_trans)
      then show "R (out l) w'" by (rule fin [OF _ _ _ I(6) _ I(7)]) (use 1(4) I(4) cur_bounds [OF I(3)] in simp_all)
    qed
    then show ?case by (simp add: wp I(1))
  next
    case (2 fd it2 w2)
    have "frame w w2" using 2(1) I(2) frame_trans by blast
    moreover have "drained (tab it w) (cur it) (cur it2) (l @ [fd])"
      using drained_snoc [OF I(6)] 2(5,6) I(4) by simp
    moreover have "\<not> poss it \<longrightarrow> set (l @ [fd]) \<subseteq> Q" using I(4,5,7) 2(8) by simp
    ultimately show ?case using I(1,4,5) 2(2,3,4,9)
      by (auto simp: wp upd_out simp del: set_append intro!: exI [of _ "l @ [fd]"])
  qed
next
  case 2
  then show ?case using assms(1) by (auto simp: frame_refl drained_Nil)
qed

lemma collect_runs:
  assumes "inv Q it w"
  shows "runs (collect nxt drp it) w (\<lambda>l w'. frame w w' \<and> released w' \<and> raw w' = tab it w \<and>
    sorted_wrt (<) l \<and> set l \<subseteq> {cur it..<i32_MAX} \<and> set (open_from (tab it w) (cur it)) \<subseteq> set l \<and>
    (\<not> poss it \<longrightarrow> set l \<subseteq> Q) \<and> (Q = dom (tab it w) \<and> \<not> poss it \<longrightarrow> l = open_from (tab it w) (cur it)))"
  unfolding collect_def
proof (rule drain_runs [OF assms, where out = "\<lambda>l. l" and snoc = "\<lambda>l x. l @ [x]"], goal_cases)
  case (1 l c w')
  then have "set l \<subseteq> {cur it..<i32_MAX}" by (auto simp: drained_def)
  with 1 drained_end [OF 1(4,5)] show ?case by blast
qed simp

lemma iter_last_runs:
  assumes "inv (dom (tab it w)) it w" "\<not> poss it"
  shows "runs (iter_last nxt drp it) w (\<lambda>r w'. frame w w' \<and> released w' \<and> raw w' = tab it w \<and>
    r = (if open_from (tab it w) (cur it) = [] then None else Some (last (open_from (tab it w) (cur it)))))"
  unfolding iter_last_def
proof (rule drain_runs [OF assms(1), where out = "\<lambda>l. if l = [] then None else Some (last l)"
      and snoc = "\<lambda>l x. Some x", simplified], goal_cases)
  case (1 l c w')
  with drained_end(4) [OF 1(4,5)] assms(2) show ?case by simp
qed

end

section \<open>Actions on every descriptor\<close>

locale fd_visitor = fd_source +
  fixes act :: "int \<Rightarrow> ('b, unit) prog"
    and eff :: "int option \<Rightarrow> int option"
  assumes eff_None: "eff None = None"
    and eff_idem: "eff (eff x) = eff x"
    and act_law: "inv UNIV it w \<Longrightarrow> fd \<notin> own it \<Longrightarrow> 0 \<le> fd \<Longrightarrow> runs (act fd) w (\<lambda>_ w'.
      frame w w' \<and> inv UNIV it w' \<and> tab it w' = upd eff {fd} (tab it w))"
begin

lemma upd_next:
  assumes "least_from (upd eff ({a..<c} - K) T) c fd" "fd \<notin> K" "a \<le> c"
  shows "upd eff {fd} (upd eff ({a..<c} - K) T) = upd eff ({a..<fd + 1} - K) T"
proof -
  have "c \<le> fd" using assms(1) by (simp add: least_from_def)
  then have "\<And>x. T x \<noteq> None \<Longrightarrow> c \<le> x \<Longrightarrow> fd \<le> x" using assms(1) by (simp add: least_from_def upd_apply)
  with \<open>c \<le> fd\<close> assms(2,3) show ?thesis
    unfolding upd_upd [OF eff_idem] by (intro upd_cong_dom [of eff, OF eff_None]) fastforce
qed

lemma upd_tail:
  assumes "least_from (upd eff ({a..<c} - K) T) c fd" "T x \<noteq> None" "c \<le> x"
  shows "fd \<le> x"
  using assms by (simp add: least_from_def upd_apply)

lemma upd_skip:
  assumes "least_from (upd eff ({a..<c} - K) T) c fd" "fd \<in> K" "a \<le> c"
  shows "upd eff ({a..<c} - K) T = upd eff ({a..<fd + 1} - K) T"
proof -
  have "c \<le> fd" using assms(1) by (simp add: least_from_def)
  then have "\<And>x. T x \<noteq> None \<Longrightarrow> c \<le> x \<Longrightarrow> fd \<le> x" using assms(1) by (simp add: least_from_def upd_apply)
  with \<open>c \<le> fd\<close> assms(2,3) show ?thesis
    by (intro upd_cong_dom [of eff, OF eff_None]) fastforce
qed

lemma upd_done:
  assumes "none_from (upd eff ({a..<c} - K) T) c"
  shows "upd eff ({a..<c} - K) T = upd eff ({a..} - K) T"
proof -
  have "x < c" if "T x \<noteq> None" for x
    using assms that by (metis DiffD1 atLeastLessThan_iff none_from_def upd_apply)
  then show ?thesis by (intro upd_cong_dom [of eff, OF eff_None]) auto
qed

text \<open>\<^verbatim>\<open>for fd in fditer { act(fd) }\<close> acts on every descriptor from the cursor on.\<close>

lemma for_each_runs:
  assumes "inv UNIV it w"
  shows "runs (for_each nxt drp act it) w (\<lambda>_ w'. frame w w' \<and> released w' \<and> raw w' = upd eff {cur it..} (tab it w))"
  unfolding for_each_def
proof (rule runs_loop_m [where \<mu> = "\<lambda>it w'. nat (i32_MAX - cur it)" and
    I = "\<lambda>it' w'. frame w w' \<and> inv UNIV it' w' \<and> cur it \<le> cur it' \<and>
      tab it' w' = upd eff ({cur it..<cur it'} - {}) (tab it w)"], goal_cases)
  case (1 it1 w1)
  then have I: "frame w w1" "inv UNIV it1 w1" "cur it \<le> cur it1"
    "tab it1 w1 = upd eff ({cur it..<cur it1} - {}) (tab it w)" by simp_all
  show ?case
  proof (rule nxt_cases [OF I(2)], goal_cases)
    case (1 it2 w2)
    have "raw w' = upd eff {cur it..} (tab it w)" if "raw w' = tab it2 w2" for w'
      using that 1(3,4) I(4) upd_done [of "cur it" "cur it1" "{}"] by simp
    with 1(1) I(1) show ?case
      by (auto simp: wp intro!: runs_conseq [OF drp_law [OF 1(2)]] intro: frame_trans)
  next
    case (2 fd it2 w2)
    have "0 \<le> fd" using 2(5) cur_bounds [OF I(2)] by (simp add: least_from_def)
    have t: "upd eff {fd} (tab it2 w2) = upd eff ({cur it..<cur it2} - {}) (tab it w)"
      using upd_next [of "cur it" "cur it1" "{}" "tab it w" fd] 2(3,5,6) I(3,4) by simp
    have "cur it \<le> cur it2" using 2(5,6) I(3) by (simp add: least_from_def)
    with t 2(1,9) I(1) show ?case
      by (auto simp: wp intro!: runs_conseq [OF act_law [OF 2(2,7) \<open>0 \<le> fd\<close>]] intro: frame_trans)
  qed
next
  case 2
  then show ?case using assms by (simp add: frame_refl)
qed

end

locale fd_sweeper = fd_visitor +
  fixes rest :: "int \<Rightarrow> 'a \<Rightarrow> ('b, unit) prog"
  assumes rest_law: "inv UNIV it w \<Longrightarrow> fd \<notin> own it \<Longrightarrow> 0 \<le> fd \<Longrightarrow> cur it = fd + 1 \<Longrightarrow>
    runs (rest fd it) w (\<lambda>_ w'. frame w w' \<and> released w' \<and> raw w' = upd eff {fd..} (tab it w))"
begin

text \<open>The loop with exceptions acts on every descriptor from the cursor on that is not in the list.\<close>

lemma sweep_runs:
  assumes "inv UNIV it w" "srt \<longrightarrow> sorted keep" "\<forall>k\<in>set keep. k \<le> mx"
  shows "runs (loop_m (sweep_body nxt drp act rest mx srt) (keep, it)) w (\<lambda>_ w'.
    frame w w' \<and> released w' \<and> raw w' = upd eff ({cur it..} - set keep) (tab it w))"
proof (rule runs_loop_m [where \<mu> = "\<lambda>(ks, it) w'. nat (i32_MAX - cur it)" and
    I = "\<lambda>(ks, it') w'. frame w w' \<and> inv UNIV it' w' \<and> cur it \<le> cur it' \<and> (srt \<longrightarrow> sorted ks) \<and>
      (\<forall>x \<ge> cur it'. x \<in> set ks \<longleftrightarrow> x \<in> set keep) \<and>
      tab it' w' = upd eff ({cur it..<cur it'} - set keep) (tab it w)"], goal_cases)
  case (1 c w1)
  obtain ks it1 where c: "c = (ks, it1)" by fastforce
  with 1 have I: "frame w w1" "inv UNIV it1 w1" "cur it \<le> cur it1" "srt \<longrightarrow> sorted ks"
    "\<forall>x \<ge> cur it1. x \<in> set ks \<longleftrightarrow> x \<in> set keep"
    "tab it1 w1 = upd eff ({cur it..<cur it1} - set keep) (tab it w)" by simp_all
  show ?case unfolding c sweep_body_def prod.case
  proof (rule nxt_cases [OF I(2)], goal_cases)
    case (1 it2 w2)
    have "raw w' = upd eff ({cur it..} - set keep) (tab it w)" if "raw w' = tab it2 w2" for w'
      using that 1(3,4) I(6) upd_done [of "cur it" "cur it1" "set keep"] by simp
    with 1(1) I(1) show ?case
      by (auto simp: wp intro!: runs_conseq [OF drp_law [OF 1(2)]] intro: frame_trans)
  next
    case (2 fd it2 w2)
    have fd: "0 \<le> fd" "cur it1 \<le> fd" "cur it \<le> cur it2"
      using 2(5,6) I(3) cur_bounds [OF I(2)] by (simp_all add: least_from_def)
    have least: "least_from (upd eff ({cur it..<cur it1} - set keep) (tab it w)) (cur it1) fd"
      and t: "tab it2 w2 = upd eff ({cur it..<cur it1} - set keep) (tab it w)" using 2(3,5) I(6) by simp_all
    show ?case
    proof (cases "fd > mx")
      case True
      then have "\<forall>k\<in>set keep. k < fd" using assms(3) by auto
      then have "upd eff {fd..} (tab it2 w2) = upd eff ({cur it..} - set keep) (tab it w)"
        unfolding t upd_upd [OF eff_idem] using fd I(3) upd_tail [OF least]
        by (intro upd_cong_dom [of eff, OF eff_None]) fastforce
      with True 2(1) I(1) show ?thesis
        by (auto simp: wp intro!: runs_conseq [OF rest_law [OF 2(2,7) fd(1) 2(6)]] intro: frame_trans)
    next
      case False
      obtain ks' where ks': "check_should_keep ks fd srt = (fd \<in> set ks, ks')" "srt \<longrightarrow> sorted ks'"
        "\<forall>x \<ge> fd. x \<in> set ks' \<longleftrightarrow> x \<in> set ks" using check_should_keep_spec [OF I(4)] by metis
      have mem: "fd \<in> set ks \<longleftrightarrow> fd \<in> set keep" "\<forall>x \<ge> cur it2. x \<in> set ks' \<longleftrightarrow> x \<in> set keep"
        using ks'(3) I(5) fd 2(6) by auto
      have t2: "tab it2 w2 = upd eff ({cur it..<cur it2} - set keep) (tab it w)" if "fd \<in> set keep"
        using upd_skip [OF least that I(3)] t 2(6) by simp
      have t3: "upd eff {fd} (tab it2 w2) = upd eff ({cur it..<cur it2} - set keep) (tab it w)" if "fd \<notin> set keep"
        using upd_next [OF least that I(3)] t 2(6) by simp
      note run = act_law [OF 2(2,7) fd(1)]
      have "frame w w2" using 2(1) I(1) frame_trans by blast
      with False ks' mem t2 t3 fd(3) 2(2,9) show ?thesis
        by (auto simp: wp intro!: runs_conseq [OF run] intro: frame_trans)
    qed
  qed
next
  case 2
  then show ?case using assms by (simp add: frame_refl)
qed

end

section \<open>Actions on ranges\<close>

locale range_op =
  fixes func :: "int \<Rightarrow> int \<Rightarrow> ('w, (unit, unit) result) prog"
    and raw :: "'w \<Rightarrow> fd_table"
    and eff :: "int option \<Rightarrow> int option"
    and ok :: "'w \<Rightarrow> bool"
    and frame :: "'w \<Rightarrow> 'w \<Rightarrow> bool"
    and release_build :: bool
  assumes eff_idem: "eff (eff x) = eff x"
    and func_inverted: "release_build \<Longrightarrow> ok w \<Longrightarrow> runs (func i32_MIN i32_MAX) w (\<lambda>r w'. frame w w' \<and> r = Err () \<and> raw w' = raw w)"
    and func_law: "ok w \<Longrightarrow> 0 \<le> lo \<Longrightarrow> lo \<le> hi \<Longrightarrow> hi \<le> i32_MAX \<Longrightarrow> runs (func lo hi) w (\<lambda>r w'.
      frame w w' \<and> (case r of Ok _ \<Rightarrow> ok w' \<and> raw w' = upd eff {lo..hi} (raw w) | Err _ \<Rightarrow> raw w' = raw w))"
    and frame_refl: "frame w w"
    and frame_trans: "frame w w' \<Longrightarrow> frame w' w'' \<Longrightarrow> frame w w''"
begin

lemma ranges_runs:
  assumes "ok w" "\<forall>(l, h)\<in>set rs. 0 \<le> l \<and> l \<le> h \<and> h \<le> i32_MAX"
  shows "runs (try_for (\<lambda>(l, h). func l h) rs) w (\<lambda>r w'. frame w w' \<and>
    (\<exists>S. S \<subseteq> (\<Union>(l, h)\<in>set rs. {l..h}) \<and> raw w' = upd eff S (raw w) \<and>
       (r = Ok () \<longrightarrow> ok w' \<and> S = (\<Union>(l, h)\<in>set rs. {l..h}))))"
  using assms
proof (induction rs arbitrary: w)
  case Nil
  then show ?case by (simp add: wp frame_refl)
next
  case (Cons p rs)
  obtain l h where p: "p = (l, h)" by fastforce
  show ?case unfolding p try_for.simps prod.case
  proof (rule runs_bndI [OF func_law], goal_cases)
    case (5 r w1)
    show ?case
    proof (cases r)
      case (Err e)
      with 5 show ?thesis by (auto simp: wp intro!: exI [of _ "{}"])
    next
      case (Ok u)
      with 5 have w1: "frame w w1" "ok w1" "raw w1 = upd eff {l..h} (raw w)" by simp_all
      have "runs (try_for (\<lambda>(l, h). func l h) rs) w1 (\<lambda>r w'. frame w w' \<and>
        (\<exists>S. S \<subseteq> (\<Union>(l, h)\<in>set (p # rs). {l..h}) \<and> raw w' = upd eff S (raw w) \<and>
           (r = Ok () \<longrightarrow> ok w' \<and> S = (\<Union>(l, h)\<in>set (p # rs). {l..h}))))"
      proof (rule runs_conseq [OF Cons.IH [OF w1(2)]], goal_cases)
        case 1 with Cons.prems show ?case by simp
      next
        case (2 x w2)
        then obtain S where S: "S \<subseteq> (\<Union>(l, h)\<in>set rs. {l..h})" "raw w2 = upd eff S (raw w1)"
          "x = Ok () \<longrightarrow> ok w2 \<and> S = (\<Union>(l, h)\<in>set rs. {l..h})" "frame w1 w2" by blast
        then have "raw w2 = upd eff (S \<union> {l..h}) (raw w)" using w1(3) upd_upd [OF eff_idem] by simp
        with S w1(1) p show ?case by (auto intro: frame_trans intro!: exI [of _ "S \<union> {l..h}"])
      qed
      with Ok p show ?thesis by simp
    qed
  qed (use Cons.prems p in auto)
qed

text \<open>\<^verbatim>\<open>apply_range\<close> acts on every number from \<open>minfd\<close> on that is not in the list, or fails having acted on
  some of them only.\<close>

lemma apply_range_runs:
  assumes "ok w" "sorted keep" "\<forall>k\<in>set keep. in_i32 k \<and> (k = i32_MAX \<longrightarrow> \<not> overflow_checks cfg \<and> release_build)"
    "0 \<le> minfd" "minfd \<le> i32_MAX"
  shows "runs (apply_range cfg minfd keep func) w (\<lambda>r w'. frame w w' \<and>
    (\<exists>S. S \<subseteq> {minfd..i32_MAX} - set keep \<and> raw w' = upd eff S (raw w) \<and>
       (r = Ok () \<longrightarrow> S = {minfd..i32_MAX} - set keep)))"
proof -
  have keep: "\<forall>k\<in>set keep. k \<le> i32_MAX" "\<forall>k\<in>set keep. in_i32 k" using assms(3) by (auto simp: in_i32_def)
  note bounds = gaps_bounds [OF assms(2) keep(1) assms(5)] and cover = gaps_cover [OF assms(2) keep(1) assms(5)]
  show ?thesis
  proof (cases "i32_MAX \<in> set keep")
    case False
    with keep have lt: "\<forall>k\<in>set keep. in_i32 k \<and> k < i32_MAX" by (metis order_le_less)
    then have "0 \<le> l \<and> l \<le> h \<and> h \<le> i32_MAX" if "(l, h) \<in> set (gaps minfd keep)" for l h
      using bounds [OF that] assms(4) by simp
    then have "\<forall>(l, h)\<in>set (gaps minfd keep). 0 \<le> l \<and> l \<le> h \<and> h \<le> i32_MAX" by blast
    from ranges_runs [OF assms(1) this] show ?thesis unfolding apply_range_eq [OF assms(2) lt assms(4)] cover
      by (rule runs_conseq) blast
  next
    case True
    with assms(3) have cfg: "\<not> overflow_checks cfg" release_build by blast+
    have "0 \<le> l \<and> l \<le> h \<and> h \<le> i32_MAX" if "(l, h) \<in> set (butlast (gaps minfd keep))" for l h
      using bounds [OF in_set_butlastD [OF that]] that assms(4) by simp
    then have "\<forall>(l, h)\<in>set (butlast (gaps minfd keep)). 0 \<le> l \<and> l \<le> h \<and> h \<le> i32_MAX" by blast
    note run = ranges_runs [OF assms(1) this]
    have sub: "(\<Union>(l, h)\<in>set (butlast (gaps minfd keep)). {l..h}) \<subseteq> {minfd..i32_MAX} - set keep"
      unfolding cover [symmetric] by (intro UN_mono subsetI) (auto dest: in_set_butlastD)
    show ?thesis unfolding apply_range_wraps [OF assms(2) keep(2) assms(4,5) True cfg(1)] try_for_append try_for_single prod.case
    proof (rule runs_bndI [OF run], goal_cases)
      case (1 r w1)
      then obtain S where S: "frame w w1" "S \<subseteq> (\<Union>(l, h)\<in>set (butlast (gaps minfd keep)). {l..h})" "raw w1 = upd eff S (raw w)"
        "r = Ok () \<longrightarrow> ok w1" by (elim conjE exE) simp
      note sub' = subset_trans [OF S(2) sub]
      show ?case
      proof (cases r)
        case (Err e)
        with S(1,3) sub' show ?thesis by (simp add: wp) blast
      next
        case (Ok u)
        with S(4) have "ok w1" by simp
        note inverted = func_inverted [OF cfg(2) this]
        show ?thesis unfolding Ok result.case
          by (rule runs_conseq [OF inverted]) (use S(1,3) sub' frame_trans in \<open>simp, blast\<close>)
      qed
    qed
  qed
qed

end

section \<open>The iterator of the crate\<close>

text \<open>The crate's atomics stay meaningful.\<close>

definition keeps_statics :: "u8 list \<Rightarrow> int \<Rightarrow> 'k world \<Rightarrow> 'k world \<Rightarrow> bool" where
  "keeps_statics release osreldate w w' \<longleftrightarrow> (statics_ok release osreldate w \<longrightarrow> statics_ok release osreldate w')"

lemma only_kern_keeps: "only_kern w w' \<Longrightarrow> keeps_statics release osreldate w w'"
  by (simp add: keeps_statics_def only_kern_statics)

lemma keeps_statics_refl: "keeps_statics release osreldate w w"
  by (simp add: keeps_statics_def)

lemma keeps_statics_trans:
  "keeps_statics release osreldate w w' \<Longrightarrow> keeps_statics release osreldate w' w'' \<Longrightarrow> keeps_statics release osreldate w w''"
  by (simp add: keeps_statics_def)

lemma it_inv_weaken: "it_inv Q cfg open_max dirs_work T D it \<Longrightarrow> it_inv UNIV cfg open_max dirs_work T D it"
  by (auto simp: it_inv_def intro: fd_inv_mono)

text \<open>An action on a descriptor that is not the iterator's own.\<close>

lemma it_inv_act:
  assumes "it_inv Q cfg open_max dirs_work T D it" "fd \<notin> priv it" "eff None = None" "T' = upd eff {fd} T"
    "\<And>d. d \<noteq> fd \<Longrightarrow> D' d = D d"
  shows "it_inv UNIV cfg open_max dirs_work T' D' it" "utab T' it = upd eff {fd} (utab T it)"
proof -
  show u: "utab T' it = upd eff {fd} (utab T it)"
    using assms(2,4) by (auto simp: utab_def upd_apply)
  have "priv it \<subseteq> dom T'" using assms(1,2,4) by (auto simp: it_inv_def upd_apply)
  moreover have "dom (utab T' it) \<subseteq> dom (utab T it)" unfolding u using assms(3)
    by (metis domIff subsetI upd_apply)
  moreover have "D' d = D d" if "d \<in> priv it" for d using that assms(2,5) by metis
  ultimately show "it_inv UNIV cfg open_max dirs_work T' D' it"
    using assms(1) unfolding it_inv_def by (blast intro: fd_inv_mono)
qed

sublocale fd_kernel < src: fd_source "FdIter_next cfg os" "FdIter_drop os" "\<lambda>Q it w. iter_ok Q it w"
  "\<lambda>it w. user_tab it w" "\<lambda>w. fdt (kern w)" fi_curfd priv fi_possible "keeps_statics release osreldate"
  "\<lambda>_. True"
proof (unfold_locales, goal_cases)
  case (1 Q it w)
  show ?case
    by (rule runs_conseq [OF FdIter_next_runs [OF 1]])
      (auto simp: next_post_def none_from_def least_from_def domIff only_kern_keeps split: option.splits)
next
  case (2 Q it w)
  then show ?case by (simp add: it_inv_def fd_inv_def)
next
  case (3 Q it w)
  have "dom (user_tab it w) \<subseteq> {fd. fdt (kern w) fd \<noteq> None}" by (auto simp: utab_def upd_apply split: if_splits)
  then show ?case by (rule finite_subset) (rule finite_fds)
next
  case (4 Q it w)
  show ?case by (rule runs_conseq [OF FdIter_drop_runs]) (simp add: only_kern_keeps)
next
  case (5 Q it w)
  then show ?case by (rule it_inv_weaken)
next
  case (7 w w' w'')
  then show ?case by (rule keeps_statics_trans)
qed (simp add: keeps_statics_refl)

text \<open>While other threads run, the descriptors to be delivered are those in \<open>P\<close>.\<close>

definition marks :: "int set \<Rightarrow> fd_table" where
  "marks P fd = (if fd \<in> P then Some 0 else None)"

lemma dom_marks [simp]: "dom (marks P) = P"
  by (auto simp: marks_def split: if_splits)

lemma marks_from:
  "none_from (marks P) c \<longleftrightarrow> (\<forall>fd\<in>P. fd < c)" "least_from (marks P) c fd \<longleftrightarrow> c \<le> fd \<and> (\<forall>x\<in>P. c \<le> x \<longrightarrow> fd \<le> x)"
  by (auto simp: marks_def none_from_def least_from_def)

sublocale shared_kernel < ss: fd_source "FdIter_next cfg os" "FdIter_drop os" "\<lambda>Q' it w. Q \<subseteq> Q' \<and> it_ok it w"
  "\<lambda>it w. marks P" "\<lambda>w. marks P" fi_curfd priv fi_possible only_kern "\<lambda>w. ok {} (kern w)"
proof (unfold_locales, goal_cases)
  case (1 Q' it w)
  then have "it_ok it w" by blast
  show ?case
    by (rule runs_conseq [OF FdIter_next_shared [OF \<open>it_ok it w\<close>]])
      (use 1 in \<open>auto simp: next_post_def marks_from split: option.splits\<close>)
next
  case (2 Q' it w)
  then show ?case by (simp add: fd_inv_def)
next
  case (3 Q' it w)
  then show ?case using finite_P by auto
next
  case (4 Q' it w)
  then have "it_ok it w" by blast
  show ?case by (rule runs_conseq [OF FdIter_drop_shared [OF \<open>it_ok it w\<close>]]) simp
next
  case (7 w w' w'')
  then show ?case by (rule only_kern_trans)
qed auto

end
