(* ===== verification/Iter_Fds.thy ===== *)
theory Iter_Fds
  imports Fd_Source
begin

text \<open>
  \<^verbatim>\<open>FdIterBuilder\<close> and the free functions of \<^verbatim>\<open>src/iterfds/mod.rs\<close>. A fresh iterator satisfies the
  contract \<open>fd_source\<close>, so the descriptors it delivers are exactly the open ones from \<^verbatim>\<open>minfd\<close> on.
\<close>

section \<open>Definitions\<close>

text \<open>The fields \<^verbatim>\<open>skip_nfds\<close> and \<^verbatim>\<open>dirfd\<close> exist on some targets only; on the others the setters ignore
  them and nothing reads them.\<close>

record FdIterBuilder =
  b_possible :: bool
  b_skip_nfds :: bool
  b_dirfd :: bool

definition FdIterBuilder_new :: FdIterBuilder where
  "FdIterBuilder_new = \<lparr>b_possible = False, b_skip_nfds = False, b_dirfd = True\<rparr>"

definition FdIterBuilder_default :: FdIterBuilder where
  "FdIterBuilder_default = FdIterBuilder_new"

definition possible :: "bool \<Rightarrow> FdIterBuilder \<Rightarrow> FdIterBuilder" where
  "possible p b = b\<lparr>b_possible := p\<rparr>"

definition threadsafe :: "config \<Rightarrow> bool \<Rightarrow> FdIterBuilder \<Rightarrow> FdIterBuilder" where
  "threadsafe cfg t b = (if cfg_nfds (target cfg) then b\<lparr>b_skip_nfds := t\<rparr> else b)"

definition allow_filesystem :: "config \<Rightarrow> bool \<Rightarrow> FdIterBuilder \<Rightarrow> FdIterBuilder" where
  "allow_filesystem cfg fs b = (if cfg_dirfd (target cfg) then b\<lparr>b_dirfd := fs\<rparr> else b)"

definition iter_from :: "config \<Rightarrow> 'k os \<Rightarrow> FdIterBuilder \<Rightarrow> c_int \<Rightarrow> ('k world, FdIter) prog" where
  "iter_from cfg os b minfd =
     (let minfd = (if minfd < 0 then 0 else minfd) in
      bnd (if cfg_dirfd (target cfg) \<and> b_dirfd b then DirFdIter_open cfg os minfd else ret None) (\<lambda>dirfd_iter.
      ret \<lparr>fi_dirfd_iter = dirfd_iter, fi_curfd = minfd, fi_possible = b_possible b, fi_maxfd = None,
           fi_skip_nfds = b_skip_nfds b\<rparr>))"

definition iter_open_fds :: "config \<Rightarrow> 'k os \<Rightarrow> c_int \<Rightarrow> ('k world, FdIter) prog" where
  "iter_open_fds cfg os minfd = iter_from cfg os FdIterBuilder_new minfd"

definition iter_open_fds_threadsafe :: "config \<Rightarrow> 'k os \<Rightarrow> c_int \<Rightarrow> ('k world, FdIter) prog" where
  "iter_open_fds_threadsafe cfg os minfd = iter_from cfg os (threadsafe cfg True FdIterBuilder_new) minfd"

definition iter_possible_fds :: "config \<Rightarrow> 'k os \<Rightarrow> c_int \<Rightarrow> ('k world, FdIter) prog" where
  "iter_possible_fds cfg os minfd = iter_from cfg os (possible True FdIterBuilder_new) minfd"

definition iter_possible_fds_threadsafe :: "config \<Rightarrow> 'k os \<Rightarrow> c_int \<Rightarrow> ('k world, FdIter) prog" where
  "iter_possible_fds_threadsafe cfg os minfd =
     iter_from cfg os (threadsafe cfg True (possible True FdIterBuilder_new)) minfd"

definition iterfds_probe :: "config \<Rightarrow> 'k os \<Rightarrow> ('k world, unit) prog" where
  "iterfds_probe cfg os = (if target cfg = Linux then bnd (is_wsl_1 os) (\<lambda>_. ret ()) else ret ())"

text \<open>\<^verbatim>\<open>iter.collect::<Vec<_>>()\<close>.\<close>

definition FdIter_collect :: "config \<Rightarrow> 'k os \<Rightarrow> FdIter \<Rightarrow> ('k world, c_int list) prog" where
  "FdIter_collect cfg os = collect (FdIter_next cfg os) (FdIter_drop os)"

section \<open>A fresh iterator\<close>

text \<open>Either the directory works, may be used and can be opened, or the scan reaches every open descriptor.\<close>

definition reaches :: "config \<Rightarrow> int \<Rightarrow> bool \<Rightarrow> FdIterBuilder \<Rightarrow> fd_table \<Rightarrow> bool" where
  "reaches cfg open_max dirs_work b T \<longleftrightarrow>
     dirs_work \<and> cfg_dirfd (target cfg) \<and> b_dirfd b \<and> has_slot open_max T \<or> (\<forall>fd. T fd \<noteq> None \<longrightarrow> fd \<le> scan_max open_max)"

lemma reaches_mono:
  assumes "reaches cfg open_max dirs_work b T" "\<And>fd. T' fd \<noteq> None \<Longrightarrow> T fd \<noteq> None" "b_dirfd b' = b_dirfd b"
  shows "reaches cfg open_max dirs_work b' T'"
proof -
  have "has_slot open_max T \<Longrightarrow> has_slot open_max T'" using assms(2) unfolding has_slot_def by blast
  with assms show ?thesis unfolding reaches_def by blast
qed

lemma FdIter_max_eq: "FdIter_max cfg os = iter_last (FdIter_next cfg os) (FdIter_drop os)"
  by (rule ext) (simp add: FdIter_max_def iter_last_def)

context shared_kernel
begin

lemma iter_from_shared:
  assumes "statics_ok release osreldate w" "ok {} (kern w)" "minfd \<le> i32_MAX"
    "dirs_work \<and> can_open \<and> cfg_dirfd (target cfg) \<and> b_dirfd b \<or> (\<forall>fd\<in>P. fd \<le> scan_max open_max)"
    "alone \<or> b_skip_nfds b \<or> \<not> cfg_nfds (target cfg)"
  shows "runs (iter_from cfg os b minfd) w (\<lambda>it w'. statics_ok release osreldate w' \<and> it_ok it w' \<and>
    fi_curfd it = max minfd 0 \<and> fi_possible it = b_possible b)"
proof -
  let ?m = "if minfd < 0 then 0 else minfd"
  let ?it = "\<lambda>r. \<lparr>fi_dirfd_iter = r, fi_curfd = ?m, fi_possible = b_possible b, fi_maxfd = None, fi_skip_nfds = b_skip_nfds b\<rparr>"
  have m: "0 \<le> ?m" "?m \<le> i32_MAX" "?m = max minfd 0" using assms(3) by auto
  show ?thesis
  proof (cases "cfg_dirfd (target cfg) \<and> b_dirfd b")
    case False
    with assms m show ?thesis by (auto simp: iter_from_def Let_def wp fd_inv_def scan_ok_def)
  next
    case True
    have "runs (DirFdIter_open cfg os ?m) w (\<lambda>r w'. statics_ok release osreldate w' \<and> it_ok (?it r) w')"
    proof (rule runs_conseq [OF DirFdIter_open_runs [OF assms(1,2) m(1)]], goal_cases)
      case (1 r w')
      show ?case
      proof (cases r)
        case None
        with 1 assms(4,5) m show ?thesis by (auto simp: fd_inv_def scan_ok_def)
      next
        case (Some d)
        with 1 have d: "ok {di_dirfd d} (kern w')" "dir_rest P Q cfg (dirs (kern w')) ?m d" "statics_ok release osreldate w'" by simp_all
        then have "0 \<le> di_dirfd d" by (simp add: dir_rest_def)
        with d Some m(1,2) assms(4,5) show ?thesis by (auto simp: fd_inv_def scan_ok_def)
      qed
    qed
    with True m show ?thesis by (auto simp: iter_from_def Let_def wp intro: runs_conseq)
  qed
qed

lemma collect_shared:
  assumes "statics_ok release osreldate w" "ok {} (kern w)" "minfd \<le> i32_MAX"
    "dirs_work \<and> can_open \<and> cfg_dirfd (target cfg) \<and> b_dirfd b \<or> (\<forall>fd\<in>P. fd \<le> scan_max open_max)"
    "alone \<or> b_skip_nfds b \<or> \<not> cfg_nfds (target cfg)"
  shows "runs (bnd (iter_from cfg os b minfd) (FdIter_collect cfg os)) w (\<lambda>l w'. ok {} (kern w') \<and> statics_ok release osreldate w' \<and>
    sorted_wrt (<) l \<and> (\<forall>fd\<in>P. minfd \<le> fd \<longrightarrow> fd \<in> set l) \<and> (\<forall>fd\<in>set l. minfd \<le> fd) \<and> (\<not> b_possible b \<longrightarrow> set l \<subseteq> Q))"
proof (rule runs_bndI [OF iter_from_shared [OF assms]], goal_cases)
  case (1 it w1)
  have P: "set (open_from (marks P) (fi_curfd it)) = {fd \<in> P. minfd \<le> fd}"
    using 1 finite_P [OF assms(2)] P_range [OF assms(2)] by (auto simp: open_from_def marks_def)
  from 1 have "Q \<subseteq> Q \<and> it_ok it w1" by blast
  note run = ss.collect_runs [OF this, folded FdIter_collect_def]
  show ?case by (rule runs_conseq [OF run]) (use 1 P in \<open>auto simp: only_kern_statics\<close>)
qed

end

context fd_kernel
begin

lemma iter_from_runs:
  assumes "statics_ok release osreldate w" "minfd \<le> i32_MAX" "reaches cfg open_max dirs_work b (fdt (kern w))"
  shows "runs (iter_from cfg os b minfd) w (\<lambda>it w'. statics_ok release osreldate w' \<and> iter_ok (dom (user_tab it w')) it w' \<and>
    user_tab it w' = fdt (kern w) \<and> fi_curfd it = max minfd 0 \<and> fi_possible it = b_possible b)"
proof (rule runs_conseq [OF sh.iter_from_shared [where U = "fdt (kern w)" and Q = "dom (fdt (kern w))" and osreldate = osreldate]], goal_cases)
  case (6 it w')
  then have "user_tab it w' = fdt (kern w)" by (simp add: holding_def utab_def)
  with 6 show ?case by (simp add: iter_ok_shared)
qed (use assms in \<open>auto simp: holding_empty reaches_def\<close>)

lemma open_from_max: "open_from (fdt k) (max minfd 0) = open_from (fdt k) minfd"
  unfolding open_from_def by (rule arg_cong [where f = sorted_list_of_set]) (auto dest: fd_range)

lemma collect_iter_from:
  assumes "statics_ok release osreldate w" "minfd \<le> i32_MAX" "reaches cfg open_max dirs_work b (fdt (kern w))"
  shows "runs (bnd (iter_from cfg os b minfd) (FdIter_collect cfg os)) w (\<lambda>l w'.
    statics_ok release osreldate w' \<and> fdt (kern w') = fdt (kern w) \<and> sorted_wrt (<) l \<and> set l \<subseteq> {max minfd 0..} \<and>
    set (open_from (fdt (kern w)) minfd) \<subseteq> set l \<and>
    (\<not> b_possible b \<longrightarrow> l = open_from (fdt (kern w)) minfd))"
proof (rule runs_bndI [OF iter_from_runs [OF assms]], goal_cases)
  case (1 it w1)
  then have "iter_ok (dom (user_tab it w1)) it w1" by blast
  note run = src.collect_runs [OF this]
  show ?case unfolding FdIter_collect_def
    by (rule runs_conseq [OF run]) (use 1 in \<open>auto simp: open_from_max keeps_statics_def\<close>)
qed

lemma max_iter_from:
  assumes "statics_ok release osreldate w" "minfd \<le> i32_MAX" "reaches cfg open_max dirs_work b (fdt (kern w))"
    "\<not> b_possible b"
  shows "runs (bnd (iter_from cfg os b minfd) (FdIter_max cfg os)) w (\<lambda>r w'. statics_ok release osreldate w' \<and>
    fdt (kern w') = fdt (kern w) \<and> r = (if open_from (fdt (kern w)) minfd = [] then None
      else Some (last (open_from (fdt (kern w)) minfd))))"
proof (rule runs_bndI [OF iter_from_runs [OF assms(1-3)]], goal_cases)
  case (1 it w1)
  then have "iter_ok (dom (user_tab it w1)) it w1" "\<not> fi_possible it" using assms(4) by auto
  note run = src.iter_last_runs [OF this]
  show ?case unfolding FdIter_max_eq
    by (rule runs_conseq [OF run]) (use 1 in \<open>auto simp: open_from_max keeps_statics_def\<close>)
qed

lemma min_iter_from:
  assumes "statics_ok release osreldate w" "minfd \<le> i32_MAX" "reaches cfg open_max dirs_work b (fdt (kern w))"
    "\<not> b_possible b"
  shows "runs (bnd (iter_from cfg os b minfd) (FdIter_min cfg os)) w (\<lambda>r w'. statics_ok release osreldate w' \<and>
    fdt (kern w') = fdt (kern w) \<and> r = (if open_from (fdt (kern w)) minfd = [] then None
      else Some (hd (open_from (fdt (kern w)) minfd))))"
proof (rule runs_bndI [OF iter_from_runs [OF assms(1-3)]], goal_cases)
  case (1 it w1)
  then have it: "iter_ok (dom (user_tab it w1)) it w1" "\<not> fi_possible it" "user_tab it w1 = fdt (kern w)" "fi_curfd it = max minfd 0"
    "statics_ok release osreldate w1" using assms(4) by auto
  let ?T = "fdt (kern w)"
  have fin: "finite {fd. ?T fd \<noteq> None \<and> minfd \<le> fd}" using finite_fds [of "kern w"] by (rule rev_finite_subset) auto
  show ?case unfolding FdIter_min_def
  proof (rule src.nxt_cases [OF it(1)], goal_cases)
    case (1 it2 w2)
    then have "none_from ?T (max minfd 0)" using it(3,4) by simp
    then have "fd < minfd" if "?T fd \<noteq> None" for fd
      using that fd_range [of "kern w" fd] by (fastforce simp: none_from_def max_def split: if_splits)
    then have "{fd. ?T fd \<noteq> None \<and> minfd \<le> fd} = {}" by fastforce
    then have "open_from ?T minfd = []" by (simp only: open_from_def sorted_list_of_set_empty)
    with 1 it(3,5) show ?case by (auto simp: wp keeps_statics_def intro!: runs_conseq [OF src.drp_law])
  next
    case (2 fd it2 w2)
    then have fd: "fd \<in> dom ?T" "least_from ?T (max minfd 0) fd" using it by auto
    then have "Min {fd. ?T fd \<noteq> None \<and> minfd \<le> fd} = fd" using fin
      by (intro Min_eqI) (auto simp: least_from_def dest: fd_range)
    moreover have ne: "{fd. ?T fd \<noteq> None \<and> minfd \<le> fd} \<noteq> {}" using fd by (auto simp: least_from_def)
    ultimately have "open_from ?T minfd \<noteq> []" "hd (open_from ?T minfd) = fd"
      using fin by (simp_all add: open_from_def sorted_list_of_set_nonempty)
    with 2 it(3,5) show ?case by (auto simp: wp keeps_statics_def intro!: runs_conseq [OF src.drp_law])
  qed
qed

lemmas next_refines = src.nxt_refines

end

section \<open>Properties\<close>

text \<open>
  C6. \<^verbatim>\<open>FdIter\<close> refines a list: the state of an iterator over the open descriptors abstracts to the list of
  the program's open descriptors from the cursor on, and \<^verbatim>\<open>next\<close>, which returns without fault, takes the first
  element of that list. The program's descriptors stay as they are and the invariant is kept, so the theorem
  applies to every call of an iteration.
\<close>

theorem FdIter_next_refines:
  assumes "fd_kernel cfg os fdt dirs open_max release osreldate dirs_work"
    and "it_inv (dom (utab (fdt (kern w)) it)) cfg open_max dirs_work (fdt (kern w)) (dirs (kern w)) it" "\<not> fi_possible it"
  shows "\<exists>r it' w'. FdIter_next cfg os it w = Some (Inr ((r, it'), w')) \<and>
    it_inv (dom (utab (fdt (kern w')) it')) cfg open_max dirs_work (fdt (kern w')) (dirs (kern w')) it' \<and> \<not> fi_possible it' \<and>
    utab (fdt (kern w')) it' = utab (fdt (kern w)) it \<and>
    (r, open_from (utab (fdt (kern w')) it') (fi_curfd it')) = spec_next (open_from (utab (fdt (kern w)) it) (fi_curfd it))"
  by (rule runsE [OF fd_kernel.next_refines [OF assms]]) auto

end
