(* ===== verification/Size_Hint.thy ===== *)
theory Size_Hint
  imports Iter_Fds
begin

text \<open>
  \<^verbatim>\<open>Iterator::size_hint\<close> of the two iterators (\<^verbatim>\<open>src/iterfds/dirfd.rs\<close>, \<^verbatim>\<open>src/iterfds/fditer.rs\<close>): the
  functions never fault, and the number of descriptors that \<^verbatim>\<open>next\<close> goes on to deliver lies
  between the two bounds.
\<close>

section \<open>Counting the entries of the buffer\<close>

lemma get_entry_info_offset: "get_entry_info cfg (it\<lparr>di_offset := n\<rparr>) off = get_entry_info cfg it off"
proof -
  have "di_buf (it\<lparr>di_offset := n\<rparr>) = di_buf it" by simp
  then show ?thesis unfolding get_entry_info_def by (simp only:)
qed

lemma dir_count:
  fixes s :: 's
  assumes "buf_ok cfg (it\<lparr>di_offset := off\<rparr>) es" "\<forall>fd\<in>set (entry_fds es). 0 \<le> fd \<and> fd < i32_MAX \<and> di_minfd it \<le> fd"
  shows "loop_m (dir_count_body cfg it) (low, off) s =
    Some (Inr (low + length (filter (\<lambda>fd. fd \<noteq> di_dirfd it) (entry_fds es)), s))"
  using assms
proof (induction es arbitrary: low off)
  case Nil
  with buf_ok_Nil [OF Nil(1)] show ?case by (intro loop_m_Break) (simp add: dir_count_body_def ret_def)
next
  case (Cons e es)
  from Cons.prems(1) obtain n where n: "get_entry_info cfg it off = (ret (parse_int_bytes (entry_name e), n) :: ('s, _) prog)"
    "0 < n" "off + n \<le> di_nbytes it" "buf_ok cfg (it\<lparr>di_offset := off + n\<rparr>) es"
    by (rule get_entry_info_ok [where 's = 's]) (simp add: get_entry_info_offset)
  have step: "loop_m (dir_count_body cfg it) (low, off) s = loop_m (dir_count_body cfg it)
      (low + (case e of Fd_Entry fd \<Rightarrow> if fd \<noteq> di_dirfd it then 1 else 0 | _ \<Rightarrow> 0), off + n) s"
  proof (rule loop_m_Continue, cases e)
    case (Fd_Entry fd)
    then have "parse_int_bytes (entry_name e) = Some fd" "di_minfd it \<le> fd"
      using Cons.prems(2) parse_entry_name(1) [of fd] by auto
    with n Fd_Entry show "dir_count_body cfg it (low, off) s = Some (Inr (Continue
        (low + (case e of Fd_Entry fd \<Rightarrow> if fd \<noteq> di_dirfd it then 1 else 0 | _ \<Rightarrow> 0), off + n), s))"
      by (simp add: dir_count_body_def debug_assert_def) (simp add: ret_def)
  qed (use n parse_entry_name(2,3) in \<open>simp add: dir_count_body_def, simp add: ret_def\<close>)+
  from Cons.prems(2) have "\<forall>fd\<in>set (entry_fds es). 0 \<le> fd \<and> fd < i32_MAX \<and> di_minfd it \<le> fd"
    by (cases e) auto
  from Cons.IH [OF n(4) this] show ?case unfolding step by (cases e) auto
qed

lemma DirFdIter_size_hint_eq:
  fixes s :: 's
  assumes "dir_rest P Q cfg D cur d"
  obtains fds where "DirFdIter_size_hint cfg d s = Some (Inr ((length fds, Some (as_usize cfg i32_MAX)), s))"
    "distinct fds" "\<forall>fd\<in>set fds. cur \<le> fd \<and> fd \<in> Q"
proof -
  from assms obtain es p where d: "0 \<le> di_dirfd d" "buf_ok cfg d es" "\<forall>fd\<in>set (entry_fds es). di_minfd d \<le> fd"
    "dir_pending P Q (di_dirfd d) (di_minfd d) cur p (entry_fds es)" unfolding dir_rest_def by blast
  let ?fds = "filter (\<lambda>fd. fd \<noteq> di_dirfd d) (entry_fds es)"
  from d(3,4) have fds: "\<forall>fd\<in>set (entry_fds es). 0 \<le> fd \<and> fd < i32_MAX \<and> di_minfd d \<le> fd \<and> cur \<le> fd \<and> (fd \<in> Q \<or> fd = di_dirfd d)"
    unfolding dir_pending_def by blast
  then have "loop_m (dir_count_body cfg d) (0, di_offset d) s = Some (Inr (0 + length ?fds, s))"
    using d(2) by (intro dir_count) auto
  then have "DirFdIter_size_hint cfg d s = Some (Inr ((length ?fds, Some (as_usize cfg i32_MAX)), s))"
    using d(1) by (simp add: DirFdIter_size_hint_def bnd_def ret_def)
  moreover have "sorted_wrt (<) (entry_fds es)" using d(4) unfolding dir_pending_def by blast
  then have "distinct ?fds" by (simp add: strict_sorted_iff)
  moreover have "\<forall>fd\<in>set ?fds. cur \<le> fd \<and> fd \<in> Q" using fds unfolding set_filter by blast
  ultimately show ?thesis by (rule that)
qed

section \<open>What is collected, on any kernel\<close>

lemma collect_exhausted:
  assumes "fi_dirfd_iter it = Some d" "di_dirfd d < 0"
  shows "runs (FdIter_collect cfg os it) w (\<lambda>l w'. l = [] \<and> w' = w)"
proof -
  have "FdIter_drop os it w = Some (Inr ((), w))" using assms by (simp add: FdIter_drop_def DirFdIter_drop_def ret_def)
  then show ?thesis unfolding FdIter_collect_def collect_def runs_def
    using next_exhausted [OF assms, of cfg os w] by (simp add: loop_m_Break bnd_def ret_def)
qed

lemma next_possible:
  assumes "fi_dirfd_iter it = None" "fi_maxfd it = Some m" "fi_possible it" "fi_curfd it \<le> m" "0 \<le> fi_curfd it" "m < i32_MAX"
  shows "FdIter_next cfg (os :: 'k os) it w = Some (Inr ((Some (fi_curfd it), it\<lparr>fi_curfd := fi_curfd it + 1\<rparr>), w))"
proof -
  have "add_i32 (overflow_checks cfg) (fi_curfd it) 1 = (ret (fi_curfd it + 1) :: ('k world, c_int) prog)"
    using assms(4-6) by (simp add: add_i32_def in_i32_def)
  with assms show ?thesis
    by (simp add: FdIter_next_def next_dirfd_def get_maxfd_def)
      (intro loop_m_Break, simp add: scan_body_def Let_def, simp add: ret_def)
qed

lemma collect_possible:
  assumes "fi_dirfd_iter it = None" "fi_maxfd it = Some m" "fi_possible it" "0 \<le> fi_curfd it" "m < i32_MAX"
  shows "runs (FdIter_collect cfg os it) w (\<lambda>l w'. l = [fi_curfd it..m] \<and> w' = w)"
  unfolding FdIter_collect_def collect_def
proof (rule runs_loop_m [where \<mu> = "\<lambda>c w'. nat (m + 1 - fi_curfd (snd c))" and
    I = "\<lambda>c w'. \<exists>n \<ge> fi_curfd it. c = ([fi_curfd it..n - 1], it\<lparr>fi_curfd := n\<rparr>) \<and> w' = w \<and> (n \<le> m + 1 \<or> n = fi_curfd it)"],
    goal_cases)
  case (1 c w')
  then obtain n where n: "c = ([fi_curfd it..n - 1], it\<lparr>fi_curfd := n\<rparr>)" "w' = w" "fi_curfd it \<le> n"
    "n \<le> m + 1 \<or> n = fi_curfd it" by blast
  show ?case
  proof (cases "n \<le> m")
    case True
    with n assms have "FdIter_next cfg os (it\<lparr>fi_curfd := n\<rparr>) w = Some (Inr ((Some n, it\<lparr>fi_curfd := n + 1\<rparr>), w))"
      by (subst next_possible [where m = m]) simp_all
    with n True show ?thesis
      by (auto simp: runs_def bnd_def ret_def upto_rec2 intro!: exI [of _ "n + 1"])
  next
    case False
    with n assms have "FdIter_next cfg os (it\<lparr>fi_curfd := n\<rparr>) w = Some (Inr ((None, it\<lparr>fi_curfd := n\<rparr>), w))"
      by (subst next_past_max [where m = m]) simp_all
    moreover have "[fi_curfd it..n - 1] = [fi_curfd it..m]" using n False by (cases "n = m + 1") auto
    ultimately show ?thesis using n assms(1) by (simp add: runs_def bnd_def ret_def FdIter_drop_def)
  qed
next
  case 2
  show ?case by (intro exI [of _ "fi_curfd it"]) simp
qed

section \<open>The bounds\<close>

lemma as_usize_i32: "32 \<le> usize_bits cfg \<Longrightarrow> 0 \<le> x \<Longrightarrow> x \<le> i32_MAX \<Longrightarrow> as_usize cfg x = nat x"
proof -
  assume "32 \<le> usize_bits cfg" "0 \<le> x" "x \<le> i32_MAX"
  moreover from this(1) have "(2 :: int) ^ 32 \<le> 2 ^ usize_bits cfg" by (intro power_increasing) simp_all
  ultimately show ?thesis by (simp add: as_usize_def)
qed

lemma scan_size_hint:
  fixes s :: 's
  assumes "32 \<le> usize_bits cfg" "fi_dirfd_iter it = None" "fi_maxfd it = Some m" "- 1 \<le> m" "m < i32_MAX"
    "0 \<le> fi_curfd it" "fi_curfd it \<le> i32_MAX"
  shows "FdIter_size_hint cfg it s = Some (Inr ((if fi_possible it then nat (m + 1 - fi_curfd it) else 0, Some (nat (m + 1 - fi_curfd it))), s))"
proof (cases "m = - 1")
  case True
  with assms show ?thesis by (simp add: FdIter_size_hint_def ret_def)
next
  case False
  have "(2 :: nat) ^ 32 \<le> 2 ^ usize_bits cfg" using assms(1) by (intro power_increasing) simp_all
  moreover have "nat m + 1 < 2 ^ 32" using False assms(4,5) by simp
  ultimately have "nat m + 1 < 2 ^ usize_bits cfg" by linarith
  then have "add_usize cfg (nat m) 1 = (ret (nat m + 1) :: ('s, usize) prog)" unfolding add_usize_def by (simp only: if_True)
  moreover have "nat m + 1 - nat (fi_curfd it) = nat (m + 1 - fi_curfd it)" using False assms(4,6) by linarith
  ultimately show ?thesis using False assms as_usize_i32 [OF assms(1)]
    by (simp add: FdIter_size_hint_def debug_assert_def Let_def) (simp add: ret_def)
qed

lemma sorted_length_bounds:
  fixes l :: "int list"
  assumes "sorted_wrt (<) l"
  shows "set l \<subseteq> {a..<b} \<Longrightarrow> length l \<le> nat (b - a)" "distinct ks \<Longrightarrow> set ks \<subseteq> set l \<Longrightarrow> length ks \<le> length l"
proof -
  have l: "length l = card (set l)" using assms by (simp add: distinct_card strict_sorted_iff)
  show "length l \<le> nat (b - a)" if "set l \<subseteq> {a..<b}"
    using card_mono [OF _ that] l by simp
  show "length ks \<le> length l" if "distinct ks" "set ks \<subseteq> set l"
    using card_mono [OF _ that(2)] that(1) l by (simp add: distinct_card)
qed

context fd_kernel
begin

lemma size_hint_runs:
  assumes it: "iter_ok (dom (user_tab it w)) it w" and bits: "32 \<le> usize_bits cfg"
  obtains lo hi where "FdIter_size_hint cfg it s = Some (Inr ((lo, Some hi), s))"
    "runs (FdIter_collect cfg os it) w (\<lambda>l w'. lo \<le> length l \<and> length l \<le> hi)" "hi \<le> 2147483647"
proof -
  have bound: "as_usize cfg i32_MAX = 2147483647" using as_usize_i32 [OF bits, of i32_MAX] by simp
  note run = src.collect_runs [OF it, folded FdIter_collect_def]
  have cur: "0 \<le> fi_curfd it" "fi_curfd it \<le> i32_MAX" using it by (simp_all add: it_inv_def fd_inv_def)
  have max: "length l \<le> as_usize cfg i32_MAX" if "sorted_wrt (<) l" "set l \<subseteq> {fi_curfd it..<i32_MAX}" for l
    using sorted_length_bounds(1) [OF that] as_usize_i32 [OF bits, of i32_MAX] cur by simp
  show ?thesis
  proof (cases "fi_dirfd_iter it")
    case (Some d)
    show ?thesis
    proof (cases "di_dirfd d < 0")
      case True
      have "runs (FdIter_collect cfg os it) w (\<lambda>l w'. 0 \<le> length l \<and> length l \<le> 0)"
        by (rule runs_conseq [OF collect_exhausted [OF Some True]]) simp
      moreover have "FdIter_size_hint cfg it s = Some (Inr ((0, Some 0), s))"
        using Some True by (simp add: FdIter_size_hint_def DirFdIter_size_hint_def ret_def)
      ultimately show ?thesis using that [of 0 0] by simp
    next
      case False
      with Some it have "dir_rest (dom (user_tab it w)) (dom (user_tab it w)) cfg (dirs (kern w)) (fi_curfd it) d"
        by (simp add: it_inv_def fd_inv_def)
      then obtain fds where fds: "DirFdIter_size_hint cfg d s = Some (Inr ((length fds, Some (as_usize cfg i32_MAX)), s))"
        "distinct fds" "\<forall>fd\<in>set fds. fi_curfd it \<le> fd \<and> fd \<in> dom (user_tab it w)"
        by (rule DirFdIter_size_hint_eq)
      have "set fds \<subseteq> {fd. user_tab it w fd \<noteq> None \<and> fi_curfd it \<le> fd}"
        using fds(3) by auto
      moreover have "finite {fd. user_tab it w fd \<noteq> None \<and> fi_curfd it \<le> fd}"
        by (rule finite_subset [OF _ src.tab_finite [OF it]]) auto
      ultimately have "set fds \<subseteq> set (open_from (user_tab it w) (fi_curfd it))" by (simp add: open_from_def)
      then have "runs (FdIter_collect cfg os it) w (\<lambda>l w'. length fds \<le> length l \<and> length l \<le> as_usize cfg i32_MAX)"
        by (intro runs_conseq [OF run]) (blast intro: max sorted_length_bounds(2) [OF _ fds(2)])
      with fds(1) Some bound that show ?thesis by (simp add: FdIter_size_hint_def)
    qed
  next
    case None
    show ?thesis
    proof (cases "fi_maxfd it")
      case none: None
      have "runs (FdIter_collect cfg os it) w (\<lambda>l w'. 0 \<le> length l \<and> length l \<le> as_usize cfg i32_MAX)"
        by (rule runs_conseq [OF run]) (simp add: max)
      with None none bound that show ?thesis by (simp add: FdIter_size_hint_def ret_def)
    next
      case (Some m)
      let ?n = "nat (m + 1 - fi_curfd it)"
      from Some None it have m: "- 1 \<le> m" "m < i32_MAX" "\<forall>fd\<in>dom (fdt (kern w)). fi_curfd it \<le> fd \<longrightarrow> fd \<le> m"
        by (simp_all add: it_inv_def fd_inv_def utab_simps)
      have fin: "finite {fd. fdt (kern w) fd \<noteq> None \<and> fi_curfd it \<le> fd}" by (rule finite_subset [OF _ finite_fds]) auto
      have "runs (FdIter_collect cfg os it) w (\<lambda>l w'. (if fi_possible it then ?n else 0) \<le> length l \<and> length l \<le> ?n)"
      proof (cases "fi_possible it")
        case True
        with collect_possible [OF None Some True cur(1) m(2), of cfg os w] show ?thesis
          by (elim runs_conseq) (simp add: algebra_simps)
      next
        case False
        have "set (open_from (fdt (kern w)) (fi_curfd it)) \<subseteq> {fi_curfd it..<m + 1}"
          using m(3) unfolding open_from_def set_sorted_list_of_set [OF fin] by force
        moreover have "user_tab it w = fdt (kern w)" using None by (simp add: utab_simps)
        ultimately show ?thesis using False run
          by (elim runs_conseq) (auto dest: sorted_length_bounds(1))
      qed
      moreover have "FdIter_size_hint cfg it s = Some (Inr ((if fi_possible it then ?n else 0, Some ?n), s))"
        by (rule scan_size_hint [OF bits None Some m(1,2) cur])
      moreover have "?n \<le> 2147483647" using m(2) cur(1) by simp
      ultimately show ?thesis using that by blast
    qed
  qed
qed

lemma size_hint_exhausted:
  assumes "exhausted it" "iter_ok Q it w" "32 \<le> usize_bits cfg"
  shows "FdIter_size_hint cfg it s = Some (Inr ((0, Some 0), s))"
proof (cases "fi_dirfd_iter it")
  case (Some d)
  with assms(1) show ?thesis by (simp add: exhausted_def FdIter_size_hint_def DirFdIter_size_hint_def ret_def)
next
  case None
  with assms(1) obtain m where m: "fi_maxfd it = Some m" "m < fi_curfd it" by (auto simp: exhausted_def split: option.splits)
  with assms(2) None have "- 1 \<le> m" "m < i32_MAX" "0 \<le> fi_curfd it" "fi_curfd it \<le> i32_MAX" by (auto simp: it_inv_def fd_inv_def)
  from scan_size_hint [OF assms(3) None m(1) this, where s = s] m(2) show ?thesis by simp
qed

end

section \<open>Properties\<close>

text \<open>
  C9. \<^verbatim>\<open>FdIter::size_hint\<close>, called at any point of an iteration, returns without fault, in particular without
  tripping its debug assertions, and makes no system call; when nobody opens or closes descriptors
  meanwhile, the number of descriptors that the iterator still delivers lies between its two
  bounds. The invariant \<open>it_inv\<close> holds of every new iterator and \<^verbatim>\<open>next\<close> keeps it.
\<close>

theorem size_hint_bounds:
  assumes "fd_kernel cfg os fdt dirs open_max release osreldate dirs_work" "32 \<le> usize_bits cfg"
    and "it_inv (dom (utab (fdt (kern w)) it)) cfg open_max dirs_work (fdt (kern w)) (dirs (kern w)) it"
  shows "\<exists>lo hi l w'. FdIter_size_hint cfg it w = Some (Inr ((lo, Some hi), w)) \<and>
    FdIter_collect cfg os it w = Some (Inr (l, w')) \<and> lo \<le> length l \<and> length l \<le> hi"
proof (rule fd_kernel.size_hint_runs [OF assms(1,3,2), where s = w])
  fix lo hi assume "FdIter_size_hint cfg it w = Some (Inr ((lo, Some hi), w))"
    "runs (FdIter_collect cfg os it) w (\<lambda>l w'. lo \<le> length l \<and> length l \<le> hi)"
  then show ?thesis by (auto elim!: runsE)
qed

end
