(* ===== verification/Keep_Fds.thy ===== *)
theory Keep_Fds
  imports Size_Hint
begin

text \<open>
  \<^verbatim>\<open>KeepFds\<close> of \<^verbatim>\<open>src/closefds/mod.rs\<close>, the list of descriptors to keep with what the scan of it found,
  and its invariant \<open>keep_ok\<close>: what \<^verbatim>\<open>close_fds\<close> and \<^verbatim>\<open>set_fds_cloexec\<close> rely on.
\<close>

record KeepFds =
  k_fds :: "c_int list"
  k_max :: c_int
  k_sorted :: bool

definition KeepFds_empty :: KeepFds where
  "KeepFds_empty = \<lparr>k_fds = [], k_max = - 1, k_sorted = True\<rparr>"

definition KeepFds_new :: "config \<Rightarrow> c_int list \<Rightarrow> ('s, KeepFds) prog" where
  "KeepFds_new cfg fds = bnd (inspect_keep_fds cfg fds) (\<lambda>(max, srt).
     ret \<lparr>k_fds = fds, k_max = max, k_sorted = srt\<rparr>)"

definition KeepFds_new_sorted :: "c_int list \<Rightarrow> KeepFds" where
  "KeepFds_new_sorted fds =
     \<lparr>k_fds = fds, k_max = (if fds = [] then - 1 else last fds), k_sorted = True\<rparr>"

text \<open>Any \<^verbatim>\<open>i32\<close> may be kept, \<^verbatim>\<open>i32::MAX\<close> in builds without overflow checks and debug assertions only, as long as some number
  from \<^verbatim>\<open>minfd\<close> on is not kept.\<close>

definition keepable :: "config \<Rightarrow> c_int \<Rightarrow> bool" where
  "keepable cfg fd \<longleftrightarrow> in_i32 fd \<and> (fd = i32_MAX \<longrightarrow> \<not> overflow_checks cfg \<and> \<not> debug_assertions cfg)"

definition keep_ok :: "config \<Rightarrow> c_int \<Rightarrow> KeepFds \<Rightarrow> bool" where
  "keep_ok cfg minfd k \<longleftrightarrow> (k_sorted k \<longrightarrow> sorted (k_fds k)) \<and> (\<forall>fd\<in>set (k_fds k). keepable cfg fd \<and> fd \<le> k_max k) \<and>
     (k_max k \<in> set (k_fds k) \<or> k_max k < 0) \<and> \<not> {minfd..i32_MAX} \<subseteq> set (k_fds k)"

lemma keep_ok_new:
  assumes "\<forall>fd\<in>set fds. keepable cfg fd" "\<not> {minfd..i32_MAX} \<subseteq> set fds"
  obtains k where "KeepFds_new cfg fds = ret k" "keep_ok cfg minfd k" "k_fds k = fds"
proof -
  let ?k = "\<lparr>k_fds = fds, k_max = fold max fds i32_MIN, k_sorted = sorted fds\<rparr>"
  have "KeepFds_new cfg fds = ret ?k"
    using assms(1) by (simp add: KeepFds_new_def inspect_keep_fds_eq keepable_def)
  moreover have "keep_ok cfg minfd ?k"
    using assms fold_max_ge [of i32_MIN fds] fold_max_in [of fds i32_MIN] by (simp add: keep_ok_def) fastforce
  ultimately show ?thesis by (rule that) simp
qed

lemma keep_ok_new_sorted:
  assumes "sorted fds" "\<forall>fd\<in>set fds. keepable cfg fd" "\<not> {minfd..i32_MAX} \<subseteq> set fds"
  shows "keep_ok cfg minfd (KeepFds_new_sorted fds)"
proof -
  have "fds \<noteq> [] \<longrightarrow> last fds \<in> set fds" by simp
  with assms sorted_le_last [OF assms(1)] show ?thesis by (simp add: keep_ok_def KeepFds_new_sorted_def)
qed

text \<open>What both clients do first: shorten the list and move \<^verbatim>\<open>minfd\<close> up. The descriptors to act on are
  the same afterwards.\<close>

lemma simplify_keep:
  assumes "keep_ok cfg minfd k" "0 \<le> minfd" "minfd \<le> i32_MAX"
  obtains fds' m where
    "simplify_keep_fds cfg (k_fds k) (k_sorted k) minfd = (ret (fds', m) :: ('s, c_int list \<times> c_int) prog)"
    "0 \<le> m" "m \<le> i32_MAX" "{m..} - set fds' = {minfd..} - set (k_fds k)"
    "k_sorted k \<longrightarrow> sorted fds'" "\<forall>fd\<in>set fds'. keepable cfg fd \<and> fd \<le> k_max k"
    "k_sorted k \<and> m \<le> k_max k \<longrightarrow> fds' \<noteq> []"
proof -
  have pre: "k_sorted k \<longrightarrow> sorted (k_fds k)" "\<not> {minfd..i32_MAX} \<subseteq> set (k_fds k)" "in_i32 minfd"
    using assms by (simp_all add: keep_ok_def in_i32_def)
  obtain fds' m where m: "simplify_keep_fds cfg (k_fds k) (k_sorted k) minfd = (ret (fds', m) :: ('s, c_int list \<times> c_int) prog)"
    "minfd \<le> m" "in_i32 m" "set fds' \<subseteq> set (k_fds k)" "sorted (k_fds k) \<longrightarrow> sorted fds'"
    "\<forall>x \<ge> m. x \<in> set fds' \<longleftrightarrow> x \<in> set (k_fds k)" "{minfd..<m} \<subseteq> set (k_fds k)"
    using simplify_keep_fds_ret [OF pre] by metis
  have "{m..} - set fds' = {minfd..} - set (k_fds k)"
  proof (rule set_eqI)
    fix x show "x \<in> {m..} - set fds' \<longleftrightarrow> x \<in> {minfd..} - set (k_fds k)"
      using m(2,6,7) by (cases "m \<le> x") (auto simp: subset_iff)
  qed
  moreover have "fds' \<noteq> []" if "k_sorted k \<and> m \<le> k_max k"
  proof -
    have "k_max k \<in> set (k_fds k)" using assms(1,2) that m(2) unfolding keep_ok_def by linarith
    with that m(6) show ?thesis by force
  qed
  moreover have "0 \<le> m" "m \<le> i32_MAX" using assms(2) m(2,3) by (simp_all add: in_i32_def)
  moreover have "\<forall>fd\<in>set fds'. keepable cfg fd \<and> fd \<le> k_max k" using assms(1) m(4) unfolding keep_ok_def by blast
  ultimately show ?thesis using m(1,5) pre(1) by (intro that [of fds' m]) blast+
qed

end
