(* ===== verification/Close.thy ===== *)
theory Close
  imports Keep_Fds
begin

text \<open>
  \<^verbatim>\<open>src/closefds/close.rs\<close>: closing every descriptor from \<^verbatim>\<open>minfd\<close> on except those to keep, with
  \<^verbatim>\<open>closefrom()\<close> or \<^verbatim>\<open>close_range()\<close> where the system has them and by iterating otherwise.
\<close>

section \<open>Definitions\<close>

definition u32_MAX :: c_uint where
  "u32_MAX = - 1"

definition try_close_range_linux :: "config \<Rightarrow> 'k os \<Rightarrow> c_uint \<Rightarrow> c_uint \<Rightarrow> ('k world, (unit, unit) result) prog" where
  "try_close_range_linux cfg os minfd maxfd =
     bnd (debug_assert (debug_assertions cfg) (minfd \<le> maxfd)) (\<lambda>_.
     bnd (sys (os_syscall3 os (c_SYS_close_range os) minfd maxfd 0)) (\<lambda>r.
     if r = 0 then ret (Ok ())
     else bnd (modify (\<lambda>w. w\<lparr>MAY_HAVE_CLOSE_RANGE := False\<rparr>)) (\<lambda>_. ret (Err ()))))"

definition check_has_close_range :: "'k os \<Rightarrow> ('k world, (unit, unit) result) prog" where
  "check_has_close_range os =
     bnd (gets HAS_CLOSE_RANGE) (\<lambda>cached.
     if cached = 1 then ret (Ok ())
     else if cached = 0 then ret (Err ())
     else bnd (sys (os_sysctl os [c_CTL_KERN os, c_KERN_OSRELDATE os])) (\<lambda>(r, osreldate).
       if r \<noteq> 0 \<or> osreldate < 1202000
       then bnd (modify (\<lambda>w. w\<lparr>HAS_CLOSE_RANGE := 0\<rparr>)) (\<lambda>_. ret (Err ()))
       else bnd (modify (\<lambda>w. w\<lparr>HAS_CLOSE_RANGE := 1\<rparr>)) (\<lambda>_. ret (Ok ()))))"

text \<open>The argument of \<^verbatim>\<open>debug_assert!\<close> is evaluated only when debug assertions are on.\<close>

definition try_close_range_freebsd :: "config \<Rightarrow> 'k os \<Rightarrow> c_uint \<Rightarrow> c_uint \<Rightarrow> ('k world, (unit, unit) result) prog" where
  "try_close_range_freebsd cfg os minfd maxfd =
     bnd (debug_assert (debug_assertions cfg) (minfd \<le> maxfd)) (\<lambda>_.
     bnd (if debug_assertions cfg
          then bnd (check_has_close_range os) (\<lambda>r. debug_assert True (r = Ok ()))
          else ret ()) (\<lambda>_.
     bnd (sys (os_syscall3 os SYS_CLOSE_RANGE minfd maxfd 0)) (\<lambda>r.
     ret (if r = 0 then Ok () else Err ()))))"

definition try_close_range :: "config \<Rightarrow> 'k os \<Rightarrow> c_uint \<Rightarrow> c_uint \<Rightarrow> ('k world, (unit, unit) result) prog" where
  "try_close_range cfg os =
     (if target cfg = Linux then try_close_range_linux cfg os else try_close_range_freebsd cfg os)"

definition close_fds_shortcut :: "config \<Rightarrow> 'k os \<Rightarrow> c_int \<Rightarrow> c_int list \<Rightarrow> c_int \<Rightarrow> bool \<Rightarrow>
  ('k world, (unit, unit) result) prog" where
  "close_fds_shortcut cfg os minfd keep_fds max_keep_fd fds_sorted =
     (if cfg_closefrom (target cfg) \<and> max_keep_fd < minfd then
        bnd (sysu (os_closefrom os minfd)) (\<lambda>_. ret (Ok ()))
      else bnd (gets MAY_HAVE_CLOSE_RANGE) (\<lambda>may_have.
        if target cfg = Linux \<and> \<not> may_have then ret (Err ())
        else if target cfg = Linux \<and> max_keep_fd < minfd then
          try_close_range cfg os (as_c_uint minfd) u32_MAX
        else if target cfg \<in> {Linux, Freebsd} \<and> fds_sorted then
          bnd (debug_assert (debug_assertions cfg) (keep_fds \<noteq> [])) (\<lambda>_.
          bnd (if target cfg = Freebsd then check_has_close_range os else ret (Ok ())) (\<lambda>r.
          case r of Err _ \<Rightarrow> ret (Err ()) | Ok _ \<Rightarrow>
          apply_range cfg minfd keep_fds (\<lambda>low high. try_close_range cfg os (as_c_uint low) (as_c_uint high))))
        else ret (Err ())))"

definition close_fd :: "'k os \<Rightarrow> c_int \<Rightarrow> ('k world, unit) prog" where
  "close_fd os fd = bnd (sys (os_close os fd)) (\<lambda>_. ret ())"

definition close_rest :: "config \<Rightarrow> 'k os \<Rightarrow> c_int \<Rightarrow> FdIter \<Rightarrow> ('k world, unit) prog" where
  "close_rest cfg os fd fditer =
     (if cfg_closefrom (target cfg) then
        bnd (FdIter_drop os fditer) (\<lambda>_. sysu (os_closefrom os fd))
      else bnd (gets MAY_HAVE_CLOSE_RANGE) (\<lambda>may_have.
        bnd (if target cfg = Linux \<and> may_have then try_close_range cfg os (as_c_uint fd) u32_MAX
             else ret (Err ())) (\<lambda>r.
        case r of
          Ok _ \<Rightarrow> FdIter_drop os fditer
        | Err _ \<Rightarrow>
            bnd (close_fd os fd) (\<lambda>_.
            for_each (FdIter_next cfg os) (FdIter_drop os) (close_fd os) fditer))))"

text \<open>The body of the loop of \<^verbatim>\<open>close_fds\<close>. Both ways out drop the iterator: \<^verbatim>\<open>close_rest\<close> consumes it,
  and at the end of the function it goes out of scope.\<close>

definition close_fds_body :: "config \<Rightarrow> 'k os \<Rightarrow> c_int \<Rightarrow> bool \<Rightarrow> c_int list \<times> FdIter \<Rightarrow>
  ('k world, (c_int list \<times> FdIter, unit) ctl) prog" where
  "close_fds_body cfg os max_keep_fd fds_sorted = (\<lambda>(keep_fds, fditer).
     bnd (FdIter_next cfg os fditer) (\<lambda>(r, fditer). case r of
       None \<Rightarrow> bnd (FdIter_drop os fditer) (\<lambda>_. ret (Break ()))
     | Some fd \<Rightarrow>
         if fd > max_keep_fd then bnd (close_rest cfg os fd fditer) (\<lambda>_. ret (Break ()))
         else (case check_should_keep keep_fds fd fds_sorted of (should_keep, keep_fds) \<Rightarrow>
           if \<not> should_keep then bnd (close_fd os fd) (\<lambda>_. ret (Continue (keep_fds, fditer)))
           else ret (Continue (keep_fds, fditer)))))"

definition close_fds :: "config \<Rightarrow> 'k os \<Rightarrow> c_int \<Rightarrow> KeepFds \<Rightarrow> FdIterBuilder \<Rightarrow> ('k world, unit) prog" where
  "close_fds cfg os minfd keep itbuilder =
     bnd (simplify_keep_fds cfg (k_fds keep) (k_sorted keep) minfd) (\<lambda>(keep_fds, minfd).
     bnd (close_fds_shortcut cfg os minfd keep_fds (k_max keep) (k_sorted keep)) (\<lambda>r.
     case r of
       Ok _ \<Rightarrow> ret ()
     | Err _ \<Rightarrow>
         let itbuilder = possible True itbuilder;
             itbuilder = (if cfg_closefrom (target cfg) then threadsafe cfg True itbuilder else itbuilder)
         in bnd (iter_from cfg os itbuilder minfd) (\<lambda>fditer.
            loop_m (close_fds_body cfg os (k_max keep) (k_sorted keep)) (keep_fds, fditer))))"

definition close_probe :: "config \<Rightarrow> 'k os \<Rightarrow> ('k world, unit) prog" where
  "close_probe cfg os =
     (if target cfg = Linux then
        bnd (sys (os_syscall3 os (c_SYS_close_range os) u32_MAX (u32_MAX - 1) 0)) (\<lambda>r.
        bnd (gets (\<lambda>w. os_errno os (kern w))) (\<lambda>errno.
        if r = 0 \<or> errno \<noteq> c_EINVAL os then modify (\<lambda>w. w\<lparr>MAY_HAVE_CLOSE_RANGE := False\<rparr>)
        else ret ()))
      else if target cfg = Freebsd then bnd (check_has_close_range os) (\<lambda>_. ret ())
      else ret ())"

section \<open>Lemmas\<close>

lemma close_fds_body_eq:
  "close_fds_body cfg os = sweep_body (FdIter_next cfg os) (FdIter_drop os) (close_fd os) (close_rest cfg os)"
  by (intro ext) (simp add: close_fds_body_def sweep_body_def)

lemma as_c_uint_le: "0 \<le> a \<Longrightarrow> a \<le> b \<Longrightarrow> b \<le> i32_MAX \<Longrightarrow> as_c_uint a \<le> as_c_uint b"
  by (simp add: word_le_def uint_as_c_uint)

lemma as_c_uint_inverted: "as_c_uint i32_MAX < as_c_uint i32_MIN"
  by (simp add: as_c_uint_def word_less_def)

lemma uint_u32_MAX: "uint u32_MAX = 4294967295" "a \<le> u32_MAX" "uint (u32_MAX - 1) = 4294967294"
  by (simp_all add: u32_MAX_def unsigned_minus_1_eq_mask mask_eq_exp_minus_1)

definition close_ok :: "config \<Rightarrow> int \<Rightarrow> 'k world \<Rightarrow> bool" where
  "close_ok cfg osreldate w \<longleftrightarrow> target cfg = Linux \<or>
     target cfg = Freebsd \<and> HAS_CLOSE_RANGE w = 1 \<and> 1202000 \<le> osreldate"

context fd_kernel
begin

text \<open>A whole range up to the largest \<^verbatim>\<open>c_uint\<close> is every descriptor from its start on.\<close>

lemma upd_to_u32_MAX:
  assumes "eff None = None"
  shows "upd eff {a..4294967295} (fdt k) = upd eff {a..} (fdt k)"
  by (rule upd_cong_dom [of eff, OF assms]) (auto dest!: fd_range)

lemma upd_to_i32_MAX:
  assumes "eff None = None"
  shows "upd eff ({a..i32_MAX} - K) (fdt k) = upd eff ({a..} - K) (fdt k)"
  by (rule upd_cong_dom [of eff, OF assms]) (auto dest!: fd_range)

lemma range_close_any:
  assumes "close_ok cfg osreldate w" "os_syscall3 os (close_range_nr cfg os) lo hi 0 k = (r, k')"
  shows "fdt k' = (if r = 0 then upd eff_close {uint lo..uint hi} (fdt k) else fdt k) \<and>
    (r \<noteq> 0 \<longrightarrow> dirs k' = dirs k) \<and> (hi < lo \<longrightarrow> r \<noteq> 0)"
proof -
  have ok: "target cfg = Linux \<or> target cfg = Freebsd \<and> osreldate \<ge> 1202000" using assms(1) by (auto simp: close_ok_def)
  show ?thesis
  proof (cases "lo \<le> hi")
    case True
    with close_range_law [OF ok _ assms(2)] show ?thesis by (auto simp: word_le_def word_less_def)
  next
    case False
    with close_range_inval [OF ok _ assms(2)] show ?thesis by (simp add: word_le_def not_le)
  qed
qed

lemma try_close_range_runs:
  assumes "close_ok cfg osreldate w" "lo \<le> hi \<or> \<not> debug_assertions cfg"
  shows "runs (try_close_range cfg os lo hi) w (\<lambda>r w'. keeps_statics release osreldate w w' \<and> (hi < lo \<longrightarrow> r = Err ()) \<and> (case r of
      Ok _ \<Rightarrow> close_ok cfg osreldate w' \<and> fdt (kern w') = upd eff_close {uint lo..uint hi} (fdt (kern w))
    | Err _ \<Rightarrow> fdt (kern w') = fdt (kern w) \<and> dirs (kern w') = dirs (kern w)))"
proof -
  obtain r k where k: "os_syscall3 os (close_range_nr cfg os) lo hi 0 (kern w) = (r, k)" by fastforce
  have law: "fdt k = (if r = 0 then upd eff_close {uint lo..uint hi} (fdt (kern w)) else fdt (kern w))"
    "r \<noteq> 0 \<Longrightarrow> dirs k = dirs (kern w)" "hi < lo \<Longrightarrow> r \<noteq> 0"
    using range_close_any [OF assms(1) k] by simp_all
  show ?thesis
  proof (cases "target cfg = Linux")
    case True
    with k law assms(2) show ?thesis
      by (auto simp: try_close_range_def try_close_range_linux_def close_range_nr_def wp close_ok_def
        keeps_statics_def statics_ok_def)
  next
    case False
    with k law assms show ?thesis
      by (auto simp: try_close_range_def try_close_range_freebsd_def check_has_close_range_def
        close_range_nr_def wp close_ok_def keeps_statics_def statics_ok_def)
  qed
qed

lemma check_has_close_range_runs:
  assumes "statics_ok release osreldate w"
  shows "runs (check_has_close_range os) w (\<lambda>r w'. statics_ok release osreldate w' \<and>
    fdt (kern w') = fdt (kern w) \<and> dirs (kern w') = dirs (kern w) \<and>
    (r = Ok () \<longrightarrow> HAS_CLOSE_RANGE w' = 1 \<and> 1202000 \<le> osreldate))"
proof -
  obtain r v k where k: "os_sysctl os [c_CTL_KERN os, c_KERN_OSRELDATE os] (kern w) = ((r, v), k)"
    by (metis surj_pair)
  then have "r = 0 \<Longrightarrow> v = osreldate" using sysctl_osreldate by blast
  with k sysctl_quiet [OF k] assms show ?thesis
    by (auto simp: check_has_close_range_def wp statics_ok_def)
qed

end

sublocale fd_kernel < rc: range_op
  "\<lambda>low high. try_close_range cfg os (as_c_uint low) (as_c_uint high)" "\<lambda>w. fdt (kern w)" eff_close
  "close_ok cfg osreldate" "keeps_statics release osreldate" "\<not> debug_assertions cfg"
proof (unfold_locales, goal_cases)
  case (2 w)
  from try_close_range_runs [OF 2(2) disjI2 [OF 2(1)]] show ?case
    by (rule runs_conseq) (use as_c_uint_inverted in auto)
next
  case (3 w lo hi)
  from try_close_range_runs [OF 3(1) disjI1 [OF as_c_uint_le [OF 3(2,3,4)]]] show ?case
    by (rule runs_conseq) (use 3 in \<open>auto simp: uint_as_c_uint split: result.splits\<close>)
next
  case (5 w w' w'')
  then show ?case by (rule keeps_statics_trans)
qed (simp_all add: keeps_statics_refl)

context fd_kernel
begin

lemma close_fd_runs:
  "runs (close_fd os fd) w (\<lambda>_ w'. only_kern w w' \<and> fdt (kern w') = upd eff_close {fd} (fdt (kern w)) \<and>
    (\<forall>d. d \<noteq> fd \<longrightarrow> dirs (kern w') d = dirs (kern w) d))"
  by (auto simp: close_fd_def wp close_fdt close_dirs upd_def)

end

sublocale fd_kernel < cv: fd_visitor "FdIter_next cfg os" "FdIter_drop os" "\<lambda>Q it w. iter_ok Q it w"
  "\<lambda>it w. user_tab it w" "\<lambda>w. fdt (kern w)" fi_curfd priv fi_possible "keeps_statics release osreldate" "\<lambda>_. True"
  "close_fd os" eff_close
proof (unfold_locales, goal_cases)
  case (3 it w fd)
  show ?case
  proof (rule runs_conseq [OF close_fd_runs], goal_cases)
    case (1 x w')
    with it_inv_act [OF 3(1,2), of eff_close "fdt (kern w')" "dirs (kern w')"] show ?case
      by (simp add: only_kern_keeps)
  qed
qed simp_all

context fd_kernel
begin

lemma close_rest_runs:
  assumes "iter_ok UNIV it w" "fd \<notin> priv it" "0 \<le> fd" "fd < i32_MAX" "fi_curfd it = fd + 1"
  shows "runs (close_rest cfg os fd it) w (\<lambda>_ w'. keeps_statics release osreldate w w' \<and>
    fdt (kern w') = upd eff_close {fd..} (user_tab it w))"
proof (cases "cfg_closefrom (target cfg)")
  case True
  with assms(3) show ?thesis
    by (auto simp: close_rest_def wp closefrom_fdt only_kern_keeps intro!: runs_conseq [OF FdIter_drop_runs])
next
  case False
  have loop: "runs (bnd (close_fd os fd) (\<lambda>_. for_each (FdIter_next cfg os) (FdIter_drop os) (close_fd os) it)) w1
      (\<lambda>_ w'. keeps_statics release osreldate w w' \<and> fdt (kern w') = upd eff_close {fd..} (user_tab it w))"
    if w1: "iter_ok UNIV it w1" "user_tab it w1 = user_tab it w" "keeps_statics release osreldate w w1" for w1
  proof (rule runs_bndI [OF cv.act_law [OF w1(1) assms(2,3)]], goal_cases)
    case (1 x w2)
    have "{fd + 1..} \<union> {fd} = {fd..}" by auto
    with 1 w1 have u: "upd eff_close {fi_curfd it..} (user_tab it w2) = upd eff_close {fd..} (user_tab it w)"
      by (simp add: upd_upd assms(5))
    show ?case
      by (rule runs_conseq [OF cv.for_each_runs]) (use 1 w1(3) u in \<open>auto intro: keeps_statics_trans\<close>)
  qed
  show ?thesis
  proof (cases "target cfg = Linux \<and> MAY_HAVE_CLOSE_RANGE w")
    case False
    with loop [OF assms(1) refl keeps_statics_refl] \<open>\<not> cfg_closefrom (target cfg)\<close> show ?thesis
      by (auto simp: close_rest_def wp)
  next
    case True
    then have "close_ok cfg osreldate w" by (simp add: close_ok_def)
    note range = try_close_range_runs [OF this disjI1 [OF uint_u32_MAX(2)]]
    have "runs (bnd (try_close_range cfg os (as_c_uint fd) u32_MAX) (\<lambda>r. case r of
          Ok _ \<Rightarrow> FdIter_drop os it
        | Err _ \<Rightarrow> bnd (close_fd os fd) (\<lambda>_. for_each (FdIter_next cfg os) (FdIter_drop os) (close_fd os) it))) w
      (\<lambda>_ w'. keeps_statics release osreldate w w' \<and> fdt (kern w') = upd eff_close {fd..} (user_tab it w))"
    proof (rule runs_bndI [OF range], goal_cases)
      case (1 r w1)
      show ?case
      proof (cases r)
        case (Err e)
        with 1 assms(1) show ?thesis by (simp add: loop)
      next
        case (Ok u)
        with 1 assms(3,4) have "fdt (kern w1) = upd eff_close {fd..} (fdt (kern w))"
          by (simp add: uint_u32_MAX uint_as_c_uint upd_to_u32_MAX)
        then have "user_tab it w1 = upd eff_close {fd..} (user_tab it w)" by (auto simp: utab_def upd_apply)
        with 1 Ok show ?thesis
          by (auto intro!: runs_conseq [OF FdIter_drop_runs] intro: keeps_statics_trans only_kern_keeps)
      qed
    qed
    with True False show ?thesis by (simp add: close_rest_def wp)
  qed
qed

end

sublocale fd_kernel < cs: fd_sweeper "FdIter_next cfg os" "FdIter_drop os" "\<lambda>Q it w. iter_ok Q it w"
  "\<lambda>it w. user_tab it w" "\<lambda>w. fdt (kern w)" fi_curfd priv fi_possible "keeps_statics release osreldate" "\<lambda>_. True"
  "close_fd os" eff_close "close_rest cfg os"
proof (unfold_locales, goal_cases)
  case (1 it w fd)
  then have "fd < i32_MAX" by (simp add: it_inv_def fd_inv_def)
  from close_rest_runs [OF 1(1-3) this 1(4)] show ?case by simp
qed

context fd_kernel
begin

text \<open>The shortcut has closed everything, or it has failed having closed only what is to be closed.\<close>

lemma close_fds_shortcut_runs:
  assumes "statics_ok release osreldate w" "0 \<le> m" "m \<le> i32_MAX" "srt \<longrightarrow> sorted fds"
    "\<forall>fd\<in>set fds. keepable cfg fd \<and> fd \<le> mx" "srt \<and> m \<le> mx \<longrightarrow> fds \<noteq> []"
  shows "runs (close_fds_shortcut cfg os m fds mx srt) w (\<lambda>r w'. statics_ok release osreldate w' \<and>
    (\<exists>S \<subseteq> {m..} - set fds. fdt (kern w') = upd eff_close S (fdt (kern w)) \<and>
      (r = Ok () \<longrightarrow> fdt (kern w') = upd eff_close ({m..} - set fds) (fdt (kern w)))))"
    (is "runs _ _ ?Q")
proof -
  have all: "{m..} - set fds = {m..}" if "mx < m" using that assms(5) by auto
  have range: "runs (apply_range cfg m fds (\<lambda>low high. try_close_range cfg os (as_c_uint low) (as_c_uint high))) w1 ?Q"
    if w1: "close_ok cfg osreldate w1" srt "fdt (kern w1) = fdt (kern w)" "statics_ok release osreldate w1" for w1
  proof -
    have "sorted fds" "\<forall>fd\<in>set fds. in_i32 fd \<and> (fd = i32_MAX \<longrightarrow> \<not> overflow_checks cfg \<and> \<not> debug_assertions cfg)"
      using assms(4,5) w1(2) by (simp_all add: keepable_def)
    from rc.apply_range_runs [OF w1(1) this assms(2,3)] show ?thesis
    proof (rule runs_conseq, goal_cases)
      case (1 r w2)
      then obtain S where S: "S \<subseteq> {m..i32_MAX} - set fds" "fdt (kern w2) = upd eff_close S (fdt (kern w))"
        "r = Ok () \<longrightarrow> S = {m..i32_MAX} - set fds" unfolding w1(3) by blast
      moreover have "S \<subseteq> {m..} - set fds" using S(1) by auto
      moreover have "statics_ok release osreldate w2" using 1 w1(4) by (simp add: keeps_statics_def)
      ultimately show ?case by (auto simp: upd_to_i32_MAX)
    qed
  qed
  consider (bsd) "cfg_closefrom (target cfg)" "mx < m" | (linux) "target cfg = Linux"
    | (freebsd) "target cfg = Freebsd" "m \<le> mx" "srt" | (none) "target cfg \<noteq> Linux" "\<not> (cfg_closefrom (target cfg) \<and> mx < m)" "target cfg = Freebsd \<longrightarrow> \<not> srt"
    by (cases "target cfg"; cases "mx < m"; cases srt) (auto simp: cfg_closefrom_def)
  then show ?thesis
  proof cases
    case bsd
    with assms all show ?thesis
      by (auto simp: close_fds_shortcut_def wp closefrom_fdt statics_upd intro!: exI [of _ "{m..}"])
  next
    case none
    with assms show ?thesis by (auto simp: close_fds_shortcut_def wp intro!: exI [of _ "{}"])
  next
    case freebsd
    have "runs (bnd (check_has_close_range os) (\<lambda>r. case r of Err _ \<Rightarrow> ret (Err ()) | Ok _ \<Rightarrow>
        apply_range cfg m fds (\<lambda>low high. try_close_range cfg os (as_c_uint low) (as_c_uint high)))) w ?Q"
    proof (rule runs_bndI [OF check_has_close_range_runs [OF assms(1)]], goal_cases)
      case (1 r w1)
      show ?case
      proof (cases r)
        case (Err e)
        with 1 show ?thesis by (auto simp: wp intro!: exI [of _ "{}"])
      next
        case (Ok u)
        with 1 freebsd(1) have "close_ok cfg osreldate w1" by (simp add: close_ok_def)
        with Ok range freebsd(3) 1 show ?thesis by simp
      qed
    qed
    with freebsd assms(6) show ?thesis by (simp add: close_fds_shortcut_def wp)
  next
    case linux
    then have ok: "close_ok cfg osreldate w" by (simp add: close_ok_def)
    have "runs (try_close_range cfg os (as_c_uint m) u32_MAX) w ?Q" if "mx < m"
    proof (rule runs_conseq [OF try_close_range_runs [OF ok disjI1 [OF uint_u32_MAX(2)]]], goal_cases)
      case (1 r w')
      with assms(1-3) all [OF that] show ?case
        by (intro conjI exI [of _ "if r = Ok () then {m..} else {}"])
          (auto simp: uint_u32_MAX uint_as_c_uint upd_to_u32_MAX keeps_statics_def split: result.splits)
    qed
    with linux ok assms range [OF ok] show ?thesis
      by (auto simp: close_fds_shortcut_def cfg_closefrom_def wp)
  qed
qed

lemma close_fds_runs:
  assumes "statics_ok release osreldate w" "0 \<le> minfd" "minfd \<le> i32_MAX" "keep_ok cfg minfd keep"
    "reaches cfg open_max dirs_work b (fdt (kern w))"
  shows "runs (close_fds cfg os minfd keep b) w (\<lambda>_ w'. statics_ok release osreldate w' \<and>
    fdt (kern w') = upd eff_close ({minfd..} - set (k_fds keep)) (fdt (kern w)))"
proof -
  obtain fds m where m: "simplify_keep_fds cfg (k_fds keep) (k_sorted keep) minfd = (ret (fds, m) :: ('k world, _) prog)"
    "0 \<le> m" "m \<le> i32_MAX" "{m..} - set fds = {minfd..} - set (k_fds keep)" "k_sorted keep \<longrightarrow> sorted fds"
    "\<forall>fd\<in>set fds. keepable cfg fd \<and> fd \<le> k_max keep" "k_sorted keep \<and> m \<le> k_max keep \<longrightarrow> fds \<noteq> []"
    using simplify_keep [OF assms(4,2,3)] by blast
  let ?b = "possible True b"
  let ?b' = "if cfg_closefrom (target cfg) then threadsafe cfg True ?b else ?b"
  show ?thesis unfolding close_fds_def m(1) bnd_ret prod.case
  proof (rule runs_bndI [OF close_fds_shortcut_runs [OF assms(1) m(2,3,5,6,7)]], goal_cases)
    case (1 r w1)
    then obtain S where S: "S \<subseteq> {m..} - set fds" "fdt (kern w1) = upd eff_close S (fdt (kern w))"
      "statics_ok release osreldate w1" "r = Ok () \<longrightarrow> fdt (kern w1) = upd eff_close ({m..} - set fds) (fdt (kern w))"
      by blast
    have sub: "fdt (kern w1) fd \<noteq> None \<Longrightarrow> fdt (kern w) fd \<noteq> None" for fd
      using S(2) by (simp add: upd_apply split: if_splits)
    have reach: "reaches cfg open_max dirs_work ?b' (fdt (kern w1))"
      by (rule reaches_mono [OF assms(5) sub]) (simp_all add: possible_def threadsafe_def)
    have fin: "upd eff_close ({m..} - set fds) (fdt (kern w1)) = upd eff_close ({m..} - set fds) (fdt (kern w))"
      using S(1,2) by (simp add: upd_upd Un_absorb2)
    show ?case
    proof (cases r)
      case (Ok u)
      with S m(4) show ?thesis by (simp add: wp)
    next
      case (Err e)
      have "runs (bnd (iter_from cfg os ?b' m) (\<lambda>it. loop_m (close_fds_body cfg os (k_max keep) (k_sorted keep)) (fds, it))) w1
        (\<lambda>_ w'. statics_ok release osreldate w' \<and> fdt (kern w') = upd eff_close ({minfd..} - set (k_fds keep)) (fdt (kern w)))"
      proof (rule runs_bndI [OF iter_from_runs [OF S(3) m(3) reach]], goal_cases)
        case (1 it w2)
        then have "iter_ok UNIV it w2" using it_inv_weaken by blast
        then show ?case unfolding close_fds_body_eq
          by (rule runs_conseq [OF cs.sweep_runs]) (use 1 m fin in \<open>auto simp: keeps_statics_def max_absorb1\<close>)
      qed
      with Err show ?thesis by (simp add: Let_def)
    qed
  qed
qed

end

end
