(* ===== verification/Cloexec.thy ===== *)
theory Cloexec
  imports Close
begin

text \<open>
  \<^verbatim>\<open>src/closefds/cloexec.rs\<close>: setting the close-on-exec flag of every descriptor from \<^verbatim>\<open>minfd\<close> on except
  those to keep, with \<^verbatim>\<open>close_range()\<close> and its \<^verbatim>\<open>CLOSE_RANGE_CLOEXEC\<close> flag where Linux has it and by
  iterating otherwise. The loops are instances of the contracts of \<open>Fd_Source\<close>, with another effect.
\<close>

section \<open>Definitions\<close>

definition set_cloexec_range :: "config \<Rightarrow> 'k os \<Rightarrow> c_uint \<Rightarrow> c_uint \<Rightarrow> ('k world, (unit, unit) result) prog" where
  "set_cloexec_range cfg os minfd maxfd =
     bnd (debug_assert (debug_assertions cfg) (minfd \<le> maxfd)) (\<lambda>_.
     bnd (sys (os_syscall3 os (c_SYS_close_range os) minfd maxfd CLOSE_RANGE_CLOEXEC)) (\<lambda>r.
     if r = 0 then ret (Ok ())
     else bnd (modify (\<lambda>w. w\<lparr>MAY_HAVE_CLOSE_RANGE_CLOEXEC := False\<rparr>)) (\<lambda>_. ret (Err ()))))"

definition set_cloexec_shortcut :: "config \<Rightarrow> 'k os \<Rightarrow> c_int \<Rightarrow> c_int list \<Rightarrow> c_int \<Rightarrow> bool \<Rightarrow>
  ('k world, (unit, unit) result) prog" where
  "set_cloexec_shortcut cfg os minfd keep_fds max_keep_fd fds_sorted =
     bnd (gets MAY_HAVE_CLOSE_RANGE_CLOEXEC) (\<lambda>may_have.
     if \<not> may_have then ret (Err ())
     else if max_keep_fd < minfd then set_cloexec_range cfg os (as_c_uint minfd) u32_MAX
     else if fds_sorted then
       apply_range cfg minfd keep_fds (\<lambda>low high. set_cloexec_range cfg os (as_c_uint low) (as_c_uint high))
     else ret (Err ()))"

definition set_cloexec_rest :: "config \<Rightarrow> 'k os \<Rightarrow> c_int \<Rightarrow> FdIter \<Rightarrow> ('k world, unit) prog" where
  "set_cloexec_rest cfg os fd fditer =
     bnd (gets MAY_HAVE_CLOSE_RANGE_CLOEXEC) (\<lambda>may_have.
     bnd (if target cfg = Linux \<and> may_have then set_cloexec_range cfg os (as_c_uint fd) u32_MAX
          else ret (Err ())) (\<lambda>r.
     case r of
       Ok _ \<Rightarrow> FdIter_drop os fditer
     | Err _ \<Rightarrow>
         bnd (set_cloexec os fd) (\<lambda>_.
         for_each (FdIter_next cfg os) (FdIter_drop os) (set_cloexec os) fditer)))"

definition set_fds_cloexec_body :: "config \<Rightarrow> 'k os \<Rightarrow> c_int \<Rightarrow> bool \<Rightarrow> c_int list \<times> FdIter \<Rightarrow>
  ('k world, (c_int list \<times> FdIter, unit) ctl) prog" where
  "set_fds_cloexec_body cfg os max_keep_fd fds_sorted = (\<lambda>(keep_fds, fditer).
     bnd (FdIter_next cfg os fditer) (\<lambda>(r, fditer). case r of
       None \<Rightarrow> bnd (FdIter_drop os fditer) (\<lambda>_. ret (Break ()))
     | Some fd \<Rightarrow>
         if fd > max_keep_fd then bnd (set_cloexec_rest cfg os fd fditer) (\<lambda>_. ret (Break ()))
         else (case check_should_keep keep_fds fd fds_sorted of (should_keep, keep_fds) \<Rightarrow>
           if \<not> should_keep then bnd (set_cloexec os fd) (\<lambda>_. ret (Continue (keep_fds, fditer)))
           else ret (Continue (keep_fds, fditer)))))"

text \<open>\<^verbatim>\<open>cloexec::set_fds_cloexec\<close>, the function behind the public one of the same name.\<close>

definition set_fds_cloexec_from :: "config \<Rightarrow> 'k os \<Rightarrow> c_int \<Rightarrow> KeepFds \<Rightarrow> FdIterBuilder \<Rightarrow> ('k world, unit) prog" where
  "set_fds_cloexec_from cfg os minfd keep itbuilder =
     bnd (simplify_keep_fds cfg (k_fds keep) (k_sorted keep) minfd) (\<lambda>(keep_fds, minfd).
     bnd (if target cfg = Linux then set_cloexec_shortcut cfg os minfd keep_fds (k_max keep) (k_sorted keep)
          else ret (Err ())) (\<lambda>r.
     case r of
       Ok _ \<Rightarrow> ret ()
     | Err _ \<Rightarrow>
         bnd (iter_from cfg os (possible True itbuilder) minfd) (\<lambda>fditer.
         loop_m (set_fds_cloexec_body cfg os (k_max keep) (k_sorted keep)) (keep_fds, fditer))))"

definition cloexec_probe :: "config \<Rightarrow> 'k os \<Rightarrow> ('k world, unit) prog" where
  "cloexec_probe cfg os =
     (if target cfg = Linux then bnd (set_cloexec_range cfg os u32_MAX u32_MAX) (\<lambda>_. ret ()) else ret ())"

section \<open>Lemmas\<close>

lemma set_fds_cloexec_body_eq:
  "set_fds_cloexec_body cfg os =
     sweep_body (FdIter_next cfg os) (FdIter_drop os) (set_cloexec os) (set_cloexec_rest cfg os)"
  by (intro ext) (simp add: set_fds_cloexec_body_def sweep_body_def)

lemma dom_upd_cloexec: "dom (upd (eff_cloexec c) S T) = dom T"
  by (auto simp: upd_apply eff_cloexec_def split: if_splits)

section \<open>The contract\<close>

text \<open>
  What the functions of this file rely on: an iterator with the visitor \<^verbatim>\<open>set_cloexec\<close>, a way to start it, and
  \<^verbatim>\<open>close_range()\<close> with \<^verbatim>\<open>CLOSE_RANGE_CLOEXEC\<close>, which may be called while an iterator exists or none does (\<open>idle\<close>).
  \<open>ready b w\<close> says that an iterator built with \<open>b\<close> reaches every descriptor.
\<close>

locale cloexec_kernel = fd_visitor "FdIter_next cfg os" "FdIter_drop os" inv tab raw fi_curfd priv fi_possible frame idle
    "set_cloexec os" "eff_cloexec (c_FD_CLOEXEC os)"
  for cfg :: config and os :: "'k os" and inv :: "int set \<Rightarrow> FdIter \<Rightarrow> 'k world \<Rightarrow> bool"
    and tab :: "FdIter \<Rightarrow> 'k world \<Rightarrow> fd_table" and raw :: "'k world \<Rightarrow> fd_table"
    and frame :: "'k world \<Rightarrow> 'k world \<Rightarrow> bool" and idle :: "'k world \<Rightarrow> bool" +
  fixes ready :: "FdIterBuilder \<Rightarrow> 'k world \<Rightarrow> bool"
  assumes start_law: "idle w \<Longrightarrow> ready b w \<Longrightarrow> 0 \<le> m \<Longrightarrow> m \<le> i32_MAX \<Longrightarrow>
      runs (iter_from cfg os (possible True b) m) w (\<lambda>it w'. frame w w' \<and> inv UNIV it w' \<and> tab it w' = raw w \<and> fi_curfd it = m)"
    and ready_stable: "ready b w \<Longrightarrow> frame w w' \<Longrightarrow> dom (raw w') = dom (raw w) \<Longrightarrow> ready b w'"
    and range_idle: "target cfg = Linux \<Longrightarrow> lo \<le> hi \<or> \<not> debug_assertions cfg \<Longrightarrow> idle w \<Longrightarrow> runs (set_cloexec_range cfg os lo hi) w (\<lambda>r w'.
      frame w w' \<and> idle w' \<and> (hi < lo \<longrightarrow> r = Err ()) \<and> (case r of
        Ok _ \<Rightarrow> raw w' = upd (eff_cloexec (c_FD_CLOEXEC os)) {uint lo..uint hi} (raw w)
      | Err _ \<Rightarrow> raw w' = raw w))"
    and range_busy: "target cfg = Linux \<Longrightarrow> lo \<le> hi \<Longrightarrow> inv UNIV it w \<Longrightarrow> runs (set_cloexec_range cfg os lo hi) w (\<lambda>r w'.
      frame w w' \<and> inv UNIV it w' \<and> (case r of
        Ok _ \<Rightarrow> tab it w' = upd (eff_cloexec (c_FD_CLOEXEC os)) {uint lo..uint hi} (tab it w)
      | Err _ \<Rightarrow> tab it w' = tab it w))"
    and raw_range: "raw w fd \<noteq> None \<Longrightarrow> fd < i32_MAX"
    and tab_range: "tab it w fd \<noteq> None \<Longrightarrow> fd < i32_MAX"

sublocale cloexec_kernel < rx: range_op
  "\<lambda>low high. set_cloexec_range cfg os (as_c_uint low) (as_c_uint high)" raw "eff_cloexec (c_FD_CLOEXEC os)"
  "\<lambda>w. target cfg = Linux \<and> idle w" "\<lambda>w w'. frame w w' \<and> (idle w \<longrightarrow> idle w')" "\<not> debug_assertions cfg"
proof (unfold_locales, goal_cases)
  case (2 w)
  then have w: "target cfg = Linux" "idle w" by simp_all
  from range_idle [OF w(1) disjI2 [OF 2(1)] w(2)] show ?case
    by (rule runs_conseq) (use as_c_uint_inverted in auto)
next
  case (3 w lo hi)
  then have w: "target cfg = Linux" "idle w" by simp_all
  from range_idle [OF w(1) disjI1 [OF as_c_uint_le [OF 3(2,3,4)]] w(2)] show ?case
    by (rule runs_conseq) (use 3 in \<open>auto simp: uint_as_c_uint split: result.splits\<close>)
qed (auto simp: frame_refl intro: frame_trans)

context cloexec_kernel
begin

abbreviation cloexec_eff :: "int option \<Rightarrow> int option" where
  "cloexec_eff \<equiv> eff_cloexec (c_FD_CLOEXEC os)"

lemma upd_all:
  assumes "0 \<le> a" "a \<le> i32_MAX" "\<And>fd. T fd \<noteq> None \<Longrightarrow> fd < i32_MAX"
  shows "upd cloexec_eff {uint (as_c_uint a)..uint (u32_MAX :: c_uint)} T = upd cloexec_eff {a..} T"
  using upd_upto [of cloexec_eff T "uint (u32_MAX :: c_uint)" a "{}"] assms by (simp add: uint_as_c_uint uint_u32_MAX)

lemma set_cloexec_rest_runs:
  assumes "inv UNIV it w" "fd \<notin> priv it" "0 \<le> fd" "fi_curfd it = fd + 1"
  shows "runs (set_cloexec_rest cfg os fd it) w (\<lambda>_ w'. frame w w' \<and> idle w' \<and> raw w' = upd cloexec_eff {fd..} (tab it w))"
proof -
  have max: "fd \<le> i32_MAX" using cur_bounds [OF assms(1)] assms(4) by simp
  have loop: "runs (bnd (set_cloexec os fd) (\<lambda>_. for_each (FdIter_next cfg os) (FdIter_drop os) (set_cloexec os) it)) w1
      (\<lambda>_ w'. frame w w' \<and> idle w' \<and> raw w' = upd cloexec_eff {fd..} (tab it w))"
    if w1: "inv UNIV it w1" "tab it w1 = tab it w" "frame w w1" for w1
  proof (rule runs_bndI [OF act_law [OF w1(1) assms(2,3)]], goal_cases)
    case (1 x w2)
    have "{fd + 1..} \<union> {fd} = {fd..}" by auto
    with 1 w1 have u: "upd cloexec_eff {fi_curfd it..} (tab it w2) = upd cloexec_eff {fd..} (tab it w)"
      by (simp add: upd_upd assms(4))
    show ?case
      by (rule runs_conseq [OF for_each_runs]) (use 1 w1(3) u in \<open>auto intro: frame_trans\<close>)
  qed
  show ?thesis
  proof (cases "target cfg = Linux \<and> MAY_HAVE_CLOSE_RANGE_CLOEXEC w")
    case False
    with loop [OF assms(1) refl frame_refl] show ?thesis by (auto simp: set_cloexec_rest_def wp)
  next
    case True
    note range = range_busy [OF conjunct1 [OF True] uint_u32_MAX(2) assms(1)]
    have "runs (bnd (set_cloexec_range cfg os (as_c_uint fd) u32_MAX) (\<lambda>r. case r of
          Ok _ \<Rightarrow> FdIter_drop os it
        | Err _ \<Rightarrow> bnd (set_cloexec os fd) (\<lambda>_. for_each (FdIter_next cfg os) (FdIter_drop os) (set_cloexec os) it))) w
      (\<lambda>_ w'. frame w w' \<and> idle w' \<and> raw w' = upd cloexec_eff {fd..} (tab it w))"
    proof (rule runs_bndI [OF range], goal_cases)
      case (1 r w1)
      show ?case
      proof (cases r)
        case (Err e)
        with 1 show ?thesis by (simp add: loop)
      next
        case (Ok u)
        with 1 have w1: "inv UNIV it w1" "frame w w1" "tab it w1 = upd cloexec_eff {fd..} (tab it w)"
          using upd_all [OF assms(3) max tab_range] by simp_all
        with Ok show ?thesis by (auto intro!: runs_conseq [OF drp_law [OF w1(1)]] intro: frame_trans)
      qed
    qed
    with True show ?thesis by (simp add: set_cloexec_rest_def wp)
  qed
qed

end

sublocale cloexec_kernel < xs: fd_sweeper "FdIter_next cfg os" "FdIter_drop os" inv tab raw fi_curfd priv fi_possible frame idle
  "set_cloexec os" "eff_cloexec (c_FD_CLOEXEC os)" "set_cloexec_rest cfg os"
  by unfold_locales (rule set_cloexec_rest_runs)

context cloexec_kernel
begin

lemma set_cloexec_shortcut_runs:
  assumes "target cfg = Linux" "idle w" "0 \<le> m" "m \<le> i32_MAX" "srt \<longrightarrow> sorted fds"
    "\<forall>fd\<in>set fds. keepable cfg fd \<and> fd \<le> mx"
  shows "runs (set_cloexec_shortcut cfg os m fds mx srt) w (\<lambda>r w'. frame w w' \<and> idle w' \<and>
    (\<exists>S \<subseteq> {m..} - set fds. raw w' = upd cloexec_eff S (raw w) \<and>
      (r = Ok () \<longrightarrow> raw w' = upd cloexec_eff ({m..} - set fds) (raw w))))"
    (is "runs _ _ ?Q")
proof -
  have "runs (apply_range cfg m fds (\<lambda>low high. set_cloexec_range cfg os (as_c_uint low) (as_c_uint high))) w ?Q" if srt
  proof -
    have "sorted fds" "\<forall>fd\<in>set fds. in_i32 fd \<and> (fd = i32_MAX \<longrightarrow> \<not> overflow_checks cfg \<and> \<not> debug_assertions cfg)"
      using assms(5,6) that by (simp_all add: keepable_def)
    from rx.apply_range_runs [OF conjI [OF assms(1,2)] this assms(3,4)] show ?thesis
    proof (rule runs_conseq, goal_cases)
      case (1 r w2)
      then obtain S where S: "S \<subseteq> {m..i32_MAX} - set fds" "raw w2 = upd cloexec_eff S (raw w)"
        "r = Ok () \<longrightarrow> S = {m..i32_MAX} - set fds" by blast
      moreover have "S \<subseteq> {m..} - set fds" using S(1) by auto
      ultimately show ?case using 1 assms(2) upd_upto [of cloexec_eff "raw w" i32_MAX m "set fds", OF _ raw_range]
        by (intro conjI exI [of _ S]) auto
    qed
  qed
  moreover have "runs (set_cloexec_range cfg os (as_c_uint m) u32_MAX) w ?Q" if "mx < m"
  proof (rule runs_conseq [OF range_idle [OF assms(1) disjI1 [OF uint_u32_MAX(2)] assms(2)]], goal_cases)
    case (1 r w')
    have "{m..} - set fds = {m..}" using that assms(6) by auto
    with 1 upd_all [OF assms(3,4) raw_range] show ?case
      by (intro conjI exI [of _ "if r = Ok () then {m..} else {}"]) (auto split: result.splits)
  qed
  ultimately show ?thesis using assms(2)
    by (auto simp: set_cloexec_shortcut_def wp frame_refl intro!: exI [of _ "{}"])
qed

lemma set_fds_cloexec_from_runs:
  assumes "idle w" "ready b w" "0 \<le> minfd" "minfd \<le> i32_MAX" "keep_ok cfg minfd keep"
  shows "runs (set_fds_cloexec_from cfg os minfd keep b) w (\<lambda>_ w'. frame w w' \<and> idle w' \<and>
    raw w' = upd cloexec_eff ({minfd..} - set (k_fds keep)) (raw w))"
proof -
  obtain fds m where m: "simplify_keep_fds cfg (k_fds keep) (k_sorted keep) minfd = (ret (fds, m) :: ('k world, _) prog)"
    "0 \<le> m" "m \<le> i32_MAX" "{m..} - set fds = {minfd..} - set (k_fds keep)" "k_sorted keep \<longrightarrow> sorted fds"
    "\<forall>fd\<in>set fds. keepable cfg fd \<and> fd \<le> k_max keep" "k_sorted keep \<and> m \<le> k_max keep \<longrightarrow> fds \<noteq> []"
    using simplify_keep [OF assms(5,3,4)] by blast
  have short: "runs (if target cfg = Linux then set_cloexec_shortcut cfg os m fds (k_max keep) (k_sorted keep)
      else ret (Err ())) w (\<lambda>r w'. frame w w' \<and> idle w' \<and>
    (\<exists>S \<subseteq> {m..} - set fds. raw w' = upd cloexec_eff S (raw w) \<and>
      (r = Ok () \<longrightarrow> raw w' = upd cloexec_eff ({m..} - set fds) (raw w))))"
    using set_cloexec_shortcut_runs [OF _ assms(1) m(2,3,5,6)] assms(1)
    by (auto simp: wp frame_refl intro!: exI [of _ "{}"])
  show ?thesis unfolding set_fds_cloexec_from_def m(1) bnd_ret prod.case
  proof (rule runs_bndI [OF short], goal_cases)
    case (1 r w1)
    then obtain S where S: "S \<subseteq> {m..} - set fds" "raw w1 = upd cloexec_eff S (raw w)"
      "frame w w1" "idle w1" "r = Ok () \<longrightarrow> raw w1 = upd cloexec_eff ({m..} - set fds) (raw w)"
      by blast
    have "dom (raw w1) = dom (raw w)" unfolding S(2) by (rule dom_upd_cloexec)
    with assms(2) S(3) have ready: "ready b w1" by (rule ready_stable)
    have fin: "upd cloexec_eff ({m..} - set fds) (raw w1) = upd cloexec_eff ({m..} - set fds) (raw w)"
      using S(1,2) by (simp add: upd_upd Un_absorb2)
    show ?case
    proof (cases r)
      case (Ok u)
      with S m(4) show ?thesis by (simp add: wp)
    next
      case (Err e)
      have "runs (bnd (iter_from cfg os (possible True b) m)
          (\<lambda>it. loop_m (set_fds_cloexec_body cfg os (k_max keep) (k_sorted keep)) (fds, it))) w1
        (\<lambda>_ w'. frame w w' \<and> idle w' \<and> raw w' = upd cloexec_eff ({minfd..} - set (k_fds keep)) (raw w))"
      proof (rule runs_bndI [OF start_law [OF S(4) ready m(2,3)]], goal_cases)
        case (1 it w2)
        then have "inv UNIV it w2" "frame w w2" using S(3) by (blast intro: frame_trans)+
        then show ?case unfolding set_fds_cloexec_body_eq
          by (intro runs_conseq [OF xs.sweep_runs]) (use 1 m fin in \<open>auto intro: frame_trans\<close>)
      qed
      with Err show ?thesis by simp
    qed
  qed
qed

end

section \<open>One thread\<close>

context fd_kernel
begin

lemma set_cloexec_runs:
  "runs (set_cloexec os fd) w (\<lambda>_ w'. only_kern w w' \<and> fdt (kern w') = upd (eff_cloexec (c_FD_CLOEXEC os)) {fd} (fdt (kern w)) \<and>
    dirs (kern w') = dirs (kern w))"
proof (cases "fdt (kern w) fd")
  case None
  then show ?thesis by (auto simp: set_cloexec_def wp getfd_ret getfd_fdt getfd_dirs upd_def)
next
  case (Some fl)
  then have "0 \<le> fl" by (rule fd_flags)
  have eq: "upd (eff_cloexec (c_FD_CLOEXEC os)) {fd} (fdt (kern w)) = (fdt (kern w))(fd := Some (fl OR c_FD_CLOEXEC os))"
    using Some by (auto simp: upd_def)
  show ?thesis
  proof (cases "fl AND c_FD_CLOEXEC os = c_FD_CLOEXEC os")
    case True
    then have "fl OR c_FD_CLOEXEC os = fl" by (rule or_absorb_flags)
    with True Some eq show ?thesis by (auto simp: set_cloexec_def wp getfd_ret getfd_fdt getfd_dirs)
  next
    case False
    have "0 \<le> fl OR c_FD_CLOEXEC os" using \<open>0 \<le> fl\<close> cloexec_pos by simp
    with False Some \<open>0 \<le> fl\<close> show ?thesis unfolding eq
      by (simp add: set_cloexec_def wp getfd_ret getfd_fdt getfd_dirs setfd_fdt setfd_dirs)
  qed
qed

lemma range_cloexec_any:
  assumes "target cfg = Linux" "os_syscall3 os (c_SYS_close_range os) lo hi CLOSE_RANGE_CLOEXEC k = (r, k')"
  shows "fdt k' = (if r = 0 then upd (eff_cloexec (c_FD_CLOEXEC os)) {uint lo..uint hi} (fdt k) else fdt k) \<and>
    dirs k' = dirs k \<and> (hi < lo \<longrightarrow> r \<noteq> 0)"
proof (cases "lo \<le> hi")
  case True
  with close_range_cloexec_law [OF assms(1) _ assms(2)] show ?thesis by (simp add: word_le_def word_less_def)
next
  case False
  with close_range_inval [of hi lo CLOSE_RANGE_CLOEXEC k r k'] assms show ?thesis
    by (simp add: word_le_def close_range_nr_def not_le)
qed

lemma set_cloexec_range_runs:
  assumes "target cfg = Linux" "lo \<le> hi \<or> \<not> debug_assertions cfg"
  shows "runs (set_cloexec_range cfg os lo hi) w (\<lambda>r w'. keeps_statics release osreldate w w' \<and> (hi < lo \<longrightarrow> r = Err ()) \<and>
    dirs (kern w') = dirs (kern w) \<and> (case r of
      Ok _ \<Rightarrow> fdt (kern w') = upd (eff_cloexec (c_FD_CLOEXEC os)) {uint lo..uint hi} (fdt (kern w))
    | Err _ \<Rightarrow> fdt (kern w') = fdt (kern w)))"
proof -
  obtain r k where k: "os_syscall3 os (c_SYS_close_range os) lo hi CLOSE_RANGE_CLOEXEC (kern w) = (r, k)" by fastforce
  have law: "fdt k = (if r = 0 then upd (eff_cloexec (c_FD_CLOEXEC os)) {uint lo..uint hi} (fdt (kern w)) else fdt (kern w))"
    "dirs k = dirs (kern w)" "hi < lo \<Longrightarrow> r \<noteq> 0"
    using range_cloexec_any [OF assms(1) k] by simp_all
  with k assms show ?thesis
    by (auto simp: set_cloexec_range_def wp keeps_statics_def statics_ok_def)
qed

end

text \<open>Setting flags does not disturb an iterator.\<close>

lemma it_inv_cloexec:
  assumes "it_inv Q cfg open_max dirs_work T D it" "T' = upd (eff_cloexec c) S T"
  shows "it_inv Q cfg open_max dirs_work T' D it" "utab T' it = upd (eff_cloexec c) S (utab T it)"
proof -
  show u: "utab T' it = upd (eff_cloexec c) S (utab T it)" unfolding assms(2) by (auto simp: utab_def upd_apply)
  have "dom T' = dom T" "dom (utab T' it) = dom (utab T it)"
    unfolding u by (simp_all add: assms(2) dom_upd_cloexec)
  with assms(1) show "it_inv Q cfg open_max dirs_work T' D it" by (simp add: it_inv_def)
qed

sublocale fd_kernel < xk: cloexec_kernel cfg os "\<lambda>Q it w. iter_ok Q it w" "\<lambda>it w. user_tab it w" "\<lambda>w. fdt (kern w)"
  "keeps_statics release osreldate" "\<lambda>_. True"
  "\<lambda>b w. statics_ok release osreldate w \<and> reaches cfg open_max dirs_work b (fdt (kern w))"
proof (unfold_locales, goal_cases)
  case (3 it w fd)
  show ?case
    by (rule runs_conseq [OF set_cloexec_runs]) (use it_inv_cloexec [OF 3(1)] in \<open>auto simp: only_kern_keeps\<close>)
next
  case (4 w b m)
  then have "reaches cfg open_max dirs_work (possible True b) (fdt (kern w))" by (auto simp: reaches_def possible_def)
  with 4 show ?case
    by (intro runs_conseq [OF iter_from_runs]) (auto simp: keeps_statics_def intro: it_inv_weaken)
next
  case (5 b w w')
  have "fdt (kern w') fd \<noteq> None \<Longrightarrow> fdt (kern w) fd \<noteq> None" for fd using 5(3) by blast
  from reaches_mono [OF conjunct2 [OF 5(1)] this refl] 5(1,2) show ?case by (simp add: keeps_statics_def)
next
  case (6 lo hi w)
  show ?case by (rule runs_conseq [OF set_cloexec_range_runs [OF 6(1,2)]]) (simp split: result.splits)
next
  case (7 lo hi it w)
  show ?case
    by (rule runs_conseq [OF set_cloexec_range_runs [OF 7(1) disjI1 [OF 7(2)]]]) (use 7(3) it_inv_cloexec [OF 7(3)] in \<open>auto split: result.splits\<close>)
next
  case (8 w fd)
  then show ?case by (auto dest: fd_range)
next
  case (9 it w fd)
  then show ?case by (auto simp: utab_def upd_apply dest: fd_range split: if_splits)
qed simp_all

end
