(* ===== verification/Close_Fds.thy ===== *)
theory Close_Fds
  imports Cloexec
begin

text \<open>
  The public interface of the crate for closing descriptors: \<^verbatim>\<open>CloseFdsBuilder\<close> and the free functions
  of \<^verbatim>\<open>src/closefds/mod.rs\<close>, and \<^verbatim>\<open>probe_features\<close> of \<^verbatim>\<open>src/lib.rs\<close>. The lemmas carry the results of
  \<open>Close\<close> and \<open>Cloexec\<close> over to it.
\<close>

section \<open>Definitions\<close>

record CloseFdsBuilder =
  cb_keep_fds :: KeepFds
  cb_it :: FdIterBuilder

definition CloseFdsBuilder_new :: CloseFdsBuilder where
  "CloseFdsBuilder_new = \<lparr>cb_keep_fds = KeepFds_empty, cb_it = FdIterBuilder_new\<rparr>"

definition CloseFdsBuilder_default :: CloseFdsBuilder where
  "CloseFdsBuilder_default = CloseFdsBuilder_new"

definition keep_fds :: "config \<Rightarrow> c_int list \<Rightarrow> CloseFdsBuilder \<Rightarrow> ('s, CloseFdsBuilder) prog" where
  "keep_fds cfg fds b = bnd (KeepFds_new cfg fds) (\<lambda>k. ret (b\<lparr>cb_keep_fds := k\<rparr>))"

definition keep_fds_sorted :: "c_int list \<Rightarrow> CloseFdsBuilder \<Rightarrow> CloseFdsBuilder" where
  "keep_fds_sorted fds b = b\<lparr>cb_keep_fds := KeepFds_new_sorted fds\<rparr>"

definition cb_threadsafe :: "config \<Rightarrow> bool \<Rightarrow> CloseFdsBuilder \<Rightarrow> CloseFdsBuilder" where
  "cb_threadsafe cfg t b = b\<lparr>cb_it := threadsafe cfg t (cb_it b)\<rparr>"

definition cb_allow_filesystem :: "config \<Rightarrow> bool \<Rightarrow> CloseFdsBuilder \<Rightarrow> CloseFdsBuilder" where
  "cb_allow_filesystem cfg fs b = b\<lparr>cb_it := allow_filesystem cfg fs (cb_it b)\<rparr>"

definition cloexecfrom :: "config \<Rightarrow> 'k os \<Rightarrow> CloseFdsBuilder \<Rightarrow> c_int \<Rightarrow> ('k world, unit) prog" where
  "cloexecfrom cfg os b minfd = set_fds_cloexec_from cfg os (max minfd 0) (cb_keep_fds b) (cb_it b)"

definition closefrom :: "config \<Rightarrow> 'k os \<Rightarrow> CloseFdsBuilder \<Rightarrow> c_int \<Rightarrow> ('k world, unit) prog" where
  "closefrom cfg os b minfd = close_fds cfg os (max minfd 0) (cb_keep_fds b) (cb_it b)"

definition set_fds_cloexec :: "config \<Rightarrow> 'k os \<Rightarrow> c_int \<Rightarrow> c_int list \<Rightarrow> ('k world, unit) prog" where
  "set_fds_cloexec cfg os minfd fds =
     bnd (keep_fds cfg fds CloseFdsBuilder_new) (\<lambda>b. cloexecfrom cfg os b minfd)"

definition set_fds_cloexec_threadsafe :: "config \<Rightarrow> 'k os \<Rightarrow> c_int \<Rightarrow> c_int list \<Rightarrow> ('k world, unit) prog" where
  "set_fds_cloexec_threadsafe cfg os minfd fds =
     bnd (keep_fds cfg fds CloseFdsBuilder_new) (\<lambda>b. cloexecfrom cfg os (cb_threadsafe cfg True b) minfd)"

definition close_open_fds :: "config \<Rightarrow> 'k os \<Rightarrow> c_int \<Rightarrow> c_int list \<Rightarrow> ('k world, unit) prog" where
  "close_open_fds cfg os minfd fds =
     bnd (keep_fds cfg fds CloseFdsBuilder_new) (\<lambda>b. closefrom cfg os b minfd)"

definition closefds_probe :: "config \<Rightarrow> 'k os \<Rightarrow> ('k world, unit) prog" where
  "closefds_probe cfg os = bnd (close_probe cfg os) (\<lambda>_. cloexec_probe cfg os)"

definition probe_features_imp :: "config \<Rightarrow> 'k os \<Rightarrow> ('k world, unit) prog" where
  "probe_features_imp cfg os =
     (if target cfg \<in> {Linux, Freebsd} then
        bnd (gets PROBED) (\<lambda>probed.
        if probed then ret ()
        else bnd (modify (\<lambda>w. w\<lparr>PROBED := True\<rparr>)) (\<lambda>_.
             bnd (closefds_probe cfg os) (\<lambda>_. iterfds_probe cfg os)))
      else ret ())"

definition probe_features :: "config \<Rightarrow> 'k os \<Rightarrow> ('k world, unit) prog" where
  "probe_features cfg os = probe_features_imp cfg os"

section \<open>Builders\<close>

text \<open>What the caller of \<^verbatim>\<open>keep_fds\<close> has to provide: \<^verbatim>\<open>i32\<close> values, with \<^verbatim>\<open>i32::MAX\<close> among them only in a build without overflow checks and
  debug assertions, and not every number from \<^verbatim>\<open>minfd\<close> to \<^verbatim>\<open>i32::MAX\<close>.\<close>

definition keep_arg :: "config \<Rightarrow> c_int \<Rightarrow> c_int list \<Rightarrow> bool" where
  "keep_arg cfg minfd fds \<longleftrightarrow> (\<forall>fd\<in>set fds. keepable cfg fd) \<and> \<not> {max minfd 0..i32_MAX} \<subseteq> set fds"

lemma keep_argI:
  assumes "\<forall>fd\<in>set fds. in_i32 fd \<and> fd < i32_MAX" "minfd \<le> i32_MAX"
  shows "keep_arg cfg minfd fds"
proof -
  have "i32_MAX \<notin> set fds" using assms(1) by blast
  then have "\<not> {max minfd 0..i32_MAX} \<subseteq> set fds" using assms(2) by (intro has_other [of _ i32_MAX]) simp_all
  with assms(1) show ?thesis by (auto simp: keep_arg_def keepable_def)
qed

lemma keep_fds_ret:
  assumes "keep_arg cfg minfd fds"
  obtains k where "keep_fds cfg fds b = (ret (b\<lparr>cb_keep_fds := k\<rparr>) :: ('s, CloseFdsBuilder) prog)" "keep_ok cfg (max minfd 0) k" "k_fds k = fds"
proof -
  obtain k where "KeepFds_new cfg fds = (ret k :: ('s, KeepFds) prog)" "keep_ok cfg (max minfd 0) k" "k_fds k = fds"
    using keep_ok_new assms unfolding keep_arg_def by blast
  then show ?thesis by (intro that [of k]) (simp_all add: keep_fds_def)
qed

lemma b_dirfd_threadsafe [simp]: "b_dirfd (threadsafe cfg t b) = b_dirfd b"
  by (simp add: threadsafe_def)

lemma reaches_new:
  "reaches cfg open_max dirs_work b T \<Longrightarrow> reaches cfg open_max dirs_work (threadsafe cfg t b) T"
  by (rule reaches_mono) simp_all

context cloexec_kernel
begin

lemma set_fds_cloexec_api:
  assumes "idle w"
  shows "ready FdIterBuilder_new w \<Longrightarrow> minfd \<le> i32_MAX \<Longrightarrow> keep_arg cfg minfd fds \<Longrightarrow>
      runs (set_fds_cloexec cfg os minfd fds) w (\<lambda>_ w'. frame w w' \<and> idle w' \<and> raw w' = upd cloexec_eff ({max minfd 0..} - set fds) (raw w))"
    and "ready (threadsafe cfg True FdIterBuilder_new) w \<Longrightarrow> minfd \<le> i32_MAX \<Longrightarrow> keep_arg cfg minfd fds \<Longrightarrow>
      runs (set_fds_cloexec_threadsafe cfg os minfd fds) w (\<lambda>_ w'. frame w w' \<and> idle w' \<and> raw w' = upd cloexec_eff ({max minfd 0..} - set fds) (raw w))"
proof -
  have run: "runs (cloexecfrom cfg os b minfd) w (\<lambda>_ w'. frame w w' \<and> idle w' \<and> raw w' = upd cloexec_eff ({max minfd 0..} - set fds) (raw w))"
    if "ready (cb_it b) w" "minfd \<le> i32_MAX" "keep_ok cfg (max minfd 0) (cb_keep_fds b)" "k_fds (cb_keep_fds b) = fds" for b
    using set_fds_cloexec_from_runs [OF assms that(1), of "max minfd 0" "cb_keep_fds b"] that by (simp add: cloexecfrom_def)
  show "runs (set_fds_cloexec cfg os minfd fds) w (\<lambda>_ w'. frame w w' \<and> idle w' \<and> raw w' = upd cloexec_eff ({max minfd 0..} - set fds) (raw w))"
    if p: "ready FdIterBuilder_new w" "minfd \<le> i32_MAX" "keep_arg cfg minfd fds"
  proof -
    obtain k where "keep_fds cfg fds CloseFdsBuilder_new = (ret (CloseFdsBuilder_new\<lparr>cb_keep_fds := k\<rparr>) :: ('k world, _) prog)"
      "keep_ok cfg (max minfd 0) k" "k_fds k = fds" using keep_fds_ret [OF p(3)] by blast
    with run p show ?thesis by (simp add: set_fds_cloexec_def CloseFdsBuilder_new_def)
  qed
  show "runs (set_fds_cloexec_threadsafe cfg os minfd fds) w (\<lambda>_ w'. frame w w' \<and> idle w' \<and> raw w' = upd cloexec_eff ({max minfd 0..} - set fds) (raw w))"
    if p: "ready (threadsafe cfg True FdIterBuilder_new) w" "minfd \<le> i32_MAX" "keep_arg cfg minfd fds"
  proof -
    obtain k where "keep_fds cfg fds CloseFdsBuilder_new = (ret (CloseFdsBuilder_new\<lparr>cb_keep_fds := k\<rparr>) :: ('k world, _) prog)"
      "keep_ok cfg (max minfd 0) k" "k_fds k = fds" using keep_fds_ret [OF p(3)] by blast
    with run p show ?thesis by (simp add: set_fds_cloexec_threadsafe_def cb_threadsafe_def CloseFdsBuilder_new_def)
  qed
qed

end

context fd_kernel
begin

lemma closefrom_runs:
  assumes "statics_ok release osreldate w" "minfd \<le> i32_MAX" "keep_ok cfg (max minfd 0) (cb_keep_fds b)"
    "reaches cfg open_max dirs_work (cb_it b) (fdt (kern w))"
  shows "runs (closefrom cfg os b minfd) w (\<lambda>_ w'. statics_ok release osreldate w' \<and>
    fdt (kern w') = upd eff_close ({max minfd 0..} - set (k_fds (cb_keep_fds b))) (fdt (kern w)))"
  unfolding closefrom_def by (rule close_fds_runs) (use assms in simp_all)

lemma close_open_fds_runs:
  assumes "statics_ok release osreldate w" "minfd \<le> i32_MAX" "keep_arg cfg minfd fds"
    "reaches cfg open_max dirs_work FdIterBuilder_new (fdt (kern w))"
  shows "runs (close_open_fds cfg os minfd fds) w (\<lambda>_ w'. statics_ok release osreldate w' \<and>
    fdt (kern w') = upd eff_close ({max minfd 0..} - set fds) (fdt (kern w)))"
proof -
  obtain k where k: "keep_fds cfg fds CloseFdsBuilder_new = (ret (CloseFdsBuilder_new\<lparr>cb_keep_fds := k\<rparr>) :: ('k world, _) prog)"
    "keep_ok cfg (max minfd 0) k" "k_fds k = fds" using keep_fds_ret [OF assms(3)] by blast
  have "runs (closefrom cfg os (CloseFdsBuilder_new\<lparr>cb_keep_fds := k\<rparr>) minfd) w (\<lambda>_ w'. statics_ok release osreldate w' \<and>
    fdt (kern w') = upd eff_close ({max minfd 0..} - set (k_fds (cb_keep_fds (CloseFdsBuilder_new\<lparr>cb_keep_fds := k\<rparr>)))) (fdt (kern w)))"
    by (rule closefrom_runs) (use assms k in \<open>simp_all add: CloseFdsBuilder_new_def\<close>)
  with k show ?thesis by (simp add: close_open_fds_def)
qed

lemma set_fds_cloexec_runs:
  assumes "statics_ok release osreldate w" "minfd \<le> i32_MAX" "keep_arg cfg minfd fds"
    "reaches cfg open_max dirs_work FdIterBuilder_new (fdt (kern w))"
    "f \<in> {set_fds_cloexec, set_fds_cloexec_threadsafe}"
  shows "runs (f cfg os minfd fds) w (\<lambda>_ w'. statics_ok release osreldate w' \<and>
    fdt (kern w') = upd (eff_cloexec (c_FD_CLOEXEC os)) ({max minfd 0..} - set fds) (fdt (kern w)))"
proof -
  have "statics_ok release osreldate w \<and> reaches cfg open_max dirs_work FdIterBuilder_new (fdt (kern w))"
    "statics_ok release osreldate w \<and> reaches cfg open_max dirs_work (threadsafe cfg True FdIterBuilder_new) (fdt (kern w))"
    using assms(1,4) reaches_new by auto
  note run = xk.set_fds_cloexec_api(1) [OF TrueI this(1) assms(2,3)] xk.set_fds_cloexec_api(2) [OF TrueI this(2) assms(2,3)]
  from assms(5) consider "f = set_fds_cloexec" | "f = set_fds_cloexec_threadsafe" by blast
  then show ?thesis by cases (use run assms(1) in \<open>auto simp: keeps_statics_def elim!: runs_conseq\<close>)
qed

section \<open>Probing\<close>

lemma close_probe_runs:
  assumes "statics_ok release osreldate w"
  shows "runs (close_probe cfg os) w (\<lambda>_ w'. statics_ok release osreldate w' \<and> fdt (kern w') = fdt (kern w))"
proof (cases "target cfg = Linux")
  case True
  obtain r k where k: "os_syscall3 os (c_SYS_close_range os) u32_MAX (u32_MAX - 1) 0 (kern w) = (r, k)" by fastforce
  have "fdt k = fdt (kern w)" using close_range_inval [of "u32_MAX - 1" u32_MAX 0 "kern w"] k True
    by (simp add: uint_u32_MAX close_range_nr_def)
  with True k assms show ?thesis by (simp add: close_probe_def wp statics_ok_def)
next
  case False
  with assms show ?thesis
    by (auto simp: close_probe_def wp intro!: runs_conseq [OF check_has_close_range_runs [OF assms]])
qed

lemma cloexec_probe_runs:
  assumes "statics_ok release osreldate w"
  shows "runs (cloexec_probe cfg os) w (\<lambda>_ w'. statics_ok release osreldate w' \<and> fdt (kern w') = fdt (kern w))"
proof (cases "target cfg = Linux")
  case True
  have none: "upd (eff_cloexec (c_FD_CLOEXEC os)) {4294967295} (fdt (kern w)) = fdt (kern w)"
    using upd_cong_dom [of "eff_cloexec (c_FD_CLOEXEC os)" "fdt (kern w)" "{4294967295}" "{}"] by (force dest!: fd_range)
  from True show ?thesis
    by (auto simp: cloexec_probe_def wp uint_u32_MAX none keeps_statics_def assms split: result.splits
      intro!: runs_conseq [OF set_cloexec_range_runs [OF True disjI1 [OF uint_u32_MAX(2)]]])
qed (simp add: cloexec_probe_def wp assms)

lemma probe_features_runs:
  assumes "statics_ok release osreldate w"
  shows "runs (probe_features cfg os) w (\<lambda>_ w'. statics_ok release osreldate w' \<and> fdt (kern w') = fdt (kern w))"
proof -
  have iter: "runs (iterfds_probe cfg os) w' (\<lambda>_ w''. statics_ok release osreldate w'' \<and> fdt (kern w'') = T)"
    if "statics_ok release osreldate w'" "fdt (kern w') = T" for w' T
    using is_wsl_1_runs [OF that(1)] that by (auto simp: iterfds_probe_def wp intro: runs_conseq)
  have st: "statics_ok release osreldate (w\<lparr>PROBED := True\<rparr>)" using assms by (simp add: statics_ok_def)
  have "runs (bnd (closefds_probe cfg os) (\<lambda>_. iterfds_probe cfg os)) (w\<lparr>PROBED := True\<rparr>)
      (\<lambda>_ w'. statics_ok release osreldate w' \<and> fdt (kern w') = fdt (kern w))"
    unfolding closefds_probe_def bnd_assoc
    by (intro runs_bndI [OF close_probe_runs [OF st]] runs_bndI [OF cloexec_probe_runs]) (auto intro: iter)
  with assms show ?thesis by (simp add: probe_features_def probe_features_imp_def wp)
qed

end

section \<open>Independence of close\_range\<close>

text \<open>What does not go through \<^verbatim>\<open>syscall()\<close> does not depend on it.\<close>

lemma os_fields:
  "os_close (os\<lparr>os_syscall3 := f\<rparr>) = os_close os" "os_open (os\<lparr>os_syscall3 := f\<rparr>) = os_open os"
  "os_stat_dev (os\<lparr>os_syscall3 := f\<rparr>) = os_stat_dev os" "os_fstat_dev (os\<lparr>os_syscall3 := f\<rparr>) = os_fstat_dev os"
  "os_uname_release (os\<lparr>os_syscall3 := f\<rparr>) = os_uname_release os" "os_errno (os\<lparr>os_syscall3 := f\<rparr>) = os_errno os"
  "os_set_errno (os\<lparr>os_syscall3 := f\<rparr>) = os_set_errno os" "os_fcntl_maxfd (os\<lparr>os_syscall3 := f\<rparr>) = os_fcntl_maxfd os"
  "os_fcntl_getfd (os\<lparr>os_syscall3 := f\<rparr>) = os_fcntl_getfd os" "os_fcntl_setfd (os\<lparr>os_syscall3 := f\<rparr>) = os_fcntl_setfd os"
  "os_sysctl (os\<lparr>os_syscall3 := f\<rparr>) = os_sysctl os" "os_getdtablecount (os\<lparr>os_syscall3 := f\<rparr>) = os_getdtablecount os"
  "os_sysconf_open_max (os\<lparr>os_syscall3 := f\<rparr>) = os_sysconf_open_max os" "c_CTL_KERN (os\<lparr>os_syscall3 := f\<rparr>) = c_CTL_KERN os"
  "c_KERN_PROC (os\<lparr>os_syscall3 := f\<rparr>) = c_KERN_PROC os" "c_KERN_OSRELDATE (os\<lparr>os_syscall3 := f\<rparr>) = c_KERN_OSRELDATE os"
  "c_FD_CLOEXEC (os\<lparr>os_syscall3 := f\<rparr>) = c_FD_CLOEXEC os"
  by simp_all

lemma iter_no_syscall3:
  "FdIter_next cfg (os\<lparr>os_syscall3 := f\<rparr>) = FdIter_next cfg os"
  "FdIter_drop (os\<lparr>os_syscall3 := f\<rparr>) = FdIter_drop os"
  "iter_from cfg (os\<lparr>os_syscall3 := f\<rparr>) = iter_from cfg os"
  "close_fd (os\<lparr>os_syscall3 := f\<rparr>) = close_fd os"
  "set_cloexec (os\<lparr>os_syscall3 := f\<rparr>) = set_cloexec os"
  "check_has_close_range (os\<lparr>os_syscall3 := f\<rparr>) = check_has_close_range os"
proof -
  have g: "getdents cfg (os\<lparr>os_syscall3 := f\<rparr>) = getdents cfg os"
    by (intro ext, cases "target cfg") (simp_all add: getdents_def)
  have d: "DirFdIter_drop (os\<lparr>os_syscall3 := f\<rparr>) = DirFdIter_drop os"
    by (rule ext) (simp only: DirFdIter_drop_def os_fields)
  have r: "dir_refill cfg (os\<lparr>os_syscall3 := f\<rparr>) = dir_refill cfg os"
    by (rule ext) (unfold dir_refill_def g os_fields, rule refl)
  have v: "is_fd_valid (os\<lparr>os_syscall3 := f\<rparr>) = is_fd_valid os"
    by (rule ext) (simp only: is_fd_valid_def os_fields)
  have m: "get_maxfd cfg (os\<lparr>os_syscall3 := f\<rparr>) = get_maxfd cfg os"
    by (rule ext) (unfold get_maxfd_def get_maxfd_direct_def maxfd_netbsd_def maxfd_nfds_def get_nfds_def
      nfds_to_maxfd_def nfds_body_def v os_fields, rule refl)
  have s: "scan_body cfg (os\<lparr>os_syscall3 := f\<rparr>) = scan_body cfg os"
    by (intro ext) (unfold scan_body_def v, rule refl)
  show "FdIter_next cfg (os\<lparr>os_syscall3 := f\<rparr>) = FdIter_next cfg os"
    by (rule ext) (unfold FdIter_next_def next_dirfd_def DirFdIter_next_def r d m s, rule refl)
  show "FdIter_drop (os\<lparr>os_syscall3 := f\<rparr>) = FdIter_drop os"
    by (rule ext) (unfold FdIter_drop_def d, rule refl)
  have o: "open_dirfd cfg (os\<lparr>os_syscall3 := f\<rparr>) = open_dirfd cfg os"
    by (unfold open_dirfd_def is_wsl_1_def os_fields, rule refl)
  show "iter_from cfg (os\<lparr>os_syscall3 := f\<rparr>) = iter_from cfg os"
    by (intro ext) (unfold iter_from_def DirFdIter_open_def o, rule refl)
  show "close_fd (os\<lparr>os_syscall3 := f\<rparr>) = close_fd os"
    by (rule ext) (unfold close_fd_def os_fields, rule refl)
  show "set_cloexec (os\<lparr>os_syscall3 := f\<rparr>) = set_cloexec os"
    by (rule ext) (unfold set_cloexec_def os_fields, rule refl)
  show "check_has_close_range (os\<lparr>os_syscall3 := f\<rparr>) = check_has_close_range os"
    by (unfold check_has_close_range_def os_fields, rule refl)
qed

text \<open>The kernel says that it is too old for \<^verbatim>\<open>close_range()\<close>, or does not answer.\<close>

definition old_kernel :: "'k os \<Rightarrow> bool" where
  "old_kernel os \<longleftrightarrow> (\<forall>k. case fst (os_sysctl os [c_CTL_KERN os, c_KERN_OSRELDATE os] k) of (r, v) \<Rightarrow> r \<noteq> 0 \<or> v < 1202000)"

lemma simplify_keep_fds_pure:
  "(\<exists>x. simplify_keep_fds cfg fds srt minfd = (ret x :: ('s, c_int list \<times> c_int) prog)) \<or>
   (\<exists>e. simplify_keep_fds cfg fds srt minfd = (fail e :: ('s, c_int list \<times> c_int) prog))"
proof -
  have "(\<exists>x. simplify_loop cfg fds minfd = (ret x :: ('s, c_int list \<times> c_int) prog)) \<or>
    (\<exists>e. simplify_loop cfg fds minfd = (fail e :: ('s, c_int list \<times> c_int) prog))"
    by (induction fds arbitrary: minfd) (auto simp: add_i32_def norm_i32_def)
  then show ?thesis by (auto simp: simplify_keep_fds_def)
qed

lemma check_old_kernel:
  assumes "old_kernel os" "HAS_CLOSE_RANGE w \<noteq> 1"
  shows "\<exists>w'. check_has_close_range os w = Some (Inr (Err (), w'))"
proof -
  obtain r v k where k: "os_sysctl os [c_CTL_KERN os, c_KERN_OSRELDATE os] (kern w) = ((r, v), k)" by (metis surj_pair)
  with assms(1) have "r \<noteq> 0 \<or> v < 1202000" unfolding old_kernel_def by (metis case_prodD fst_conv)
  with k assms(2) show ?thesis
    by (auto simp: check_has_close_range_def bnd_def gets_def ret_def sys_def modify_def)
qed

lemma shortcut_old_kernel:
  assumes "target cfg = Freebsd" "old_kernel os" "HAS_CLOSE_RANGE w \<noteq> 1"
  shows "close_fds_shortcut cfg (os\<lparr>os_syscall3 := f\<rparr>) m fds mx srt w = close_fds_shortcut cfg os m fds mx srt w"
proof -
  obtain w' where "check_has_close_range os w = Some (Inr (Err (), w'))" using check_old_kernel [OF assms(2,3)] by blast
  with assms(1) show ?thesis
    by (simp add: close_fds_shortcut_def iter_no_syscall3 cfg_closefrom_def bnd_def gets_def debug_assert_def ret_def fail_def)
qed

lemma old_kernel_no_syscall3:
  assumes "target cfg = Freebsd" "old_kernel os" "HAS_CLOSE_RANGE w \<noteq> 1"
  shows "closefrom cfg (os\<lparr>os_syscall3 := f\<rparr>) b minfd w = closefrom cfg os b minfd w \<and>
    cloexecfrom cfg (os\<lparr>os_syscall3 := f\<rparr>) b minfd w = cloexecfrom cfg os b minfd w"
proof
  have rest: "close_rest cfg (os\<lparr>os_syscall3 := f\<rparr>) = close_rest cfg os"
    using assms(1) by (intro ext) (simp add: close_rest_def cfg_closefrom_def iter_no_syscall3)
  then have body: "close_fds_body cfg (os\<lparr>os_syscall3 := f\<rparr>) = close_fds_body cfg os"
    by (simp add: close_fds_body_eq iter_no_syscall3)
  let ?k = "cb_keep_fds b"
  have short: "bnd (close_fds_shortcut cfg (os\<lparr>os_syscall3 := f\<rparr>) m fds mx srt) F w = bnd (close_fds_shortcut cfg os m fds mx srt) F w"
    for m fds mx srt and F :: "(unit, unit) result \<Rightarrow> ('a world, unit) prog"
    by (simp add: bnd_def shortcut_old_kernel [OF assms])
  show "closefrom cfg (os\<lparr>os_syscall3 := f\<rparr>) b minfd w = closefrom cfg os b minfd w"
  proof (cases "\<exists>x. simplify_keep_fds cfg (k_fds ?k) (k_sorted ?k) (max minfd 0) = (ret x :: ('a world, c_int list \<times> c_int) prog)")
    case True
    then obtain fds m where "simplify_keep_fds cfg (k_fds ?k) (k_sorted ?k) (max minfd 0) =
      (ret (fds, m) :: ('a world, c_int list \<times> c_int) prog)" by auto
    then show ?thesis
      by (simp add: closefrom_def close_fds_def body iter_no_syscall3 short)
  next
    case False
    then obtain e where "simplify_keep_fds cfg (k_fds ?k) (k_sorted ?k) (max minfd 0) =
      (fail e :: ('a world, c_int list \<times> c_int) prog)" using simplify_keep_fds_pure by blast
    then show ?thesis by (simp add: closefrom_def close_fds_def)
  qed
  have "set_cloexec_rest cfg (os\<lparr>os_syscall3 := f\<rparr>) = set_cloexec_rest cfg os"
    using assms(1) by (intro ext) (simp add: set_cloexec_rest_def iter_no_syscall3)
  then have "set_fds_cloexec_body cfg (os\<lparr>os_syscall3 := f\<rparr>) = set_fds_cloexec_body cfg os"
    by (simp add: set_fds_cloexec_body_eq iter_no_syscall3)
  then show "cloexecfrom cfg (os\<lparr>os_syscall3 := f\<rparr>) b minfd w = cloexecfrom cfg os b minfd w"
    using assms(1) by (simp add: cloexecfrom_def set_fds_cloexec_from_def iter_no_syscall3)
qed

lemma probe_no_syscall3:
  assumes "target cfg = Freebsd"
  shows "probe_features cfg (os\<lparr>os_syscall3 := f\<rparr>) = probe_features cfg os"
proof -
  have "closefds_probe cfg (os\<lparr>os_syscall3 := f\<rparr>) = closefds_probe cfg os"
    "iterfds_probe cfg (os\<lparr>os_syscall3 := f\<rparr>) = iterfds_probe cfg os"
    using assms by (simp_all add: closefds_probe_def close_probe_def cloexec_probe_def iterfds_probe_def iter_no_syscall3)
  then show ?thesis by (simp only: probe_features_def probe_features_imp_def)
qed

section \<open>Properties\<close>

text \<open>
  C24. On any kernel, \<^verbatim>\<open>probe_features\<close> returns, and once it has been called a second call makes no system
  call and changes nothing.
\<close>

theorem probe_features_once:
  "runs (probe_features cfg os) w (\<lambda>_ w'. \<forall>os'. probe_features cfg os' w' = Some (Inr ((), w')))"
proof -
  have a: "runs (close_probe cfg os) w (\<lambda>_ w'. PROBED w' = PROBED w)" for w
    by (auto simp: close_probe_def check_has_close_range_def wp split: prod.splits)
  have b: "runs (cloexec_probe cfg os) w (\<lambda>_ w'. PROBED w' = PROBED w)" for w
    by (auto simp: cloexec_probe_def set_cloexec_range_def wp)
  have c: "runs (iterfds_probe cfg os) w (\<lambda>_ w'. PROBED w' = PROBED w)" for w
    by (auto simp: iterfds_probe_def is_wsl_1_def wp)
  have "runs (bnd (closefds_probe cfg os) (\<lambda>_. iterfds_probe cfg os)) w (\<lambda>_ w'. PROBED w' = PROBED w)" for w
    unfolding closefds_probe_def bnd_assoc
    by (rule runs_bndI [OF a], rule runs_bndI [OF b], rule runs_conseq [OF c]) simp
  from this [of "w\<lparr>PROBED := True\<rparr>"]
  have "runs (probe_features cfg os) w (\<lambda>_ w'. target cfg \<in> {Linux, Freebsd} \<longrightarrow> PROBED w')"
    by (simp add: probe_features_def probe_features_imp_def wp)
  then show ?thesis
    by (rule runs_conseq) (auto simp: probe_features_def probe_features_imp_def bnd_def gets_def ret_def)
qed

end
