(* ===== verification/Statics.thy ===== *)
theory Statics
  imports Close_Fds
begin

text \<open>
  The crate's static atomics over whole histories of calls. \<open>pres R m\<close> says that whenever \<open>m\<close> returns,
  the worlds before and after are related by \<open>R\<close>; the locale \<open>world_frame\<close> walks once over all the code of
  the crate, for any such relation that the few writes to the atomics respect, and is interpreted four times:
  for \<open>statics_mono\<close> and \<open>stays_old\<close> on any kernel, for \<open>keeps_statics\<close> on the kernels of the contract, and for \<open>keeps_backed\<close> on any
  kernel with a record of its answers. \<open>api_step\<close> is the step relation of a program that uses the crate.
\<close>

section \<open>Programs that respect a relation\<close>

named_theorems pres_intros \<open>introduction rules for \<open>pres\<close>\<close>

definition pres :: "('s \<Rightarrow> 's \<Rightarrow> bool) \<Rightarrow> ('s, 'a) prog \<Rightarrow> bool" where
  "pres R m \<longleftrightarrow> (\<forall>s x s'. m s = Some (Inr (x, s')) \<longrightarrow> R s s')"

text \<open>One step of a program that uses the crate: a call that returns, or anything else that changes the kernel's
  state, as far as \<open>env\<close> allows.\<close>

inductive api_step :: "config \<Rightarrow> 'k os \<Rightarrow> ('k \<Rightarrow> 'k \<Rightarrow> bool) \<Rightarrow> 'k world \<Rightarrow> 'k world \<Rightarrow> bool" for cfg os env where
  closing: "closefrom cfg os b minfd w = Some (Inr (u, w')) \<Longrightarrow> api_step cfg os env w w'"
| cloexec: "cloexecfrom cfg os b minfd w = Some (Inr (u, w')) \<Longrightarrow> api_step cfg os env w w'"
| probing: "probe_features cfg os w = Some (Inr (u, w')) \<Longrightarrow> api_step cfg os env w w'"
| iterate: "iter_from cfg os fb minfd w = Some (Inr (it, w')) \<Longrightarrow> api_step cfg os env w w'"
| advance: "FdIter_next cfg os it w = Some (Inr (r, w')) \<Longrightarrow> api_step cfg os env w w'"
| finish: "FdIter_drop os it w = Some (Inr (u, w')) \<Longrightarrow> api_step cfg os env w w'"
| outside: "env (kern w) k \<Longrightarrow> api_step cfg os env w (w\<lparr>kern := k\<rparr>)"

text \<open>What is known once stays known: a cached answer is never replaced, a feature found missing is never
  tried again, and probing is done at most once.\<close>

definition statics_mono :: "'k world \<Rightarrow> 'k world \<Rightarrow> bool" where
  "statics_mono w w' \<longleftrightarrow>
     (MAY_HAVE_CLOSE_RANGE w' \<longrightarrow> MAY_HAVE_CLOSE_RANGE w) \<and>
     (MAY_HAVE_CLOSE_RANGE_CLOEXEC w' \<longrightarrow> MAY_HAVE_CLOSE_RANGE_CLOEXEC w) \<and>
     (HAS_CLOSE_RANGE w \<in> {0, 1} \<longrightarrow> HAS_CLOSE_RANGE w' = HAS_CLOSE_RANGE w) \<and>
     (IS_WSL1 w \<in> {0, 1} \<longrightarrow> IS_WSL1 w' = IS_WSL1 w) \<and>
     (PROBED w \<longrightarrow> PROBED w')"

lemma presI: "(\<And>s x s'. m s = Some (Inr (x, s')) \<Longrightarrow> R s s') \<Longrightarrow> pres R m"
  by (simp add: pres_def)

lemma presD: "pres R m \<Longrightarrow> m s = Some (Inr (x, s')) \<Longrightarrow> R s s'"
  by (simp add: pres_def)

lemma pres_loop_m:
  assumes refl: "\<And>s. R s s" and trans: "\<And>s t u. R s t \<Longrightarrow> R t u \<Longrightarrow> R s u" and body: "\<And>c. pres R (body c)"
  shows "pres R (loop_m body c)"
proof (rule presI)
  fix s x s' assume run: "loop_m body c s = Some (Inr (x, s'))"
  have "body = body \<longrightarrow> (\<forall>y t. (Inr (x, s') :: fault + _) = Inr (y, t) \<longrightarrow> R s t)"
  proof (rule loop_m.raw_induct [where P = "\<lambda>b c s r. b = body \<longrightarrow> (\<forall>y t. r = Inr (y, t) \<longrightarrow> R s t)", OF _ run],
      intro impI allI)
    fix loop b c s r y t
    assume IH: "\<And>b c s r. loop b c s = Some r \<Longrightarrow> b = body \<longrightarrow> (\<forall>y t. r = Inr (y, t) \<longrightarrow> R s t)"
      and step: "(case b c s of None \<Rightarrow> None | Some (Inl e) \<Rightarrow> Some (Inl e)
        | Some (Inr p) \<Rightarrow> (case fst p of Continue c' \<Rightarrow> loop b c' (snd p) | Break x \<Rightarrow> Some (Inr (x, snd p)))) = Some r"
      and b: "b = body" "r = Inr (y, t)"
    then obtain ct s1 where ct: "body c s = Some (Inr (ct, s1))" by (auto split: option.splits sum.splits)
    then have "R s s1" using body by (blast intro: presD)
    show "R s t"
    proof (cases ct)
      case (Continue c')
      with ct b step have "loop body c' s1 = Some (Inr (y, t))" by simp
      with IH [of body c' s1] \<open>R s s1\<close> show ?thesis by (blast intro: trans)
    next
      case (Break z)
      with ct b step \<open>R s s1\<close> show ?thesis by auto
    qed
  qed
  then show "R s s'" by blast
qed

text \<open>Every call moves the kernel along \<open>G\<close>.\<close>

definition os_grows :: "('k \<Rightarrow> 'k \<Rightarrow> bool) \<Rightarrow> 'k os \<Rightarrow> bool" where
  "os_grows G os \<longleftrightarrow> (\<forall>k.
     (\<forall>e. G k (os_set_errno os e k)) \<and> (\<forall>fd. G k (snd (os_close os fd k))) \<and>
     (\<forall>fd. G k (snd (os_fcntl_getfd os fd k))) \<and> (\<forall>fd fl. G k (snd (os_fcntl_setfd os fd fl k))) \<and>
     (\<forall>fd. G k (snd (os_fcntl_maxfd os fd k))) \<and> G k (snd (os_sysconf_open_max os k)) \<and>
     (\<forall>mib. G k (snd (os_sysctl os mib k))) \<and> G k (snd (os_getdtablecount os k)) \<and>
     (\<forall>path fl. G k (snd (os_open os path fl k))) \<and> (\<forall>path. G k (snd (os_stat_dev os path k))) \<and>
     (\<forall>fd. G k (snd (os_fstat_dev os fd k))) \<and> (\<forall>fd len. G k (snd (os_getdents64 os fd len k))) \<and>
     (\<forall>fd len. G k (snd (os_getdirentries os fd len k))) \<and>
     (\<forall>nr fd len. G k (snd (os_syscall_getdirentries os nr fd len k))) \<and>
     (\<forall>fd len. G k (snd (os_getdents os fd len k))) \<and> (\<forall>nr a b c. G k (snd (os_syscall3 os nr a b c k))) \<and>
     (\<forall>low. G k (os_closefrom os low k)) \<and> G k (snd (os_uname_release os k)))"

locale world_frame =
  fixes cfg :: config
    and os :: "'k os"
    and grows :: "'k \<Rightarrow> 'k \<Rightarrow> bool"
    and R :: "'k world \<Rightarrow> 'k world \<Rightarrow> bool"
  assumes R_refl: "R w w"
    and R_trans: "R w w' \<Longrightarrow> R w' w'' \<Longrightarrow> R w w''"
    and R_kern: "grows (kern w) k \<Longrightarrow> R w (w\<lparr>kern := k\<rparr>)"
    and os_grows: "os_grows grows os"
    and R_probed: "R w (w\<lparr>PROBED := True\<rparr>)"
    and R_range: "pres R (try_close_range_linux cfg os lo hi)"
    and R_range_cloexec: "pres R (set_cloexec_range cfg os lo hi)"
    and R_close_probe: "pres R (close_probe cfg os)"
    and R_has: "pres R (check_has_close_range os)"
    and R_wsl: "pres R (is_wsl_1 os)"
begin

lemma pres_ret [pres_intros]: "pres R (ret x)"
  by (auto simp: pres_def ret_def R_refl)

lemma pres_fail [pres_intros]: "pres R (fail e)"
  by (auto simp: pres_def fail_def)

lemma pres_bnd [pres_intros]: "pres R m \<Longrightarrow> (\<And>x. pres R (f x)) \<Longrightarrow> pres R (bnd m f)"
  by (auto intro!: presI elim!: bnd_returns) (blast dest: presD intro: R_trans)

lemma pres_gets [pres_intros]: "pres R (gets f)"
  by (auto simp: pres_def gets_def R_refl)

lemma grows_calls [pres_intros]:
  "grows k (os_set_errno os e k)" "grows k (snd (os_close os fd k))" "grows k (snd (os_fcntl_getfd os fd k))"
  "grows k (snd (os_fcntl_setfd os fd fl k))" "grows k (snd (os_fcntl_maxfd os fd k))"
  "grows k (snd (os_sysconf_open_max os k))" "grows k (snd (os_sysctl os mib k))" "grows k (snd (os_getdtablecount os k))"
  "grows k (snd (os_open os path ofl k))" "grows k (snd (os_stat_dev os path k))" "grows k (snd (os_fstat_dev os fd k))"
  "grows k (snd (os_syscall3 os nr lo hi flg k))" "grows k (os_closefrom os low k)"
  using os_grows by (simp_all add: os_grows_def)

lemma grows_getdents [pres_intros]: "grows k (snd (getdents cfg os fd len k))"
  using os_grows by (simp add: os_grows_def getdents_def split: target_os.splits)

lemma pres_sys [pres_intros]: "(\<And>k. grows k (snd (f k))) \<Longrightarrow> pres R (sys f)"
  by (auto simp: pres_def sys_def split: prod.splits intro!: R_kern) (metis snd_conv)

lemma pres_sysu [pres_intros]: "(\<And>k. grows k (f k)) \<Longrightarrow> pres R (sysu f)"
  by (auto simp: pres_def sysu_def R_kern)

lemma pres_prims [pres_intros]:
  "pres R (debug_assert d b)" "pres R (norm_i32 c x)" "pres R (add_i32 c x y)" "pres R (sub_i32 c x y)"
  "pres R (mul_i32 c x y)" "pres R (index xs i)" "pres R (get_unchecked xs i)"
  by (simp_all add: debug_assert_def norm_i32_def add_i32_def sub_i32_def mul_i32_def index_def get_unchecked_def
    pres_ret pres_fail)

lemma pres_modify [pres_intros]:
  "pres R (modify (\<lambda>w. w\<lparr>PROBED := True\<rparr>))"
  by (auto simp: pres_def modify_def R_probed)

lemma pres_loop [pres_intros]: "(\<And>c. pres R (body c)) \<Longrightarrow> pres R (loop_m body c)"
  by (rule pres_loop_m [OF R_refl R_trans])

lemma pres_try_for [pres_intros]: "(\<And>i. pres R (body i)) \<Longrightarrow> pres R (try_for body xs)"
  by (induction xs) (auto intro!: pres_ret pres_bnd split: result.splits)

lemma pres_simplify [pres_intros]: "pres R (simplify_keep_fds c fds srt m)"
  using simplify_keep_fds_pure [of c fds srt m] pres_ret pres_fail by metis

lemma pres_get_entry_info [pres_intros]: "pres R (get_entry_info c it off)"
  by (auto simp: get_entry_info_def Let_def intro!: pres_intros)

lemma pres_dir_refill [pres_intros]: "pres R (dir_refill cfg os it)"
  by (auto simp: dir_refill_def Let_def intro!: pres_intros split: prod.splits)

lemma pres_dir_take [pres_intros]: "pres R (dir_take cfg it)"
  by (auto simp: dir_take_def Let_def intro!: pres_intros split: prod.splits option.splits)

lemma pres_DirFdIter [pres_intros]:
  "pres R (DirFdIter_next cfg os it)" "pres R (DirFdIter_drop os it)" "pres R (DirFdIter_open cfg os m)"
  by (auto simp: DirFdIter_next_def DirFdIter_drop_def DirFdIter_open_def open_dirfd_def R_wsl
    intro!: pres_intros split: ctl.splits option.splits prod.splits target_os.splits)

lemma pres_is_fd_valid [pres_intros]: "pres R (is_fd_valid os fd)"
  by (auto simp: is_fd_valid_def intro!: pres_intros)

lemma pres_set_cloexec [pres_intros]: "pres R (set_cloexec os fd)"
  by (auto simp: set_cloexec_def intro!: pres_intros)

lemma pres_close_fd [pres_intros]: "pres R (close_fd os fd)"
  by (auto simp: close_fd_def intro!: pres_intros)

lemma pres_get_maxfd [pres_intros]: "pres R (get_maxfd cfg os it)"
  by (auto simp: get_maxfd_def get_maxfd_direct_def maxfd_netbsd_def maxfd_nfds_def get_nfds_def nfds_to_maxfd_def
    nfds_body_def intro!: pres_intros split: option.splits prod.splits)

lemma pres_FdIter [pres_intros]:
  "pres R (FdIter_next cfg os it)" "pres R (FdIter_drop os it)" "pres R (iter_from cfg os b m)"
  by (auto simp: FdIter_next_def next_dirfd_def scan_body_def FdIter_drop_def iter_from_def Let_def
    intro!: pres_intros split: ctl.splits option.splits prod.splits result.splits)

lemma pres_for_each [pres_intros]:
  "(\<And>it. pres R (nxt it)) \<Longrightarrow> (\<And>it. pres R (drp it)) \<Longrightarrow> (\<And>fd. pres R (act fd)) \<Longrightarrow> pres R (for_each nxt drp act it)"
  by (auto simp: for_each_def intro!: pres_intros split: option.splits prod.splits)

lemma pres_sweep [pres_intros]:
  "(\<And>it. pres R (nxt it)) \<Longrightarrow> (\<And>it. pres R (drp it)) \<Longrightarrow> (\<And>fd. pres R (act fd)) \<Longrightarrow> (\<And>fd it. pres R (rest fd it)) \<Longrightarrow>
   pres R (sweep_body nxt drp act rest mx srt c)"
  by (auto simp: sweep_body_def intro!: pres_intros split: option.splits prod.splits)

lemma pres_apply_range [pres_intros]: "(\<And>l h. pres R (func l h)) \<Longrightarrow> pres R (apply_range c m fds func)"
  by (auto simp: apply_range_def apply_range_gap_def Let_def intro!: pres_intros split: option.splits result.splits)

lemma pres_range [pres_intros]: "pres R (try_close_range cfg os lo hi)"
  by (auto simp: try_close_range_def try_close_range_freebsd_def R_has R_range intro!: pres_intros)

lemmas [pres_intros] = R_range_cloexec

lemma pres_rest [pres_intros]: "pres R (close_rest cfg os fd it)" "pres R (set_cloexec_rest cfg os fd it)"
  by (auto simp: close_rest_def set_cloexec_rest_def intro!: pres_intros split: result.splits)

lemma pres_shortcut [pres_intros]:
  "pres R (close_fds_shortcut cfg os m fds mx srt)" "pres R (set_cloexec_shortcut cfg os m fds mx srt)"
  by (auto simp: close_fds_shortcut_def set_cloexec_shortcut_def R_has intro!: pres_intros split: result.splits)

lemma pres_closing [pres_intros]: "pres R (closefrom cfg os b m)" "pres R (cloexecfrom cfg os b m)"
  by (auto simp: closefrom_def cloexecfrom_def close_fds_def set_fds_cloexec_from_def close_fds_body_eq
    set_fds_cloexec_body_eq Let_def intro!: pres_intros split: result.splits prod.splits)

lemma pres_probe [pres_intros]: "pres R (probe_features cfg os)"
  by (auto simp: probe_features_def probe_features_imp_def closefds_probe_def cloexec_probe_def
    iterfds_probe_def R_close_probe R_wsl intro!: pres_intros)

lemma api_step_R:
  assumes "api_step cfg os env w w'" "\<And>k k'. env k k' \<Longrightarrow> grows k k'"
  shows "R w w'"
  using assms by (induction rule: api_step.induct) (blast intro: presD pres_intros R_kern)+

lemma api_steps_R:
  assumes "(api_step cfg os env)\<^sup>*\<^sup>* w w'" "\<And>k k'. env k k' \<Longrightarrow> grows k k'"
  shows "R w w'"
  using assms by (induction rule: rtranclp_induct) (blast intro: R_refl R_trans api_step_R)+

end

section \<open>Interpretations\<close>

lemmas prog_defs = bnd_def gets_def ret_def fail_def modify_def sys_def debug_assert_def

lemmas atomics_defs = try_close_range_linux_def set_cloexec_range_def close_probe_def check_has_close_range_def is_wsl_1_def
  Let_def

lemma os_grows_True [simp]: "os_grows (\<lambda>_ _. True) os"
  by (simp add: os_grows_def)

interpretation mono: world_frame cfg os "\<lambda>_ _. True" statics_mono for cfg os
  by unfold_locales
    (auto simp: statics_mono_def pres_def atomics_defs prog_defs split: prod.splits if_splits)

sublocale fd_kernel < st: world_frame cfg os "\<lambda>_ _. True" "keeps_statics release osreldate"
proof (unfold_locales, goal_cases)
  case (2 w w' w'')
  then show ?case by (rule keeps_statics_trans)
next
  case 9
  show ?case
  proof (rule presI)
    fix w x w' assume "check_has_close_range os w = Some (Inr (x, w'))"
    then show "keeps_statics release osreldate w w'"
      using check_has_close_range_runs [of w] by (auto simp: keeps_statics_def runs_def)
  qed
next
  case 8
  show ?case
  proof (rule presI)
    fix w x w' assume "close_probe cfg os w = Some (Inr (x, w'))"
    then show "keeps_statics release osreldate w w'"
      using check_has_close_range_runs [of w]
      by (auto simp: keeps_statics_def statics_ok_def runs_def close_probe_def prog_defs split: if_splits prod.splits)
  qed
next
  case 10
  show ?case
  proof (rule presI)
    fix w x w' assume "is_wsl_1 os w = Some (Inr (x, w'))"
    then show "keeps_statics release osreldate w w'"
      using is_wsl_1_runs [of w] by (auto simp: keeps_statics_def runs_def)
  qed
qed (auto simp: keeps_statics_def statics_ok_def pres_def try_close_range_linux_def set_cloexec_range_def prog_defs
  split: prod.splits if_splits)

text \<open>A kernel that is too old for FreeBSD's \<^verbatim>\<open>close_range()\<close> is never remembered as having it.\<close>

definition stays_old :: "'k os \<Rightarrow> 'k world \<Rightarrow> 'k world \<Rightarrow> bool" where
  "stays_old os w w' \<longleftrightarrow> (old_kernel os \<and> HAS_CLOSE_RANGE w \<noteq> 1 \<longrightarrow> HAS_CLOSE_RANGE w' \<noteq> 1)"

lemma check_stays_old: "pres (stays_old os) (check_has_close_range os)"
proof (rule presI)
  fix w x w' assume run: "check_has_close_range os w = Some (Inr (x, w'))"
  show "stays_old os w w'"
    unfolding stays_old_def
  proof
    assume old: "old_kernel os \<and> HAS_CLOSE_RANGE w \<noteq> 1"
    obtain r v k where k: "os_sysctl os [c_CTL_KERN os, c_KERN_OSRELDATE os] (kern w) = ((r, v), k)" by (metis surj_pair)
    with old have "r \<noteq> 0 \<or> v < 1202000" unfolding old_kernel_def by (metis case_prodD fst_conv)
    with k old run show "HAS_CLOSE_RANGE w' \<noteq> 1"
      by (auto simp: check_has_close_range_def prog_defs split: if_splits)
  qed
qed

interpretation old: world_frame cfg os "\<lambda>_ _. True" "stays_old os" for cfg os
proof (unfold_locales, goal_cases)
  case 8
  show ?case
    using presD [OF check_stays_old, of os]
    by (auto simp: pres_def stays_old_def close_probe_def prog_defs split: prod.splits if_splits sum.splits option.splits)
next
  case 9
  show ?case by (rule check_stays_old)
qed (auto simp: stays_old_def pres_def try_close_range_linux_def set_cloexec_range_def is_wsl_1_def Let_def prog_defs
  split: prod.splits if_splits)

section \<open>The answers behind the atomics\<close>

text \<open>
  \<open>noting_os os\<close> is \<open>os\<close> with a notebook: it makes the same calls with the same results and writes down the answers
  of those that the atomics depend on, with the \<^verbatim>\<open>errno\<close> that a system call leaves.
\<close>

datatype answer =
  Syscall_Answer c_int c_uint c_uint c_uint int c_int
| Sysctl_Answer "c_int list" c_int c_int
| Uname_Answer "u8 list"

definition silent :: "('k \<Rightarrow> 'a \<times> 'k) \<Rightarrow> 'k \<times> answer list \<Rightarrow> 'a \<times> ('k \<times> answer list)" where
  "silent f = (\<lambda>(k, l). case f k of (x, k') \<Rightarrow> (x, (k', l)))"

definition noted :: "('a \<Rightarrow> 'k \<Rightarrow> answer) \<Rightarrow> ('k \<Rightarrow> 'a \<times> 'k) \<Rightarrow> 'k \<times> answer list \<Rightarrow> 'a \<times> ('k \<times> answer list)" where
  "noted g f = (\<lambda>(k, l). case f k of (x, k') \<Rightarrow> (x, (k', l @ [g x k'])))"

definition noting_os :: "'k os \<Rightarrow> ('k \<times> answer list) os" where
  "noting_os os =
    \<lparr>c_FD_CLOEXEC = c_FD_CLOEXEC os, c_EINVAL = c_EINVAL os, c_SYS_close_range = c_SYS_close_range os,
     c_CTL_KERN = c_CTL_KERN os, c_KERN_PROC = c_KERN_PROC os, c_KERN_OSRELDATE = c_KERN_OSRELDATE os,
     os_errno = (\<lambda>(k, l). os_errno os k),
     os_set_errno = (\<lambda>e (k, l). (os_set_errno os e k, l)),
     os_close = (\<lambda>fd. silent (os_close os fd)),
     os_fcntl_getfd = (\<lambda>fd. silent (os_fcntl_getfd os fd)),
     os_fcntl_setfd = (\<lambda>fd fl. silent (os_fcntl_setfd os fd fl)),
     os_fcntl_maxfd = (\<lambda>fd. silent (os_fcntl_maxfd os fd)),
     os_sysconf_open_max = silent (os_sysconf_open_max os),
     os_sysctl = (\<lambda>mib. noted (\<lambda>(r, v) _. Sysctl_Answer mib r v) (os_sysctl os mib)),
     os_getdtablecount = silent (os_getdtablecount os),
     os_open = (\<lambda>path fl. silent (os_open os path fl)),
     os_stat_dev = (\<lambda>path. silent (os_stat_dev os path)),
     os_fstat_dev = (\<lambda>fd. silent (os_fstat_dev os fd)),
     os_getdents64 = (\<lambda>fd len. silent (os_getdents64 os fd len)),
     os_getdirentries = (\<lambda>fd len. silent (os_getdirentries os fd len)),
     os_syscall_getdirentries = (\<lambda>nr fd len. silent (os_syscall_getdirentries os nr fd len)),
     os_getdents = (\<lambda>fd len. silent (os_getdents os fd len)),
     os_syscall3 = (\<lambda>nr a b c. noted (\<lambda>r k'. Syscall_Answer nr a b c r (os_errno os k')) (os_syscall3 os nr a b c)),
     os_closefrom = (\<lambda>low (k, l). (os_closefrom os low k, l)),
     os_uname_release = noted (\<lambda>rel _. Uname_Answer rel) (os_uname_release os)\<rparr>"

text \<open>
  What the answers \<open>A\<close> have to contain for the atomics of \<open>w\<close>. A \<^verbatim>\<open>close_range()\<close> is taken to be missing after a call
  that failed, with a range that is not inverted where debug assertions are on, or after a probe that was not
  refused with \<^verbatim>\<open>EINVAL\<close>.
\<close>

definition failed_range :: "config \<Rightarrow> c_int \<Rightarrow> c_uint \<Rightarrow> answer set \<Rightarrow> bool" where
  "failed_range cfg nr flags A \<longleftrightarrow>
     (\<exists>lo hi r e. Syscall_Answer nr lo hi flags r e \<in> A \<and> r \<noteq> 0 \<and> (debug_assertions cfg \<longrightarrow> lo \<le> hi))"

definition failed_probe :: "'k os \<Rightarrow> answer set \<Rightarrow> bool" where
  "failed_probe os A \<longleftrightarrow>
     (\<exists>r e. Syscall_Answer (c_SYS_close_range os) u32_MAX (u32_MAX - 1) 0 r e \<in> A \<and> (r = 0 \<or> e \<noteq> c_EINVAL os))"

definition backed :: "config \<Rightarrow> 'k os \<Rightarrow> answer set \<Rightarrow> 'a world \<Rightarrow> bool" where
  "backed cfg os A w \<longleftrightarrow>
     (\<not> MAY_HAVE_CLOSE_RANGE w \<longrightarrow> failed_range cfg (c_SYS_close_range os) 0 A \<or> failed_probe os A) \<and>
     (\<not> MAY_HAVE_CLOSE_RANGE_CLOEXEC w \<longrightarrow> failed_range cfg (c_SYS_close_range os) CLOSE_RANGE_CLOEXEC A) \<and>
     (HAS_CLOSE_RANGE w = 1 \<longrightarrow>
        (\<exists>v \<ge> 1202000. Sysctl_Answer [c_CTL_KERN os, c_KERN_OSRELDATE os] 0 v \<in> A)) \<and>
     (HAS_CLOSE_RANGE w = 0 \<longrightarrow>
        (\<exists>r v. Sysctl_Answer [c_CTL_KERN os, c_KERN_OSRELDATE os] r v \<in> A \<and> (r \<noteq> 0 \<or> v < 1202000))) \<and>
     (IS_WSL1 w = 1 \<longrightarrow> (\<exists>rel. Uname_Answer rel \<in> A \<and> uname_is_wsl1 rel)) \<and>
     (IS_WSL1 w = 0 \<longrightarrow> (\<exists>rel. Uname_Answer rel \<in> A \<and> \<not> uname_is_wsl1 rel))"

abbreviation answers :: "('k \<times> answer list) world \<Rightarrow> answer set" where
  "answers w \<equiv> set (snd (kern w))"

definition keeps_backed :: "config \<Rightarrow> 'k os \<Rightarrow> ('k \<times> answer list) world \<Rightarrow> ('k \<times> answer list) world \<Rightarrow> bool" where
  "keeps_backed cfg os w w' \<longleftrightarrow>
     answers w \<subseteq> answers w' \<and> (backed cfg os (answers w) w \<longrightarrow> backed cfg os (answers w') w')"

lemma failed_mono:
  "A \<subseteq> B \<Longrightarrow> failed_range cfg nr flags A \<Longrightarrow> failed_range cfg nr flags B"
  "A \<subseteq> B \<Longrightarrow> failed_probe os A \<Longrightarrow> failed_probe os B"
  unfolding failed_range_def failed_probe_def by blast+

lemma backed_mono: "A \<subseteq> B \<Longrightarrow> backed cfg os A w \<Longrightarrow> backed cfg os B w"
  unfolding backed_def by (blast intro: failed_mono)

lemma backed_upd [simp]: "backed cfg os A (w\<lparr>kern := k\<rparr>) = backed cfg os A w"
  "backed cfg os A (w\<lparr>PROBED := b\<rparr>) = backed cfg os A w"
  by (simp_all add: backed_def)

lemma noting_grows: "os_grows (\<lambda>k k'. set (snd k) \<subseteq> set (snd k')) (noting_os os)"
  by (auto simp: os_grows_def noting_os_def silent_def noted_def split: prod.splits)

lemma backed_sets:
  assumes "backed cfg os A w"
  shows "failed_range cfg (c_SYS_close_range os) 0 A \<or> failed_probe os A \<Longrightarrow> backed cfg os A (w\<lparr>MAY_HAVE_CLOSE_RANGE := False\<rparr>)"
    "failed_range cfg (c_SYS_close_range os) CLOSE_RANGE_CLOEXEC A \<Longrightarrow> backed cfg os A (w\<lparr>MAY_HAVE_CLOSE_RANGE_CLOEXEC := False\<rparr>)"
    "Sysctl_Answer [c_CTL_KERN os, c_KERN_OSRELDATE os] r v \<in> A \<Longrightarrow>
      backed cfg os A (w\<lparr>HAS_CLOSE_RANGE := (if r \<noteq> 0 \<or> v < 1202000 then 0 else 1)\<rparr>)"
    "Uname_Answer rel \<in> A \<Longrightarrow> backed cfg os A (w\<lparr>IS_WSL1 := (if uname_is_wsl1 rel then 1 else 0)\<rparr>)"
proof -
  show "backed cfg os A (w\<lparr>HAS_CLOSE_RANGE := (if r \<noteq> 0 \<or> v < 1202000 then 0 else 1)\<rparr>)"
    if a: "Sysctl_Answer [c_CTL_KERN os, c_KERN_OSRELDATE os] r v \<in> A"
  proof (cases "r \<noteq> 0 \<or> v < 1202000")
    case False
    with a have "\<exists>v \<ge> 1202000. Sysctl_Answer [c_CTL_KERN os, c_KERN_OSRELDATE os] 0 v \<in> A" by (intro exI [of _ v]) simp
    with False assms show ?thesis by (simp add: backed_def)
  next
    case True
    with a have "\<exists>r v. Sysctl_Answer [c_CTL_KERN os, c_KERN_OSRELDATE os] r v \<in> A \<and> (r \<noteq> 0 \<or> v < 1202000)" by blast
    with True assms show ?thesis by (simp add: backed_def)
  qed
  show "backed cfg os A (w\<lparr>IS_WSL1 := (if uname_is_wsl1 rel then 1 else 0)\<rparr>)" if "Uname_Answer rel \<in> A"
    using that assms unfolding backed_def by (cases "uname_is_wsl1 rel") (simp, blast)+
qed (use assms in \<open>simp_all add: backed_def\<close>)

text \<open>A call whose answer is written down, after which the atomics are backed by what was known and this answer.\<close>

lemma noted_step:
  assumes run: "bnd (sys (noted g f)) F w = Some (Inr (x, w'))"
    and step: "\<And>r k w1. kern w1 = (k, snd (kern w) @ [g r k]) \<Longrightarrow> F r w1 = Some (Inr (x, w')) \<Longrightarrow>
      backed cfg os (answers w1) w1 \<Longrightarrow> kern w' = kern w1 \<and> backed cfg os (answers w1) w'"
    and frame: "\<And>r k w1. kern w1 = (k, snd (kern w) @ [g r k]) \<Longrightarrow> F r w1 = Some (Inr (x, w')) \<Longrightarrow> kern w' = kern w1"
  shows "keeps_backed cfg os w w'"
proof -
  from run obtain r w1 where r: "sys (noted g f) w = Some (Inr (r, w1))" "F r w1 = Some (Inr (x, w'))" by (rule bnd_returns)
  then obtain k where k: "w1 = w\<lparr>kern := (k, snd (kern w) @ [g r k])\<rparr>"
    by (auto simp: sys_def noted_def split: prod.splits)
  have "backed cfg os (answers w1) w1" if "backed cfg os (answers w) w"
    using backed_mono [OF _ that, of "answers w1"] k by auto
  with step [of w1 k r] frame [of w1 k r] k r(2) show ?thesis by (auto simp: keeps_backed_def)
qed

lemma noting_fields [simp]:
  "c_SYS_close_range (noting_os os) = c_SYS_close_range os" "c_EINVAL (noting_os os) = c_EINVAL os"
  "c_CTL_KERN (noting_os os) = c_CTL_KERN os" "c_KERN_OSRELDATE (noting_os os) = c_KERN_OSRELDATE os"
  "os_errno (noting_os os) k = os_errno os (fst k)"
  "os_syscall3 (noting_os os) nr lo hi flg = noted (\<lambda>r k. Syscall_Answer nr lo hi flg r (os_errno os k)) (os_syscall3 os nr lo hi flg)"
  "os_sysctl (noting_os os) mib = noted (\<lambda>(r, v) _. Sysctl_Answer mib r v) (os_sysctl os mib)"
  "os_uname_release (noting_os os) = noted (\<lambda>rel _. Uname_Answer rel) (os_uname_release os)"
  by (simp_all add: noting_os_def split: prod.splits)

lemma keeps_backed_refl: "keeps_backed cfg os w w"
  by (simp add: keeps_backed_def)

lemma failed_rangeI:
  "Syscall_Answer nr lo hi flags r e \<in> A \<Longrightarrow> r \<noteq> 0 \<Longrightarrow> (debug_assertions cfg \<Longrightarrow> lo \<le> hi) \<Longrightarrow> failed_range cfg nr flags A"
  unfolding failed_range_def by blast

lemma noted_ranges:
  "pres (keeps_backed cfg os) (try_close_range_linux cfg (noting_os os) lo hi)"
  "pres (keeps_backed cfg os) (set_cloexec_range cfg (noting_os os) lo hi)"
proof -
  have call: "keeps_backed cfg os w w'"
    if run: "bnd (debug_assert (debug_assertions cfg) (lo \<le> hi)) (\<lambda>_.
        bnd (sys (os_syscall3 (noting_os os) (c_SYS_close_range os) lo hi flg)) (\<lambda>r.
        if r = 0 then ret (Ok ()) else bnd (modify off) (\<lambda>_. ret (Err ())))) w = Some (Inr (x, w'))"
      and off: "\<And>A w. backed cfg os A w \<Longrightarrow> failed_range cfg (c_SYS_close_range os) flg A \<Longrightarrow> backed cfg os A (off w)"
        "\<And>w. kern (off w) = kern w"
    for flg x and w w' :: "('a \<times> answer list) world" and off
  proof -
    from run have dbg: "debug_assertions cfg \<longrightarrow> lo \<le> hi"
      by (auto simp: bnd_def debug_assert_def fail_def split: if_splits)
    with run have "bnd (sys (os_syscall3 (noting_os os) (c_SYS_close_range os) lo hi flg)) (\<lambda>r.
        if r = 0 then ret (Ok ()) else bnd (modify off) (\<lambda>_. ret (Err ()))) w = Some (Inr (x, w'))"
      by (cases "debug_assertions cfg") (simp_all add: debug_assert_def del: noting_fields)
    then show ?thesis unfolding noting_fields
    proof (rule noted_step, goal_cases)
      case (1 r k w1)
      with dbg off(2) show ?case
        by (cases "r = 0") (auto simp: bnd_def ret_def modify_def intro!: off(1) intro: failed_rangeI)
    next
      case (2 r k w1)
      with off(2) show ?case by (auto simp: bnd_def ret_def modify_def split: if_splits)
    qed
  qed
  show "pres (keeps_backed cfg os) (try_close_range_linux cfg (noting_os os) lo hi)"
    "pres (keeps_backed cfg os) (set_cloexec_range cfg (noting_os os) lo hi)"
    unfolding try_close_range_linux_def set_cloexec_range_def noting_fields(1)
    by (intro presI, erule call; simp add: backed_sets)+
qed

lemma noted_check_has_close_range: "pres (keeps_backed cfg os) (check_has_close_range (noting_os os))"
proof (rule presI)
  fix w x w' assume run: "check_has_close_range (noting_os os) w = Some (Inr (x, w'))"
  show "keeps_backed cfg os w w'"
  proof (cases "HAS_CLOSE_RANGE w \<in> {0, 1}")
    case True
    with run show ?thesis by (auto simp: check_has_close_range_def prog_defs keeps_backed_refl)
  next
    case False
    with run have "bnd (sys (os_sysctl (noting_os os) [c_CTL_KERN os, c_KERN_OSRELDATE os])) (\<lambda>(r, v).
        if r \<noteq> 0 \<or> v < 1202000
        then bnd (modify (\<lambda>w. w\<lparr>HAS_CLOSE_RANGE := 0\<rparr>)) (\<lambda>_. ret (Err ()))
        else bnd (modify (\<lambda>w. w\<lparr>HAS_CLOSE_RANGE := 1\<rparr>)) (\<lambda>_. ret (Ok ()))) w = Some (Inr (x, w'))"
      by (simp add: check_has_close_range_def gets_def bnd_def del: noting_fields(6-))
    then show ?thesis unfolding noting_fields
    proof (rule noted_step, goal_cases)
      case (1 y k w1)
      obtain r v where y: "y = (r, v)" by (cases y)
      with 1 have w': "w' = w1\<lparr>HAS_CLOSE_RANGE := (if r \<noteq> 0 \<or> v < 1202000 then 0 else 1)\<rparr>"
        by (auto simp: bnd_def ret_def modify_def split: if_splits)
      from 1(1) y have "Sysctl_Answer [c_CTL_KERN os, c_KERN_OSRELDATE os] r v \<in> answers w1" by simp
      from backed_sets(3) [OF 1(3) this] show ?case unfolding w' by simp
    next
      case (2 y k w1)
      then show ?case by (auto simp: bnd_def ret_def modify_def split: if_splits prod.splits)
    qed
  qed
qed

lemma noted_is_wsl_1: "pres (keeps_backed cfg os) (is_wsl_1 (noting_os os))"
proof (rule presI)
  fix w x w' assume run: "is_wsl_1 (noting_os os) w = Some (Inr (x, w'))"
  show "keeps_backed cfg os w w'"
  proof (cases "IS_WSL1 w \<in> {0, 1}")
    case True
    with run show ?thesis by (auto simp: is_wsl_1_def prog_defs keeps_backed_refl)
  next
    case False
    with run have "bnd (sys (os_uname_release (noting_os os))) (\<lambda>rel.
        bnd (modify (\<lambda>w. w\<lparr>IS_WSL1 := (if uname_is_wsl1 rel then 1 else 0)\<rparr>)) (\<lambda>_. ret (uname_is_wsl1 rel))) w = Some (Inr (x, w'))"
      by (simp add: is_wsl_1_def gets_def bnd_def Let_def del: noting_fields(6-))
    then show ?thesis unfolding noting_fields
    proof (rule noted_step, goal_cases)
      case (1 rel k w1)
      then have w': "w' = w1\<lparr>IS_WSL1 := (if uname_is_wsl1 rel then 1 else 0)\<rparr>" by (auto simp: bnd_def ret_def modify_def)
      from 1(1) have "Uname_Answer rel \<in> answers w1" by simp
      from backed_sets(4) [OF 1(3) this] show ?case unfolding w' by simp
    next
      case (2 rel k w1)
      then show ?case by (auto simp: bnd_def ret_def modify_def)
    qed
  qed
qed

lemma noted_close_probe: "pres (keeps_backed cfg os) (close_probe cfg (noting_os os))"
proof (rule presI)
  fix w x w' assume run: "close_probe cfg (noting_os os) w = Some (Inr (x, w'))"
  consider "target cfg = Linux" | "target cfg = Freebsd" | "target cfg \<notin> {Linux, Freebsd}" by blast
  then show "keeps_backed cfg os w w'"
  proof cases
    case 1
    with run have "bnd (sys (os_syscall3 (noting_os os) (c_SYS_close_range os) u32_MAX (u32_MAX - 1) 0)) (\<lambda>r.
        bnd (gets (\<lambda>w. os_errno os (fst (kern w)))) (\<lambda>errno.
        if r = 0 \<or> errno \<noteq> c_EINVAL os then modify (\<lambda>w. w\<lparr>MAY_HAVE_CLOSE_RANGE := False\<rparr>) else ret ())) w = Some (Inr (x, w'))"
      by (simp add: close_probe_def del: noting_fields(6-))
    then show ?thesis unfolding noting_fields
    proof (rule noted_step, goal_cases)
      case (1 r k w1)
      then have "failed_probe os (answers w1)" if "r = 0 \<or> os_errno os k \<noteq> c_EINVAL os"
        using that unfolding failed_probe_def by (intro exI [of _ r] exI [of _ "os_errno os k"]) simp
      with 1 show ?case by (auto simp: bnd_def ret_def gets_def modify_def split: if_splits intro!: backed_sets(1))
    next
      case (2 r k w1)
      then show ?case by (auto simp: bnd_def ret_def gets_def modify_def split: if_splits)
    qed
  next
    case 2
    with run presD [OF noted_check_has_close_range [of cfg os]] show ?thesis
      by (auto simp: close_probe_def ret_def elim!: bnd_returns)
  next
    case 3
    with run show ?thesis by (simp add: close_probe_def ret_def keeps_backed_refl)
  qed
qed

interpretation nb: world_frame cfg "noting_os os" "\<lambda>k k'. set (snd k) \<subseteq> set (snd k')" "keeps_backed cfg os" for cfg os
proof (unfold_locales, goal_cases)
  case (3 w k)
  then show ?case using backed_mono [of "answers w" "set (snd k)" cfg os w] by (auto simp: keeps_backed_def)
qed (auto simp: keeps_backed_def intro: noting_grows noted_ranges noted_check_has_close_range noted_is_wsl_1 noted_close_probe)

section \<open>Properties\<close>

context fd_kernel
begin

lemma reachable_statics: "(api_step cfg os env)\<^sup>*\<^sup>* (init_world k) w \<Longrightarrow> statics_ok release osreldate w"
  using st.api_steps_R [of env "init_world k" w] by (simp add: keeps_statics_def statics_ok_def init_world_def)

end

text \<open>
  C21. On any kernel and over any history of calls of the crate, interleaved with anything else that happens
  to the kernel's state, the atomics only gain knowledge: a cached answer about WSL 1 or FreeBSD's \<^verbatim>\<open>close_range()\<close>
  is never replaced, a system call found missing on Linux is never assumed to be present again, and the mark
  that probing has been done is never cleared.
\<close>

theorem atomics_monotone:
  assumes "(api_step cfg os env)\<^sup>*\<^sup>* w w'"
  shows "statics_mono w w'"
  by (rule mono.api_steps_R [OF assms]) simp

text \<open>
  C22. The condition on the atomics under which the other properties hold is true in every world that calls of the crate,
  with any arguments and in any order, can produce from the initial one, while the program and other threads change
  the kernel's state as they like: the cached answer about WSL 1 is the right one, and FreeBSD's \<^verbatim>\<open>close_range()\<close> is
  remembered as present only if the kernel is new enough for it.
\<close>

theorem reachable_statics_ok:
  assumes "fd_kernel cfg os fdt dirs open_max release osreldate dirs_work" "(api_step cfg os env)\<^sup>*\<^sup>* (init_world k) w"
  shows "statics_ok release osreldate w"
  by (rule fd_kernel.reachable_statics [OF assms])

text \<open>
  C23. The atomics remember only what the kernel has said. On any kernel and over any history of calls of the crate, in
  which the rest of the program changes the kernel's state as it likes, each of the four atomics that cache an answer
  keeps its initial value until the crate has received an answer that justifies the new one: \<^verbatim>\<open>close_range()\<close> is given up only
  after a call of it failed or the probe was not refused with \<^verbatim>\<open>EINVAL\<close>, its close-on-exec form only after a failed call with that flag,
  FreeBSD's is remembered as present or absent only after a \<^verbatim>\<open>sysctl()\<close> that said so, and WSL 1 only after a \<^verbatim>\<open>uname()\<close>
  with or without its mark.
\<close>

theorem atomics_backed:
  assumes "(api_step cfg (noting_os os) (\<lambda>k k'. snd k' = snd k))\<^sup>*\<^sup>* (init_world (k, [])) w"
  shows "backed cfg os (answers w) w"
proof -
  have "keeps_backed cfg os (init_world (k, [])) w" by (rule nb.api_steps_R [OF assms]) simp
  then show ?thesis by (simp add: keeps_backed_def backed_def init_world_def)
qed

text \<open>
  C7. On a FreeBSD whose kernel is too old for \<^verbatim>\<open>close_range()\<close> (where an unknown system call kills the
  process with \<^verbatim>\<open>SIGSYS\<close>), the crate never makes that call: in every world that calls of the crate can produce from the initial
  one, in any order and with any arguments, while the rest of the program changes the kernel's state as it likes, what
  each public operation does is the same whatever \<^verbatim>\<open>syscall()\<close> would do.
\<close>

theorem freebsd_old_kernel_no_close_range:
  assumes "target cfg = Freebsd" "old_kernel os" "(api_step cfg os env)\<^sup>*\<^sup>* (init_world k) w"
  shows "closefrom cfg (os\<lparr>os_syscall3 := f\<rparr>) cb minfd w = closefrom cfg os cb minfd w \<and>
    cloexecfrom cfg (os\<lparr>os_syscall3 := f\<rparr>) cb minfd w = cloexecfrom cfg os cb minfd w \<and>
    probe_features cfg (os\<lparr>os_syscall3 := f\<rparr>) w = probe_features cfg os w \<and>
    iter_from cfg (os\<lparr>os_syscall3 := f\<rparr>) ib minfd w = iter_from cfg os ib minfd w \<and>
    FdIter_next cfg (os\<lparr>os_syscall3 := f\<rparr>) it w = FdIter_next cfg os it w \<and>
    FdIter_drop (os\<lparr>os_syscall3 := f\<rparr>) it w = FdIter_drop os it w"
proof -
  have "stays_old os (init_world k) w" by (rule old.api_steps_R [OF assms(3)]) simp
  with assms(2) have "HAS_CLOSE_RANGE w \<noteq> 1" by (simp add: stays_old_def init_world_def)
  from old_kernel_no_syscall3 [OF assms(1,2) this] assms(1) show ?thesis
    by (simp add: iter_no_syscall3 probe_no_syscall3)
qed

end
