(* ===== verification/Threads.thy ===== *)
theory Threads
  imports Close_Fds
begin

text \<open>
  The iterator while other threads open and close descriptors. \<open>threads_os act os\<close> is the operating system
  \<open>os\<close> as one thread sees it: before each of its calls the other threads have a turn, \<open>act n H\<close> in the \<open>n\<close>th,
  where \<open>H\<close> are the descriptors this thread holds. The locale \<open>fd_threads\<close> says what the other threads do: they
  leave the descriptors in \<open>P\<close> and those this thread holds alone, and everything they open is in \<open>Q\<close>. Under this
  contract the operating system is a \<open>shared_kernel\<close>.
\<close>

section \<open>Taking turns\<close>

record 'k shared =
  sh_kern :: 'k
  sh_time :: nat
  sh_held :: "int set"

type_synonym 'k act = "nat \<Rightarrow> int set \<Rightarrow> 'k \<Rightarrow> 'k"

definition others :: "'k act \<Rightarrow> 'k shared \<Rightarrow> 'k" where
  "others act s = act (sh_time s) (sh_held s) (sh_kern s)"

definition turn :: "'k act \<Rightarrow> ('k \<Rightarrow> 'a \<times> 'k) \<Rightarrow> 'k shared \<Rightarrow> 'a \<times> 'k shared" where
  "turn act f s = (case f (others act s) of (x, k) \<Rightarrow> (x, s\<lparr>sh_kern := k, sh_time := sh_time s + 1\<rparr>))"

text \<open>\<^verbatim>\<open>errno\<close> belongs to the thread. Opening and closing a descriptor changes what this thread holds.\<close>

definition threads_os :: "'k act \<Rightarrow> 'k os \<Rightarrow> 'k shared os" where
  "threads_os act os =
    \<lparr>c_FD_CLOEXEC = c_FD_CLOEXEC os, c_EINVAL = c_EINVAL os, c_SYS_close_range = c_SYS_close_range os,
     c_CTL_KERN = c_CTL_KERN os, c_KERN_PROC = c_KERN_PROC os, c_KERN_OSRELDATE = c_KERN_OSRELDATE os,
     os_errno = (\<lambda>s. os_errno os (sh_kern s)),
     os_set_errno = (\<lambda>e s. s\<lparr>sh_kern := os_set_errno os e (sh_kern s)\<rparr>),
     os_close = (\<lambda>fd s. case turn act (os_close os fd) s of (r, s) \<Rightarrow> (r, s\<lparr>sh_held := sh_held s - {fd}\<rparr>)),
     os_fcntl_getfd = (\<lambda>fd. turn act (os_fcntl_getfd os fd)),
     os_fcntl_setfd = (\<lambda>fd fl. turn act (os_fcntl_setfd os fd fl)),
     os_fcntl_maxfd = (\<lambda>fd. turn act (os_fcntl_maxfd os fd)),
     os_sysconf_open_max = turn act (os_sysconf_open_max os),
     os_sysctl = (\<lambda>mib. turn act (os_sysctl os mib)),
     os_getdtablecount = turn act (os_getdtablecount os),
     os_open = (\<lambda>path fl s. case turn act (os_open os path fl) s of (fd, s) \<Rightarrow>
        (fd, if fd \<ge> 0 then s\<lparr>sh_held := insert fd (sh_held s)\<rparr> else s)),
     os_stat_dev = (\<lambda>path. turn act (os_stat_dev os path)),
     os_fstat_dev = (\<lambda>fd. turn act (os_fstat_dev os fd)),
     os_getdents64 = (\<lambda>fd len. turn act (os_getdents64 os fd len)),
     os_getdirentries = (\<lambda>fd len. turn act (os_getdirentries os fd len)),
     os_syscall_getdirentries = (\<lambda>nr fd len. turn act (os_syscall_getdirentries os nr fd len)),
     os_getdents = (\<lambda>fd len. turn act (os_getdents os fd len)),
     os_syscall3 = (\<lambda>nr a b c. turn act (os_syscall3 os nr a b c)),
     os_closefrom = (\<lambda>low s. s\<lparr>sh_kern := os_closefrom os low (others act s), sh_time := sh_time s + 1,
        sh_held := {fd \<in> sh_held s. fd < low}\<rparr>),
     os_uname_release = turn act (os_uname_release os)\<rparr>"

text \<open>The states that can arise: \<open>P\<close> is open, everything open is in \<open>Q\<close> or held by this thread.\<close>

definition th_ok :: "('k \<Rightarrow> fd_table) \<Rightarrow> int set \<Rightarrow> int set \<Rightarrow> int set \<Rightarrow> 'k shared \<Rightarrow> bool" where
  "th_ok fdt P Q H s \<longleftrightarrow> sh_held s = H \<and> H \<inter> P = {} \<and> P \<union> H \<subseteq> dom (fdt (sh_kern s)) \<and> dom (fdt (sh_kern s)) \<subseteq> Q \<union> H"

text \<open>The same while this thread changes none of the descriptors in \<open>P\<close>.\<close>

definition th_inv :: "('k \<Rightarrow> fd_table) \<Rightarrow> int set \<Rightarrow> int set \<Rightarrow> fd_table \<Rightarrow> int set \<Rightarrow> 'k shared \<Rightarrow> bool" where
  "th_inv fdt P Q U H s \<longleftrightarrow> th_ok fdt P Q H s \<and> (\<forall>fd\<in>P. fdt (sh_kern s) fd = U fd)"

locale fd_threads = fd_kernel +
  fixes act :: "'a act"
    and P :: "int set"
    and Q :: "int set"
  assumes act_keeps: "fd \<in> P \<or> fd \<in> H \<Longrightarrow> fdt (act n H k) fd = fdt k fd"
    and act_within: "fdt (act n H k) fd \<noteq> None \<Longrightarrow> fdt k fd \<noteq> None \<or> fd \<in> Q"
    and act_dirs: "d \<in> H \<Longrightarrow> dirs (act n H k) d = dirs k d"
    and act_errno: "act n H (os_set_errno os e k) = os_set_errno os e (act n H k)"
    and act_stat: "os_stat_dev os path (act n H k) = (case os_stat_dev os path k of (x, k') \<Rightarrow> (x, act n H k'))"
    and act_fstat: "d \<in> H \<Longrightarrow> os_fstat_dev os d (act n H k) = (case os_fstat_dev os d k of (x, k') \<Rightarrow> (x, act n H k'))"
begin

lemma th_ok_others:
  assumes "th_ok fdt P Q H s"
  shows "P \<union> H \<subseteq> dom (fdt (others act s))" "dom (fdt (others act s)) \<subseteq> Q \<union> H"
    "\<forall>d\<in>H. dirs (others act s) d = dirs (sh_kern s) d" "\<forall>fd\<in>P. fdt (others act s) fd = fdt (sh_kern s) fd"
proof -
  from assms have s: "sh_held s = H" "P \<union> H \<subseteq> dom (fdt (sh_kern s))" "dom (fdt (sh_kern s)) \<subseteq> Q \<union> H"
    by (simp_all add: th_ok_def)
  have same: "fdt (others act s) fd = fdt (sh_kern s) fd" if "fd \<in> P \<union> H" for fd
    using that s(1) act_keeps [of fd H "sh_time s" "sh_kern s"] by (auto simp: others_def)
  then show "\<forall>fd\<in>P. fdt (others act s) fd = fdt (sh_kern s) fd" by blast
  from same s(2) show "P \<union> H \<subseteq> dom (fdt (others act s))" by (metis domIff subset_iff)
  show "dom (fdt (others act s)) \<subseteq> Q \<union> H"
    using s(1,3) act_within [of "sh_time s" H "sh_kern s"] unfolding others_def by blast
  show "\<forall>d\<in>H. dirs (others act s) d = dirs (sh_kern s) d" using s(1) act_dirs by (simp add: others_def)
qed

text \<open>A call that changes descriptors outside \<open>P\<close> only.\<close>

lemma th_inv_step:
  assumes "th_inv fdt P Q U H s" "sh_held s' = H'" "H' \<inter> P = {}" "\<forall>fd\<in>P. fdt (sh_kern s') fd = fdt (others act s) fd"
    "H' \<subseteq> dom (fdt (sh_kern s'))" "dom (fdt (sh_kern s')) \<subseteq> Q \<union> H'"
  shows "th_inv fdt P Q U H' s'"
proof -
  from assms(1) have s: "th_ok fdt P Q H s" "\<forall>fd\<in>P. fdt (sh_kern s) fd = U fd" by (simp_all add: th_inv_def)
  note o = th_ok_others(1,4) [OF s(1)]
  then have "P \<subseteq> dom (fdt (sh_kern s'))" using assms(4) by (metis (no_types, lifting) UnI1 domIff subset_iff)
  with assms(2-6) o s(2) show ?thesis by (simp add: th_inv_def th_ok_def)
qed

text \<open>A call that leaves the table as the others have left it.\<close>

lemma turn_ok:
  assumes "th_inv fdt P Q U H s" "turn act f s = (x, s')" "fdt (snd (f (others act s))) = fdt (others act s)"
  shows "th_inv fdt P Q U H s'" "f (others act s) = (x, sh_kern s')"
proof -
  obtain k where k: "f (others act s) = (x, k)" "s' = s\<lparr>sh_kern := k, sh_time := sh_time s + 1\<rparr>"
    using assms(2) by (auto simp: turn_def split: prod.splits)
  then show "f (others act s) = (x, sh_kern s')" by simp
  from assms(1) have s: "th_ok fdt P Q H s" by (simp add: th_inv_def)
  then have "sh_held s = H" "H \<inter> P = {}" by (simp_all add: th_ok_def)
  with k assms(3) th_ok_others [OF s] show "th_inv fdt P Q U H s'" by (intro th_inv_step [OF assms(1)]) simp_all
qed

lemma getdents_threads: "getdents cfg (threads_os act os) d len = turn act (getdents cfg os d len)"
  by (simp add: getdents_def threads_os_def split: target_os.splits)

end

lemmas threads_sel = threads_os_def os.select_convs

sublocale fd_threads < tk: shared_kernel cfg "threads_os act os" "th_inv fdt P Q U" "\<lambda>s. dirs (sh_kern s)" P Q open_max release dirs_work
  "dirs_work \<and> (\<exists>fd. 0 \<le> fd \<and> fd < open_max \<and> fd < i32_MAX \<and> fd \<notin> Q)" False
  for U
proof (unfold_locales, goal_cases)
  case (1 H s fd)
  then show ?case using fd_range [of "sh_kern s" fd] by (auto simp: th_inv_def th_ok_def)
next
  case (2 H s d)
  then show ?case by (auto simp: th_inv_def th_ok_def)
next
  case (3 d s)
  then have s: "th_ok fdt P Q {d} s" by (simp add: th_inv_def)
  let ?T = "(fdt (others act s))(d := None)"
  have "\<forall>fd\<in>P. ?T fd = fdt (others act s) fd" "dom ?T \<subseteq> Q" "sh_held s = {d}" using s th_ok_others(2) [OF s] by (auto simp: th_ok_def)
  with close_fdt [of d "others act s"] show ?case
    by (intro th_inv_step [OF 3]) (simp_all add: threads_sel turn_def case_prod_unfold)
next
  case (4 s fd r s')
  from 4(2) have "turn act (os_fcntl_getfd os fd) s = (r, s')" by (simp add: threads_sel)
  note k = turn_ok [OF 4(1) this getfd_fdt]
  from th_ok_others [OF 4(1) [unfolded th_inv_def, THEN conjunct1]] have "fd \<in> P \<longrightarrow> fdt (others act s) fd \<noteq> None" "fdt (others act s) fd \<noteq> None \<longrightarrow> fd \<in> Q" by blast+
  with k getfd_ret [of fd "others act s"] fd_flags [of "others act s" fd] show ?case by (auto split: option.splits)
next
  case (5 s r s')
  from 5(2) have "turn act (os_sysconf_open_max os) s = (r, s')" by (simp add: threads_sel)
  from turn_ok [OF 5(1) this sysconf_fdt] sysconf_ret [of "others act s"] show ?case by simp
next
  case (6 s rel s')
  from 6(2) have "turn act (os_uname_release os) s = (rel, s')" by (simp add: threads_sel)
  from turn_ok [OF 6(1) this uname_fdt] uname_ret [of "others act s"] show ?case by simp
next
  case (7 s path ofl fd s')
  obtain k' where k': "os_open os path ofl (others act s) = (fd, k')" "sh_kern s' = k'"
    "sh_held s' = (if 0 \<le> fd then insert fd (sh_held s) else sh_held s)"
    using 7(3) by (auto simp: threads_sel turn_def split: prod.splits)
  from 7(1) have s: "th_ok fdt P Q {} s" and held: "sh_held s = {}" by (simp_all add: th_inv_def th_ok_def)
  note o = th_ok_others(1,2) [OF s]
  from open_law [OF k'(1) 7(2)] show ?case
  proof (elim disjE conjE exE)
    assume "fd < 0" "fdt k' = fdt (others act s)"
    with k' o held show ?case by (intro disjI1 conjI th_inv_step [OF 7(1)]) simp_all
  next
    fix x assume fd: "fdt (others act s) fd = None" "fdt k' = (fdt (others act s))(fd := Some x)"
    then have "0 \<le> fd" using fd_range [of k' fd x] by simp
    moreover have "fd \<notin> P" using fd(1) o(1) by blast
    ultimately show ?case using fd(2) k' o held by (intro disjI2 conjI th_inv_step [OF 7(1)]) auto
  qed
next
  case (8 s path ofl fd s')
  obtain k' where "os_open os path ofl (others act s) = (fd, k')" "sh_kern s' = k'"
    using 8(2,3) by (auto simp: threads_sel turn_def split: prod.splits)
  with open_dir [OF this(1) 8(3-5)] show ?case by simp
next
  case (9 d s path x s')
  from 9(2) have "turn act (os_stat_dev os path) s = (x, s')" by (simp add: threads_sel)
  then show ?case by (rule turn_ok(1) [OF 9(1)]) (simp add: stat_quiet [OF surjective_pairing])
next
  case (10 d s x s')
  from 10(2) have "turn act (os_fstat_dev os d) s = (x, s')" by (simp add: threads_sel)
  then show ?case by (rule turn_ok(1) [OF 10(1)]) (simp add: fstat_quiet [OF surjective_pairing])
next
  case (11 s ofl fd s1 dev s2 dev' s3)
  obtain k1 where k1: "os_open os ''/dev/fd'' ofl (others act s) = (fd, k1)" "sh_kern s1 = k1" "sh_held s1 = {fd}"
    using 11(2,3,4) by (auto simp: threads_sel turn_def th_inv_def th_ok_def split: prod.splits)
  obtain k2 where k2: "os_stat_dev os ''/dev'' k1 = ((0, dev), k2)" "sh_kern s2 = act (sh_time s1) {fd} k2" "sh_held s2 = {fd}"
    using 11(5) k1 act_stat [of "''/dev''" "sh_time s1" "{fd}" k1] by (auto simp: threads_sel turn_def others_def split: prod.splits)
  obtain k3 where k3: "os_fstat_dev os fd k2 = ((0, dev'), k3)" "sh_kern s3 = act (sh_time s2) {fd} (act (sh_time s1) {fd} k3)"
    using 11(6) k2 act_fstat [of fd "{fd}" "sh_time s2" "act (sh_time s1) {fd} k2"] act_fstat [of fd "{fd}" "sh_time s1" k2]
    by (auto simp: threads_sel turn_def others_def split: prod.splits)
  from fdescfs_law [OF 11(1) k1(1) 11(4) k2(1) k3(1) 11(7)] show ?case by (simp add: k3(2) act_dirs)
next
  case (12 d s len r bs s')
  from 12(2) have t: "turn act (getdents cfg os d len) s = ((r, bs), s')" by (simp add: getdents_threads)
  obtain x k' where g: "getdents cfg os d len (others act s) = ((fst x, snd x), k')" by (metis surj_pair prod.collapse)
  have "fdt (others act s) d \<noteq> None" using th_ok_others(1) [of "{d}" s] 12(1) by (auto simp: th_inv_def)
  from getdents_frame [OF this g] g show ?case by (intro turn_ok(1) [OF 12(1) t]) simp
next
  case (13 d s p n r bs s')
  from 13(3) have "turn act (getdents cfg os d (d_size (RawDirent cfg))) s = ((r, bs), s')" by (simp add: getdents_threads)
  then obtain k' where k': "getdents cfg os d (d_size (RawDirent cfg)) (others act s) = ((r, bs), k')" "sh_kern s' = k'"
    by (auto simp: turn_def split: prod.splits)
  note s = th_ok_others [OF 13(1) [unfolded th_inv_def, THEN conjunct1]]
  have "dirs (others act s) d = Some (p, n)" "fdt (others act s) d \<noteq> None" "P \<subseteq> dom (fdt (others act s))"
    "dom (fdt (others act s)) \<subseteq> insert d Q" using s 13(2) by auto
  from getdents_sandwich [OF this(1,2) k'(1) this(3,4)] show ?case unfolding k'(2) .
next
  case (14 s path ofl)
  have "has_slot open_max (fdt (others act s))" if "th_inv fdt P Q U {} s"
    using 14 th_ok_others(2) [of "{}" s] that unfolding th_inv_def has_slot_def by blast
  with 14 dirs_work_law [of path "others act s" ofl] show ?case by (auto simp: threads_sel turn_def split: prod.splits)
next
  case (15 s m s')
  let ?s = "s\<lparr>sh_kern := os_set_errno os 0 (sh_kern s)\<rparr>"
  have others: "others act ?s = os_set_errno os 0 (others act s)" by (simp add: others_def act_errno)
  obtain k' where k': "os_fcntl_maxfd os 0 (os_set_errno os 0 (others act s)) = (m, k')" "sh_kern s' = k'" "sh_held s' = sh_held s"
    using 15(3) others by (auto simp: threads_sel turn_def split: prod.splits)
  note s = th_ok_others(1,2) [OF 15(2) [unfolded th_inv_def, THEN conjunct1]]
  from maxfd_law [OF 15(1) k'(1)] have m: "fdt k' = fdt (others act s)"
    "m = - 1 \<and> (os_errno os k' = 0 \<longrightarrow> (\<forall>fd. fdt (others act s) fd = None)) \<or>
     fdt (others act s) m \<noteq> None \<and> (\<forall>fd. fdt (others act s) fd \<noteq> None \<longrightarrow> fd \<le> m)" by blast+
  have "sh_held s = {}" using 15(2) by (simp add: th_inv_def th_ok_def)
  then have "th_inv fdt P Q U {} s'" using s m(1) k'(2,3) by (intro th_inv_step [OF 15(2)]) simp_all
  moreover have "fdt (others act s) fd \<noteq> None" if "fd \<in> P" for fd using that s(1) by blast
  moreover have "0 \<le> m \<and> m < i32_MAX" if "fdt (others act s) m \<noteq> None" using that fd_range by blast
  moreover have "os_errno (threads_os act os) s' = os_errno os k'" using k'(2) by (simp add: threads_sel)
  ultimately show ?case using m(2) by (metis all_not_in_conv)
next
  case (16 s r v s')
  from 16(3) have "turn act (os_sysctl os [c_CTL_KERN os, c_KERN_PROC os, KERN_PROC_NFDS, 0]) s = ((r, v), s')" by (simp add: threads_sel)
  from turn_ok(1) [OF 16(2) this] show ?case by (simp add: sysctl_quiet [OF surjective_pairing])
next
  case (17 s v s')
  from 17(3) have "turn act (os_getdtablecount os) s = (v, s')" by (simp add: threads_sel)
  from turn_ok(1) [OF 17(2) this] show ?case by (simp add: dtablecount_law [OF 17(1) surjective_pairing])
qed

section \<open>Setting the close-on-exec flag\<close>

text \<open>An action of this thread on the descriptors in \<open>S\<close>, as seen on the descriptors in \<open>P\<close>.\<close>

lemma restrict_upd:
  assumes "\<forall>fd\<in>P. T' fd = upd eff S T fd" "eff None = None"
  shows "T' |` P = upd eff S (T |` P)"
  using assms by (auto simp: restrict_map_def upd_apply)

context fd_threads
begin

abbreviation th_tab :: "'a shared world \<Rightarrow> fd_table" where
  "th_tab w \<equiv> fdt (sh_kern (kern w)) |` P"

abbreviation th_iter :: "FdIter \<Rightarrow> 'a shared world \<Rightarrow> bool" where
  "th_iter it w \<equiv> th_ok fdt P Q (priv it) (kern w) \<and>
     fd_inv P Q cfg open_max dirs_work False (dirs (sh_kern (kern w))) it"

lemma th_inv_refl: "th_ok fdt P Q H s \<Longrightarrow> th_inv fdt P Q (fdt (sh_kern s)) H s"
  by (simp add: th_inv_def)

lemma th_inv_tab: "th_inv fdt P Q (fdt (sh_kern (kern w))) H (kern w') \<Longrightarrow> th_tab w' = th_tab w"
  by (auto simp: th_inv_def restrict_map_def)

text \<open>A call that changes flags only.\<close>

lemma th_ok_flags:
  assumes "th_ok fdt P Q H s" "sh_held s' = H" "dom (fdt (sh_kern s')) = dom (fdt (others act s))"
    "dirs (sh_kern s') = dirs (others act s)"
  shows "th_ok fdt P Q H s'" "\<forall>d\<in>H. dirs (sh_kern s') d = dirs (sh_kern s) d"
  using assms th_ok_others [OF assms(1)] by (simp_all add: th_ok_def)

lemma th_iter_same:
  assumes "th_iter it w" "th_ok fdt P Q (priv it) (kern w')" "\<forall>d\<in>priv it. dirs (sh_kern (kern w')) d = dirs (sh_kern (kern w)) d"
  shows "th_iter it w'"
  using assms fd_inv_mono [of P Q cfg open_max dirs_work False "dirs (sh_kern (kern w))" it P Q "dirs (sh_kern (kern w'))"] by blast

lemma set_cloexec_range_threads:
  assumes "target cfg = Linux" "lo \<le> hi \<or> \<not> debug_assertions cfg" "th_ok fdt P Q H (kern w)"
  shows "runs (set_cloexec_range cfg (threads_os act os) lo hi) w (\<lambda>r w'. keeps_statics release osreldate w w' \<and> (hi < lo \<longrightarrow> r = Err ()) \<and>
    th_ok fdt P Q H (kern w') \<and> (\<forall>d\<in>H. dirs (sh_kern (kern w')) d = dirs (sh_kern (kern w)) d) \<and> (case r of
      Ok _ \<Rightarrow> th_tab w' = upd (eff_cloexec (c_FD_CLOEXEC os)) {uint lo..uint hi} (th_tab w)
    | Err _ \<Rightarrow> th_tab w' = th_tab w))"
proof -
  let ?s = "kern w"
  obtain r k where k: "os_syscall3 os (c_SYS_close_range os) lo hi CLOSE_RANGE_CLOEXEC (others act ?s) = (r, k)" by fastforce
  let ?s' = "?s\<lparr>sh_kern := k, sh_time := sh_time ?s + 1\<rparr>"
  have call: "os_syscall3 (threads_os act os) (c_SYS_close_range (threads_os act os)) lo hi CLOSE_RANGE_CLOEXEC ?s = (r, ?s')"
    using k by (simp add: threads_sel turn_def)
  from range_cloexec_any [OF assms(1) k] have t: "fdt k = (if r = 0 then
      upd (eff_cloexec (c_FD_CLOEXEC os)) {uint lo..uint hi} (fdt (others act ?s)) else fdt (others act ?s))" "dirs k = dirs (others act ?s)"
      "hi < lo \<Longrightarrow> r \<noteq> 0"
    by simp_all
  have "dom (fdt k) = dom (fdt (others act ?s))" by (simp add: t(1) dom_upd_cloexec)
  with assms(3) t(2) have ok: "th_ok fdt P Q H ?s'" "\<forall>d\<in>H. dirs k d = dirs (sh_kern ?s) d"
    using th_ok_flags [OF assms(3), of ?s'] by (simp_all add: th_ok_def)
  note o = th_ok_others(4) [OF assms(3)]
  have "fdt k |` P = (if r = 0 then upd (eff_cloexec (c_FD_CLOEXEC os)) {uint lo..uint hi} (fdt (sh_kern ?s) |` P) else fdt (sh_kern ?s) |` P)"
    using o by (auto simp: t(1) restrict_map_def upd_apply)
  with call ok assms(2) t(3) show ?thesis
    by (auto simp: set_cloexec_range_def wp keeps_statics_def statics_ok_def)
qed

lemma set_cloexec_threads:
  assumes "th_ok fdt P Q H (kern w)"
  shows "runs (set_cloexec (threads_os act os) fd) w (\<lambda>_ w'. only_kern w w' \<and> th_ok fdt P Q H (kern w') \<and>
    (\<forall>d\<in>H. dirs (sh_kern (kern w')) d = dirs (sh_kern (kern w)) d) \<and>
    th_tab w' = upd (eff_cloexec (c_FD_CLOEXEC os)) {fd} (th_tab w))"
proof -
  let ?s = "kern w" and ?c = "c_FD_CLOEXEC os"
  obtain r k1 where r: "os_fcntl_getfd os fd (others act ?s) = (r, k1)" by fastforce
  let ?s1 = "?s\<lparr>sh_kern := k1, sh_time := sh_time ?s + 1\<rparr>"
  have call: "os_fcntl_getfd (threads_os act os) fd ?s = (r, ?s1)" using r by (simp add: threads_sel turn_def)
  have k1: "fdt k1 = fdt (others act ?s)" "dirs k1 = dirs (others act ?s)"
    using r getfd_fdt [of fd "others act ?s"] getfd_dirs [of fd "others act ?s"] by simp_all
  have held: "sh_held ?s = H" using assms by (simp add: th_ok_def)
  have s1: "th_ok fdt P Q H ?s1" "\<forall>d\<in>H. dirs (sh_kern ?s1) d = dirs (sh_kern ?s) d"
    using th_ok_flags [OF assms, of ?s1] k1 held by simp_all
  have P1: "\<forall>x\<in>P. fdt (sh_kern ?s1) x = fdt (sh_kern ?s) x" using th_ok_others(4) [OF assms] k1 by simp
  have flags: "fdt (sh_kern ?s) fd = Some r" "0 \<le> r" if mem: "fd \<in> P"
  proof -
    obtain fl where fl: "fdt (others act ?s) fd = Some fl" using mem th_ok_others(1) [OF assms] by blast
    then have "r = fl" using getfd_ret [of fd "others act ?s"] r by simp
    with fl mem th_ok_others(4) [OF assms] fd_flags [OF fl] show "fdt (sh_kern ?s) fd = Some r" "0 \<le> r" by simp_all
  qed
  show ?thesis
  proof (cases "0 \<le> r \<and> r AND ?c \<noteq> ?c")
    case False
    have "fdt (sh_kern ?s1) x = upd (eff_cloexec ?c) {fd} (fdt (sh_kern ?s)) x" if "x \<in> P" for x
    proof (cases "x = fd")
      case True
      then show ?thesis using that P1 flags False or_absorb_flags [of r ?c] by (simp add: upd_apply)
    qed (use that P1 in \<open>simp add: upd_apply\<close>)
    then have "th_tab (w\<lparr>kern := ?s1\<rparr>) = upd (eff_cloexec ?c) {fd} (th_tab w)"
      using restrict_upd [of P "fdt (sh_kern ?s1)" "eff_cloexec ?c"] by simp
    with False call s1 show ?thesis by (auto simp: set_cloexec_def wp threads_os_def)
  next
    case True
    obtain r' k2 where k2: "os_fcntl_setfd os fd (r OR ?c) (others act ?s1) = (r', k2)" by fastforce
    let ?s2 = "?s1\<lparr>sh_kern := k2, sh_time := sh_time ?s1 + 1\<rparr>"
    have call2: "os_fcntl_setfd (threads_os act os) fd (r OR ?c) ?s1 = (r', ?s2)" using k2 by (simp add: threads_sel turn_def)
    have "0 \<le> r OR ?c" using True cloexec_pos by simp
    then have t: "fdt k2 = (if fdt (others act ?s1) fd = None then fdt (others act ?s1) else (fdt (others act ?s1))(fd := Some (r OR ?c)))"
      "dirs k2 = dirs (others act ?s1)"
      using k2 setfd_fdt [of "others act ?s1" fd "r OR ?c"] setfd_bad [of "others act ?s1" fd "r OR ?c"]
        setfd_dirs [of fd "r OR ?c" "others act ?s1"] by simp_all
    have "dom (fdt k2) = dom (fdt (others act ?s1))" by (auto simp: t(1))
    with t(2) held have s2: "th_ok fdt P Q H ?s2" "\<forall>d\<in>H. dirs (sh_kern ?s2) d = dirs (sh_kern ?s1) d"
      using th_ok_flags [OF s1(1), of ?s2] by simp_all
    have "fdt (sh_kern ?s2) x = upd (eff_cloexec ?c) {fd} (fdt (sh_kern ?s)) x" if "x \<in> P" for x
    proof (cases "x = fd")
      case True
      then show ?thesis using that P1 flags th_ok_others(4) [OF s1(1)] by (simp add: upd_apply t(1))
    next
      case False
      then show ?thesis using that P1 th_ok_others(4) [OF s1(1)] by (simp add: upd_apply t(1))
    qed
    then have "th_tab (w\<lparr>kern := ?s2\<rparr>) = upd (eff_cloexec ?c) {fd} (th_tab w)"
      using restrict_upd [of P "fdt (sh_kern ?s2)" "eff_cloexec ?c"] by simp
    moreover have "c_FD_CLOEXEC (threads_os act os) = ?c" by (simp add: threads_os_def)
    ultimately show ?thesis using True call call2 s1(2) s2 by (simp add: set_cloexec_def wp)
  qed
qed

end

sublocale fd_threads < tx: cloexec_kernel cfg "threads_os act os" "\<lambda>Q' it w. Q \<subseteq> Q' \<and> th_iter it w" "\<lambda>it w. th_tab w" "\<lambda>w. th_tab w"
  "keeps_statics release osreldate" "\<lambda>w. th_ok fdt P Q {} (kern w)"
  "\<lambda>b w. statics_ok release osreldate w \<and> (b_skip_nfds b \<or> \<not> cfg_nfds (target cfg)) \<and>
     (dirs_work \<and> (\<exists>fd. 0 \<le> fd \<and> fd < open_max \<and> fd < i32_MAX \<and> fd \<notin> Q) \<and> cfg_dirfd (target cfg) \<and> b_dirfd b \<or>
      (\<forall>fd\<in>P. fd \<le> scan_max open_max))"
proof (unfold_locales, goal_cases)
  case (1 Q' it w)
  then have "P \<subseteq> dom (fdt (sh_kern (kern w)))" by (simp add: th_ok_def)
  then have dom: "dom (th_tab w) = P" by auto
  have "th_inv fdt P Q (fdt (sh_kern (kern w))) (priv it) (kern w) \<and>
      fd_inv P Q cfg open_max dirs_work False (dirs (sh_kern (kern w))) it" using 1 th_inv_refl by blast
  note run = tk.FdIter_next_shared [OF this]
  have marks: "none_from (th_tab w) c \<longleftrightarrow> (\<forall>fd\<in>P. fd < c)" "least_from (th_tab w) c fd \<longleftrightarrow> c \<le> fd \<and> (\<forall>x\<in>P. c \<le> x \<longrightarrow> fd \<le> x)" for c fd
    unfolding none_from_def least_from_def domIff [symmetric] dom by blast+
  show ?case
  proof (rule runs_conseq [OF run], goal_cases)
    case (1 x w')
    obtain r it' where x: "x = (r, it')" by fastforce
    with 1 have w': "th_inv fdt P Q (fdt (sh_kern (kern w))) (priv it') (kern w')" by simp
    from x 1 w' th_inv_tab [OF w'] \<open>Q \<subseteq> Q' \<and> _\<close> show ?case
      by (auto simp: next_post_def marks only_kern_keeps th_inv_def split: option.splits)
  qed
next
  case (2 Q' it w)
  then show ?case by (simp add: fd_inv_def)
next
  case (3 Q' it w)
  have "dom (th_tab w) \<subseteq> {fd. fdt (sh_kern (kern w)) fd \<noteq> None}" by auto
  then show ?case by (rule finite_subset) (rule finite_fds)
next
  case (4 Q' it w)
  then have "th_inv fdt P Q (fdt (sh_kern (kern w))) (priv it) (kern w) \<and>
      fd_inv P Q cfg open_max dirs_work False (dirs (sh_kern (kern w))) it" using th_inv_refl by blast
  note run = tk.FdIter_drop_shared [OF this]
  show ?case
  proof (rule runs_conseq [OF run], goal_cases)
    case (1 x w')
    with th_inv_tab [of w "{}" w'] show ?case by (simp add: only_kern_keeps th_inv_def)
  qed
next
  case (7 w w' w'')
  then show ?case by (rule keeps_statics_trans)
next
  case (10 it w fd)
  then have ok: "th_ok fdt P Q (priv it) (kern w)" "th_iter it w" by simp_all
  show ?case
  proof (rule runs_conseq [OF set_cloexec_threads [OF ok(1)]], goal_cases)
    case (1 x w')
    with th_iter_same [OF ok(2), of w'] show ?case by (simp add: only_kern_keeps threads_os_def)
  qed
next
  case (11 w b m)
  have "th_inv fdt P Q (fdt (sh_kern (kern w))) {} (kern w)" using 11(1) by (rule th_inv_refl)
  note run = tk.iter_from_shared [OF conjunct1 [OF 11(2)] this 11(4), of "possible True b"]
  show ?case
  proof (rule runs_conseq [OF run], goal_cases)
    case (3 it w')
    with th_inv_tab [of w "priv it" w'] 11(3) show ?case by (simp add: keeps_statics_def th_inv_def)
  qed (use 11(2) in \<open>auto simp: possible_def\<close>)
next
  case (12 b w w')
  then show ?case by (simp add: keeps_statics_def)
next
  case (13 lo hi w)
  show ?case
    by (rule runs_conseq [OF set_cloexec_range_threads [OF 13]]) (simp add: threads_os_def split: result.splits)
next
  case (14 lo hi it w)
  then have ok: "th_ok fdt P Q (priv it) (kern w)" "th_iter it w" by simp_all
  show ?case
  proof (rule runs_conseq [OF set_cloexec_range_threads [OF 14(1) disjI1 [OF 14(2)] ok(1)]], goal_cases)
    case (1 x w')
    with th_iter_same [OF ok(2), of w'] show ?case by (simp add: threads_os_def split: result.splits)
  qed
next
  case (15 w fd)
  then show ?case by (auto simp: restrict_map_def dest: fd_range split: if_splits)
next
  case (16 it w fd)
  then show ?case by (auto simp: restrict_map_def dest: fd_range split: if_splits)
qed (auto simp: keeps_statics_refl)

section \<open>Properties\<close>

context fd_threads
begin

lemmas collect_threads = tk.collect_shared
lemmas set_fds_cloexec_threads = tx.set_fds_cloexec_api(2)

end

text \<open>
  C5. \<^verbatim>\<open>iter_open_fds_threadsafe(minfd)\<close> can be used while other threads open and close descriptors before each
  of its system calls, on every target and on every kernel that keeps the contract: the iteration ends, without fault,
  lists in ascending order every descriptor from \<^verbatim>\<open>minfd\<close> on that stays open all the time, lists only descriptors that are open
  at some time, never the one the iterator holds for itself, and leaves no descriptor behind.
\<close>

theorem threadsafe_iteration:
  assumes "fd_threads cfg os fdt dirs open_max release osreldate dirs_work act P Q"
    and "statics_ok release osreldate w" "minfd \<le> i32_MAX" "th_ok fdt P Q {} (kern w)"
    and "dirs_work \<and> cfg_dirfd (target cfg) \<and> (\<exists>fd. 0 \<le> fd \<and> fd < open_max \<and> fd < i32_MAX \<and> fd \<notin> Q) \<or>
      (\<forall>fd\<in>P. fd \<le> scan_max open_max)"
  shows "\<exists>l w'. bnd (iter_open_fds_threadsafe cfg (threads_os act os) minfd) (FdIter_collect cfg (threads_os act os)) w = Some (Inr (l, w')) \<and>
    sorted_wrt (<) l \<and> (\<forall>fd\<in>P. minfd \<le> fd \<longrightarrow> fd \<in> set l) \<and> (\<forall>fd\<in>set l. minfd \<le> fd \<and> fd \<in> Q) \<and> th_ok fdt P Q {} (kern w')"
proof -
  let ?b = "threadsafe cfg True FdIterBuilder_new"
  have b: "b_skip_nfds ?b \<or> \<not> cfg_nfds (target cfg)" "b_dirfd ?b" "\<not> b_possible ?b" by (simp_all add: threadsafe_def FdIterBuilder_new_def)
  show ?thesis
    by (rule runsE [OF fd_threads.collect_threads [OF assms(1,2) _ assms(3), where U = "fdt (sh_kern (kern w))" and b = ?b]])
      (use assms(4,5) b in \<open>auto simp: iter_open_fds_threadsafe_def th_inv_def\<close>)
qed

text \<open>
  C3. \<^verbatim>\<open>set_fds_cloexec_threadsafe(minfd, keep_fds)\<close> keeps its promise while other threads open and close
  descriptors before each of its system calls: it returns, without fault, and every descriptor that stays open all the
  time has the close-on-exec flag afterwards if it is at least \<^verbatim>\<open>minfd\<close> and not in \<^verbatim>\<open>keep_fds\<close>, and the flags it had before
  otherwise. No descriptor is left behind. This holds on every target, with or without \<^verbatim>\<open>close_range()\<close>.
\<close>

theorem set_fds_cloexec_among_threads:
  assumes "fd_threads cfg os fdt dirs open_max release osreldate dirs_work act P Q"
    and "statics_ok release osreldate w" "minfd \<le> i32_MAX" "keep_arg cfg minfd keep" "th_ok fdt P Q {} (kern w)"
    and "dirs_work \<and> cfg_dirfd (target cfg) \<and> (\<exists>fd. 0 \<le> fd \<and> fd < open_max \<and> fd < i32_MAX \<and> fd \<notin> Q) \<or>
      (\<forall>fd\<in>P. fd \<le> scan_max open_max)"
  shows "\<exists>w'. set_fds_cloexec_threadsafe cfg (threads_os act os) minfd keep w = Some (Inr ((), w')) \<and>
    th_ok fdt P Q {} (kern w') \<and> (\<forall>fd\<in>P. fdt (sh_kern (kern w')) fd = (if minfd \<le> fd \<and> fd \<notin> set keep
       then map_option (\<lambda>fl. fl OR c_FD_CLOEXEC os) (fdt (sh_kern (kern w)) fd) else fdt (sh_kern (kern w)) fd))"
proof -
  let ?b = "threadsafe cfg True FdIterBuilder_new"
  have b: "b_skip_nfds ?b \<or> \<not> cfg_nfds (target cfg)" "b_dirfd ?b" by (simp_all add: threadsafe_def FdIterBuilder_new_def)
  have pos: "0 \<le> fd" if "fd \<in> P" for fd
    using that assms(5) fd_kernel.fd_range [OF fd_threads.axioms(1) [OF assms(1)], of "sh_kern (kern w)" fd] by (auto simp: th_ok_def)
  have "statics_ok release osreldate w \<and> (b_skip_nfds ?b \<or> \<not> cfg_nfds (target cfg)) \<and>
     (dirs_work \<and> (\<exists>fd. 0 \<le> fd \<and> fd < open_max \<and> fd < i32_MAX \<and> fd \<notin> Q) \<and> cfg_dirfd (target cfg) \<and> b_dirfd ?b \<or>
      (\<forall>fd\<in>P. fd \<le> scan_max open_max))" using assms(2,6) b by blast
  note run = fd_threads.set_fds_cloexec_threads [OF assms(1,5) this assms(3,4)]
  show ?thesis
  proof (rule runsE [OF run], goal_cases)
    case (1 u w')
    have c: "c_FD_CLOEXEC (threads_os act os) = c_FD_CLOEXEC os" by (simp add: threads_os_def)
    have "fdt (sh_kern (kern w')) fd = (if minfd \<le> fd \<and> fd \<notin> set keep
       then map_option (\<lambda>fl. fl OR c_FD_CLOEXEC os) (fdt (sh_kern (kern w)) fd) else fdt (sh_kern (kern w)) fd)" if "fd \<in> P" for fd
    proof -
      have "(fdt (sh_kern (kern w')) |` P) fd = upd (eff_cloexec (c_FD_CLOEXEC os)) ({max minfd 0..} - set keep) (fdt (sh_kern (kern w)) |` P) fd"
        using 1(2) c by simp
      with that pos [OF that] show ?thesis by (simp add: upd_apply eff_cloexec_def)
    qed
    with 1 show ?case by auto
  qed
qed

end
