(* ===== verification/File_Kernel.thy ===== *)
theory File_Kernel
  imports Iter_Fds
begin

text \<open>
  What programs around the crate rely on beside \<open>fd_kernel\<close>: the unit tests and the example open the root directory and
  change the flags of a descriptor. The locale \<open>file_kernel\<close> adds what POSIX promises of \<^verbatim>\<open>open("/")\<close> (the descriptor is the
  lowest one that is free, its close-on-exec flag is as the flags ask for) and of the value of \<^verbatim>\<open>fcntl(F_SETFD)\<close>. That \<^verbatim>\<open>open("/")\<close>
  succeeds as long as a descriptor number below the limit is free is what the tests assert of the machine they run on.
\<close>

text \<open>The free numbers that \<^verbatim>\<open>open\<close> may hand out and that the scan without a directory reaches.\<close>

definition free_fds :: "int \<Rightarrow> fd_table \<Rightarrow> int set" where
  "free_fds open_max T = {fd. 0 \<le> fd \<and> fd < min open_max 65536 \<and> T fd = None}"

lemma finite_free_fds [simp]: "finite (free_fds open_max T)"
  by (rule finite_subset [of _ "{0..65536}"]) (auto simp: free_fds_def)

lemma free_has_slot: "0 < card (free_fds open_max T) \<Longrightarrow> has_slot open_max T"
proof -
  assume "0 < card (free_fds open_max T)"
  then obtain fd where "fd \<in> free_fds open_max T" by (metis card.empty equals0I less_irrefl)
  then show ?thesis by (auto simp: free_fds_def has_slot_def intro!: exI [of _ fd])
qed

lemma free_lowest:
  assumes "0 < card (free_fds open_max T)" "0 \<le> fd" "T fd = None" "\<forall>d. 0 \<le> d \<and> d < fd \<longrightarrow> T d \<noteq> None"
  shows "fd \<in> free_fds open_max T"
proof -
  obtain x where x: "x \<in> free_fds open_max T" using assms(1) by (metis card.empty equals0I less_irrefl)
  then have "fd \<le> x" using assms(2,4) by (metis (mono_tags, lifting) free_fds_def mem_Collect_eq not_le)
  with x assms(2,3) show ?thesis by (auto simp: free_fds_def)
qed

lemma free_fds_open: "free_fds open_max (T(fd := Some x)) = free_fds open_max T - {fd}"
  by (auto simp: free_fds_def)

text \<open>Opening descriptors \<open>S\<close> leaves an iterator able to reach all of them, as long as one more number is free.\<close>

lemma reaches_more:
  assumes "reaches cfg open_max dirs_work b T" "dom T' \<subseteq> dom T \<union> S" "S \<subseteq> free_fds open_max T" "card S < card (free_fds open_max T)"
  shows "reaches cfg open_max dirs_work b T'"
proof -
  have "free_fds open_max T - S \<subseteq> free_fds open_max T'" using assms(2) by (auto simp: free_fds_def)
  then have "card (free_fds open_max T - S) \<le> card (free_fds open_max T')" by (rule card_mono [rotated]) simp
  moreover have "card (free_fds open_max T - S) = card (free_fds open_max T) - card S"
    by (rule card_Diff_subset [OF finite_subset [OF assms(3) finite_free_fds] assms(3)])
  ultimately have "has_slot open_max T'" using assms(4) by (intro free_has_slot) linarith
  moreover have "fd \<le> scan_max open_max" if "fd \<in> S" for fd using that assms(3) by (auto simp: free_fds_def scan_max_def)
  ultimately show ?thesis using assms(1,2) unfolding reaches_def by (metis UnE domIff subsetD)
qed

lemma reaches_open:
  assumes "reaches cfg open_max dirs_work b T" "1 < card (free_fds open_max T)" "fd \<in> free_fds open_max T"
  shows "reaches cfg open_max dirs_work b (T(fd := Some x))"
  by (rule reaches_more [OF assms(1), where S = "{fd}"]) (use assms in auto)

locale file_kernel = fd_kernel +
  assumes root_open: "os_open os ''/'' ofl k = (fd, k') \<Longrightarrow>
      fd < 0 \<and> fdt k' = fdt k \<or>
      0 \<le> fd \<and> fdt k fd = None \<and> (\<forall>d. 0 \<le> d \<and> d < fd \<longrightarrow> fdt k d \<noteq> None) \<and>
        (\<exists>fl. fdt k' = (fdt k)(fd := Some fl) \<and> fl AND c_FD_CLOEXEC os = (if O_CLOEXEC \<in> set ofl then c_FD_CLOEXEC os else 0))"
    and root_opens: "has_slot open_max (fdt k) \<Longrightarrow> 0 \<le> fst (os_open os ''/'' ofl k)"
    and setfd_ret: "fdt k fd \<noteq> None \<Longrightarrow> 0 \<le> fl \<Longrightarrow> fst (os_fcntl_setfd os fd fl k) = 0"
begin

text \<open>Opening \<^verbatim>\<open>/\<close> where a number is free.\<close>

lemma open_root_runs:
  assumes "has_slot open_max (fdt (kern w))"
  shows "runs (sys (os_open os ''/'' ofl)) w (\<lambda>fd w'. only_kern w w' \<and> 0 \<le> fd \<and> fdt (kern w) fd = None \<and>
    (\<forall>d. 0 \<le> d \<and> d < fd \<longrightarrow> fdt (kern w) d \<noteq> None) \<and>
    (\<exists>fl. fdt (kern w') = (fdt (kern w))(fd := Some fl) \<and> fl AND c_FD_CLOEXEC os = (if O_CLOEXEC \<in> set ofl then c_FD_CLOEXEC os else 0)))"
proof -
  obtain fd k' where "os_open os ''/'' ofl (kern w) = (fd, k')" by fastforce
  with root_open [OF this] root_opens [OF assms, of ofl] show ?thesis by (simp add: wp)
qed

lemma close_opened: "T fd = None \<Longrightarrow> fdt k = T(fd := Some fl) \<Longrightarrow> fdt (snd (os_close os fd k)) = T"
  by (simp add: close_fdt fun_upd_idem)

end

end
