(* ===== verification/Ref_Kernel.thy ===== *)
theory Ref_Kernel
  imports Statics Threads File_Kernel
begin

text \<open>
  A small kernel that keeps the contract \<open>fd_kernel\<close>, for every target: a descriptor table as an
  association list, descriptor directories with a read position, \<^verbatim>\<open>close_range()\<close> and the directories
  as features that can be present or absent. Its interpretation shows that the contract can be met,
  and the model of the crate can be run on it.
\<close>

section \<open>Definitions\<close>

record rk =
  rk_tab :: "(int \<times> nat) list"
  rk_dirs :: "(int \<times> bool \<times> int) list"
  rk_errno :: int

definition ref_fds :: "rk \<Rightarrow> int list" where
  "ref_fds k = filter (\<lambda>fd. 0 \<le> fd \<and> fd < i32_MAX) (map fst (rk_tab k))"

definition ref_fdt :: "rk \<Rightarrow> fd_table" where
  "ref_fdt k fd = (if 0 \<le> fd \<and> fd < i32_MAX then map_option int (map_of (rk_tab k) fd) else None)"

definition ref_dirs :: "rk \<Rightarrow> int \<Rightarrow> (int \<times> nat) option" where
  "ref_dirs k fd = map_option (\<lambda>(dots, p). (p, nat (i32_MAX - p) + (if dots then 1 else 0))) (map_of (rk_dirs k) fd)"

definition ref_open_max :: int where
  "ref_open_max = 1024"

text \<open>\<open>5.4.0-generic\<close>, and a version of FreeBSD with or without \<^verbatim>\<open>close_range()\<close>.\<close>

definition ref_release :: "u8 list" where
  "ref_release = [53, 46, 52, 46, 48, 45, 103, 101, 110, 101, 114, 105, 99, 0, 0]"

definition ref_osreldate :: "bool \<Rightarrow> int" where
  "ref_osreldate cr = (if cr then 1300000 else 1100000)"

definition ref_dirs_work :: "target_os \<Rightarrow> bool \<Rightarrow> bool" where
  "ref_dirs_work t dr \<longleftrightarrow> dr \<and> t \<in> {Linux, Netbsd, Macos, Ios, Solaris, Illumos}"

function first_free :: "int list \<Rightarrow> int \<Rightarrow> int \<Rightarrow> int option" where
  "first_free used a b = (if b \<le> a then None else if a \<notin> set used then Some a else first_free used (a + 1) b)"
  by pat_completeness auto
termination by (relation "measure (\<lambda>(used, a, b). nat (b - a))") auto

declare first_free.simps [simp del]

definition ref_next :: "rk \<Rightarrow> int \<Rightarrow> int option" where
  "ref_next k p = (case filter (\<lambda>fd. p \<le> fd) (ref_fds k) of [] \<Rightarrow> None | x # xs \<Rightarrow> Some (fold min xs x))"

text \<open>A directory entry, padded to a multiple of eight bytes.\<close>

definition ref_block :: "dirent_layout \<Rightarrow> bool \<Rightarrow> dir_entry \<Rightarrow> u8 list" where
  "ref_block L be e =
     (let name = entry_name e;
          n = align_up (d_name_off L + length name + 1) 8;
          lo = word_of_nat (n mod 256); hi = word_of_nat (n div 256)
      in replicate (d_reclen_off L) 0 @ (if be then [hi, lo] else [lo, hi]) @
         replicate (d_name_off L - d_reclen_off L - 2) 0 @ name @ [0] @
         replicate (n - (d_name_off L + length name + 1)) 0)"

definition ref_set_dir :: "int \<Rightarrow> bool \<times> int \<Rightarrow> rk \<Rightarrow> rk" where
  "ref_set_dir d v k = k\<lparr>rk_dirs := (d, v) # rk_dirs k\<rparr>"

definition ref_getdents :: "dirent_layout \<Rightarrow> bool \<Rightarrow> int \<Rightarrow> rk \<Rightarrow> (int \<times> u8 list) \<times> rk" where
  "ref_getdents L be d k = (case map_of (rk_dirs k) d of
     None \<Rightarrow> ((- 1, []), k)
   | Some (dots, p) \<Rightarrow>
       if dots then (let bs = ref_block L be Dot @ ref_block L be Dot_Dot
                     in ((int (length bs), bs), ref_set_dir d (False, p) k))
       else (case ref_next k p of
          None \<Rightarrow> ((0, []), k)
        | Some fd \<Rightarrow> (let bs = ref_block L be (Fd_Entry fd)
                      in ((int (length bs), bs), ref_set_dir d (False, fd + 1) k))))"

definition ref_close :: "(int \<Rightarrow> bool) \<Rightarrow> rk \<Rightarrow> rk" where
  "ref_close P k = k\<lparr>rk_tab := filter (\<lambda>x. \<not> P (fst x)) (rk_tab k), rk_dirs := filter (\<lambda>x. \<not> P (fst x)) (rk_dirs k)\<rparr>"

definition ref_cloexec :: "(int \<Rightarrow> bool) \<Rightarrow> rk \<Rightarrow> rk" where
  "ref_cloexec P k = k\<lparr>rk_tab := map (\<lambda>(fd, fl). (fd, if P fd then fl OR 1 else fl)) (rk_tab k)\<rparr>"

definition ref_close_range :: "bool \<Rightarrow> c_uint \<Rightarrow> c_uint \<Rightarrow> c_uint \<Rightarrow> rk \<Rightarrow> int \<times> rk" where
  "ref_close_range cr lo hi flg k =
     (if \<not> cr then (- 1, k\<lparr>rk_errno := 38\<rparr>)
      else if hi < lo then (- 1, k\<lparr>rk_errno := 22\<rparr>)
      else if flg = 0 then (0, ref_close (\<lambda>fd. uint lo \<le> fd \<and> fd \<le> uint hi) k)
      else if flg = CLOSE_RANGE_CLOEXEC then (0, ref_cloexec (\<lambda>fd. uint lo \<le> fd \<and> fd \<le> uint hi) k)
      else (- 1, k\<lparr>rk_errno := 22\<rparr>))"

definition ref_open :: "bool \<Rightarrow> rk \<Rightarrow> int \<times> rk" where
  "ref_open dr k = (case if dr then first_free (ref_fds k) 0 ref_open_max else None of
     None \<Rightarrow> (- 1, k\<lparr>rk_errno := 2\<rparr>)
   | Some fd \<Rightarrow> (fd, k\<lparr>rk_tab := (fd, 1) # rk_tab k, rk_dirs := (fd, True, 0) # rk_dirs k\<rparr>))"

text \<open>The root directory can always be opened; it is not a descriptor directory.\<close>

definition ref_open_root :: "open_flag list \<Rightarrow> rk \<Rightarrow> int \<times> rk" where
  "ref_open_root ofl k = (case first_free (ref_fds k) 0 ref_open_max of
     None \<Rightarrow> (- 1, k\<lparr>rk_errno := 24\<rparr>)
   | Some fd \<Rightarrow> (fd, k\<lparr>rk_tab := (fd, if O_CLOEXEC \<in> set ofl then 1 else 0) # rk_tab k\<rparr>))"

definition ref_setfd :: "int \<Rightarrow> int \<Rightarrow> rk \<Rightarrow> int \<times> rk" where
  "ref_setfd fd fl k =
     (if fd \<in> set (ref_fds k) \<and> 0 \<le> fl then (0, k\<lparr>rk_tab := (fd, nat fl) # rk_tab k\<rparr>)
      else (- 1, k\<lparr>rk_errno := 9\<rparr>))"

definition ref_count :: "rk \<Rightarrow> int" where
  "ref_count k = int (length (remdups (ref_fds k)))"

definition ref_os :: "target_os \<Rightarrow> bool \<Rightarrow> bool \<Rightarrow> bool \<Rightarrow> rk os" where
  "ref_os t be cr dr = (let L = RawDirent (ref_config t False be) in
    \<lparr>c_FD_CLOEXEC = 1, c_EINVAL = 22, c_SYS_close_range = 436, c_CTL_KERN = 1, c_KERN_PROC = 14, c_KERN_OSRELDATE = 24,
     os_errno = rk_errno,
     os_set_errno = (\<lambda>e k. k\<lparr>rk_errno := e\<rparr>),
     os_close = (\<lambda>fd k. (if fd \<in> set (ref_fds k) then 0 else - 1, ref_close (\<lambda>x. x = fd) k)),
     os_fcntl_getfd = (\<lambda>fd k. (case ref_fdt k fd of None \<Rightarrow> - 1 | Some fl \<Rightarrow> fl, k)),
     os_fcntl_setfd = ref_setfd,
     os_fcntl_maxfd = (\<lambda>_ k. (fold max (ref_fds k) (- 1), k)),
     os_sysconf_open_max = (\<lambda>k. (ref_open_max, k)),
     os_sysctl = (\<lambda>mib k. (if mib = [1, 14, KERN_PROC_NFDS, 0] then (0, ref_count k)
        else if mib = [1, 24] then (0, ref_osreldate cr) else (- 1, 0), k)),
     os_getdtablecount = (\<lambda>k. (ref_count k, k)),
     os_open = (\<lambda>path fl. if path = ''/'' then ref_open_root fl else ref_open dr),
     os_stat_dev = (\<lambda>path k. ((0, 1), k)),
     os_fstat_dev = (\<lambda>fd k. ((0, 2), k)),
     os_getdents64 = (\<lambda>fd len. ref_getdents L be (uint fd)),
     os_getdirentries = (\<lambda>fd len. ref_getdents L be fd),
     os_syscall_getdirentries = (\<lambda>nr fd len. ref_getdents L be fd),
     os_getdents = (\<lambda>fd len. ref_getdents L be fd),
     os_syscall3 = (\<lambda>nr. ref_close_range cr),
     os_closefrom = (\<lambda>low. ref_close (\<lambda>fd. low \<le> fd)),
     os_uname_release = (\<lambda>k. (ref_release, k))\<rparr>)"

section \<open>Lemmas\<close>

lemma map_of_filter_key: "map_of (filter (\<lambda>x. P (fst x)) xs) a = (if P a then map_of xs a else None)"
  by (induction xs) auto

lemma ref_fdt_None: "ref_fdt k fd = None \<longleftrightarrow> fd \<notin> set (ref_fds k)"
  by (auto simp: ref_fdt_def ref_fds_def map_of_eq_None_iff)

lemma ref_fds_range: "fd \<in> set (ref_fds k) \<Longrightarrow> 0 \<le> fd \<and> fd < i32_MAX"
  by (simp add: ref_fds_def)

lemma ref_fdt_close: "ref_fdt (ref_close P k) = upd eff_close {fd. P fd} (ref_fdt k)"
  by (rule ext) (simp add: ref_fdt_def ref_close_def upd_apply map_of_filter_key [where P = "\<lambda>x. \<not> P x"])

lemma ref_dirs_close: "\<not> P d \<Longrightarrow> ref_dirs (ref_close P k) d = ref_dirs k d"
  by (simp add: ref_dirs_def ref_close_def map_of_filter_key [where P = "\<lambda>x. \<not> P x"])

lemma map_of_ref_cloexec:
  "map_of (map (\<lambda>(fd, fl). (fd, if P fd then fl OR 1 else fl)) xs) a =
     map_option (\<lambda>fl. if P a then fl OR 1 else fl) (map_of xs a)" for xs :: "(int \<times> nat) list"
  by (induction xs) auto

lemma ref_fdt_cloexec: "ref_fdt (ref_cloexec P k) = upd (eff_cloexec 1) {fd. P fd} (ref_fdt k)"
  by (rule ext) (auto simp: ref_fdt_def ref_cloexec_def upd_apply map_of_ref_cloexec eff_cloexec_def
    option.map_comp comp_def of_nat_or_eq)

lemma ref_simps [simp]:
  "ref_fdt (k\<lparr>rk_errno := e\<rparr>) = ref_fdt k" "ref_dirs (k\<lparr>rk_errno := e\<rparr>) = ref_dirs k"
  "ref_fds (k\<lparr>rk_errno := e\<rparr>) = ref_fds k" "ref_fdt (ref_set_dir d v k) = ref_fdt k"
  "ref_dirs (ref_cloexec P k) = ref_dirs k"
  by (auto simp: ref_fdt_def ref_dirs_def ref_fds_def ref_set_dir_def ref_cloexec_def)

lemma ref_dirs_set: "ref_dirs (ref_set_dir d (b, p) k) d' =
    (if d' = d then Some (p, nat (i32_MAX - p) + (if b then 1 else 0)) else ref_dirs k d')"
  by (simp add: ref_dirs_def ref_set_dir_def)

lemma first_free_Some: "first_free used a b = Some fd \<Longrightarrow> a \<le> fd \<and> fd < b \<and> fd \<notin> set used"
  by (induction used a b rule: first_free.induct) (subst (asm) (2) first_free.simps, fastforce split: if_splits)

lemma first_free_least: "first_free used a b = Some fd \<Longrightarrow> a \<le> d \<Longrightarrow> d < fd \<Longrightarrow> d \<in> set used"
proof (induction used a b rule: first_free.induct)
  case (1 used a b)
  then show ?case by (cases "d = a") (subst (asm) (2) first_free.simps, auto split: if_splits)+
qed

lemma first_free_None: "first_free used a b = None \<Longrightarrow> a \<le> fd \<Longrightarrow> fd < b \<Longrightarrow> fd \<in> set used"
proof (induction used a b rule: first_free.induct)
  case (1 used a b)
  then have a: "a < b" "a \<in> set used" "first_free used (a + 1) b = None"
    by (subst (asm) (2) first_free.simps, simp split: if_splits)+
  show ?case
  proof (cases "fd = a")
    case False
    with 1 a show ?thesis by simp
  qed (use a in simp)
qed

lemma ref_next_None: "ref_next k p = None \<Longrightarrow> fd \<in> set (ref_fds k) \<Longrightarrow> fd < p"
  by (auto simp: ref_next_def filter_empty_conv split: list.splits)

lemma fold_min_le: "fold min xs (a::int) \<le> a \<and> (\<forall>x\<in>set xs. fold min xs a \<le> x) \<and> fold min xs a \<in> insert a (set xs)"
proof (induction xs arbitrary: a)
  case (Cons x xs)
  from Cons.IH [of "min x a"] show ?case by (auto simp: min_def split: if_splits)
qed simp

lemma ref_next_Some:
  assumes "ref_next k p = Some fd"
  shows "fd \<in> set (ref_fds k)" "p \<le> fd" "x \<in> set (ref_fds k) \<Longrightarrow> p \<le> x \<Longrightarrow> fd \<le> x"
proof -
  from assms obtain y ys where ys: "filter (\<lambda>fd. p \<le> fd) (ref_fds k) = y # ys" "fd = fold min ys y"
    by (auto simp: ref_next_def split: list.splits)
  have set: "{x \<in> set (ref_fds k). p \<le> x} = insert y (set ys)" using arg_cong [OF ys(1), of set] by auto
  with fold_min_le [of ys y] ys(2) show "fd \<in> set (ref_fds k)" "p \<le> fd" by blast+
  show "x \<in> set (ref_fds k) \<Longrightarrow> p \<le> x \<Longrightarrow> fd \<le> x"
    using set fold_min_le [of ys y] ys(2) by auto
qed

section \<open>Directory entries\<close>

lemma dec_bytes_length: "n < 10 ^ Suc k \<Longrightarrow> length (dec_bytes n) \<le> Suc k"
proof (induction k arbitrary: n)
  case (Suc k)
  then have "n div 10 < 10 ^ Suc k" by (simp add: less_mult_imp_div_less)
  with Suc.IH [of "n div 10"] show ?case by (subst dec_bytes.simps) simp
qed (subst dec_bytes.simps, simp)

lemma entry_name_length: "(\<forall>fd. e = Fd_Entry fd \<longrightarrow> fd < i32_MAX) \<Longrightarrow> length (entry_name e) \<le> 10"
  using dec_bytes_length [of _ 9] by (cases e) (simp_all add: nat_less_iff)

lemma align_up_bounds: "n \<le> align_up n 8 \<and> align_up n 8 < n + 8"
  by (simp add: align_up_def) linarith

lemma ref_block_props:
  assumes "d_reclen_off L = 16" "18 \<le> d_name_off L" "d_name_off L \<le> 24" "d_name_len L = 256" "length (entry_name e) \<le> 10"
  shows "dirent_block L be (entry_name e) (ref_block L be e)" "length (ref_block L be e) \<le> 42" "0 < length (ref_block L be e)"
proof -
  let ?n = "align_up (d_name_off L + length (entry_name e) + 1) 8"
  have n: "d_name_off L + length (entry_name e) + 1 \<le> ?n" "?n \<le> 42"
    using align_up_bounds [of "d_name_off L + length (entry_name e) + 1"] assms(3,5) by linarith+
  have len: "length (ref_block L be e) = ?n"
    using assms n by (simp add: ref_block_def Let_def)
  then show "length (ref_block L be e) \<le> 42" "0 < length (ref_block L be e)" using n by simp_all
  have b: "ref_block L be e ! 16 = (if be then word_of_nat (?n div 256) else word_of_nat (?n mod 256))"
    "ref_block L be e ! 17 = (if be then word_of_nat (?n mod 256) else word_of_nat (?n div 256))"
    using assms(1) by (simp_all add: ref_block_def Let_def nth_append)
  have "read_u16 be (ref_block L be e ! 16) (ref_block L be e ! 17) = ?n"
    using n(2) by (simp add: b read_u16_def unat_of_nat)
  moreover have "take (length (entry_name e) + 1) (drop (d_name_off L) (ref_block L be e)) = entry_name e @ [0]"
    using assms(1,2) by (simp add: ref_block_def Let_def)
  ultimately show "dirent_block L be (entry_name e) (ref_block L be e)"
    using assms len n by (simp add: dirent_block_def)
qed

lemma dirents_append_block:
  "dirent_block L be (entry_name e) blk \<Longrightarrow> dirents L be es bs \<Longrightarrow> dirents L be (e # es) (blk @ bs)"
  by (auto intro!: exI [of _ "length blk"])

lemma RawDirent_ref:
  "d_reclen_off (RawDirent (ref_config t dbg be)) = 16" "18 \<le> d_name_off (RawDirent (ref_config t dbg be))"
  "d_name_off (RawDirent (ref_config t dbg be)) \<le> 24" "d_name_len (RawDirent (ref_config t dbg be)) = 256"
  "d_size (RawDirent (ref_config t dbg be)) = 280" "RawDirent (ref_config t dbg be) = RawDirent (ref_config t False be)"
  by (simp_all add: RawDirent_def ref_config_def ref_layout_def sys_dirent_def sys_dirent_fields_def
    repr_c_size_def align_up_def)

lemma ref_block_raw:
  assumes "L = RawDirent (ref_config t dbg be)" "length (entry_name e) \<le> 10"
  shows "dirent_block L be (entry_name e) (ref_block L be e)" "length (ref_block L be e) \<le> 42" "0 < length (ref_block L be e)"
  using ref_block_props [of L e be] assms by (simp_all add: RawDirent_ref(1-4))

lemma dirents_single: "dirent_block L be (entry_name e) blk \<Longrightarrow> dirents L be [e] blk"
  using dirents_append_block [of L be e blk "[]" "[]"] by (simp del: dirents.simps(2))

text \<open>Reading a directory: the contract's law, on the reference kernel.\<close>

lemma ref_getdents_law:
  assumes "ref_dirs k d = Some (p, n)" "L = RawDirent (ref_config t dbg be)" "ref_getdents L be d k = ((r, bs), k')"
  shows "r = 0 \<and> (\<forall>fd. ref_fdt k fd \<noteq> None \<longrightarrow> fd < p) \<or>
    r > 0 \<and> int (length bs) = r \<and> length bs \<le> 280 \<and>
      (\<exists>es p' n'. ref_dirs k' d = Some (p', n') \<and> n' < n \<and> p \<le> p' \<and> dirents L be es bs \<and>
         sorted_wrt (<) (entry_fds es) \<and> set (entry_fds es) = {fd. ref_fdt k fd \<noteq> None \<and> p \<le> fd \<and> fd < p'})"
proof -
  from assms(1) obtain dots where d: "map_of (rk_dirs k) d = Some (dots, p)" "n = nat (i32_MAX - p) + (if dots then 1 else 0)"
    by (auto simp: ref_dirs_def)
  show ?thesis
  proof (cases dots)
    case True
    have blk: "length (entry_name Dot) \<le> 10" "length (entry_name Dot_Dot) \<le> 10" by simp_all
    note b = ref_block_raw [OF assms(2) blk(1)] ref_block_raw [OF assms(2) blk(2)]
    have "dirents L be [Dot, Dot_Dot] (ref_block L be Dot @ ref_block L be Dot_Dot)"
      by (rule dirents_append_block [OF b(1) dirents_single [OF b(4)]])
    moreover have "ref_getdents L be d k = ((int (length (ref_block L be Dot @ ref_block L be Dot_Dot)),
        ref_block L be Dot @ ref_block L be Dot_Dot), ref_set_dir d (False, p) k)"
      using True d(1) by (simp add: ref_getdents_def Let_def)
    with assms(3) have "bs = ref_block L be Dot @ ref_block L be Dot_Dot" "r = int (length bs)"
      "ref_dirs k' d = Some (p, nat (i32_MAX - p))" by (auto simp: ref_dirs_set)
    moreover have "{fd. ref_fdt k fd \<noteq> None \<and> p \<le> fd \<and> fd < p} = {}" by auto
    ultimately show ?thesis using True d(2) b(2,3,5,6)
      by (intro disjI2 conjI exI [of _ "[Dot, Dot_Dot]"] exI [of _ p] exI [of _ "nat (i32_MAX - p)"]) (simp_all del: dirents.simps(2) length_greater_0_conv)
  next
    case False
    show ?thesis
    proof (cases "ref_next k p")
      case None
      with False d assms(3) ref_next_None [OF None] show ?thesis
        by (auto simp: ref_getdents_def ref_fdt_None)
    next
      case (Some fd)
      note fd = ref_next_Some [OF this]
      have rng: "fd < i32_MAX" using ref_fds_range [OF fd(1)] by simp
      then have "length (entry_name (Fd_Entry fd)) \<le> 10" by (intro entry_name_length) simp
      note b = ref_block_raw [OF assms(2) this]
      have "dirents L be [Fd_Entry fd] (ref_block L be (Fd_Entry fd))"
        by (rule dirents_single [OF b(1)])
      moreover have "{x. ref_fdt k x \<noteq> None \<and> p \<le> x \<and> x < fd + 1} = {fd}"
        using fd by (force simp: ref_fdt_None)
      moreover have "ref_getdents L be d k = ((int (length (ref_block L be (Fd_Entry fd))),
          ref_block L be (Fd_Entry fd)), ref_set_dir d (False, fd + 1) k)"
        using Some False d(1) by (simp add: ref_getdents_def Let_def)
      with assms(3) have "bs = ref_block L be (Fd_Entry fd)" "r = int (length bs)"
        "ref_dirs k' d = Some (fd + 1, nat (i32_MAX - (fd + 1)))" by (auto simp: ref_dirs_set)
      ultimately show ?thesis using False d(2) b(2,3) fd(2) rng
        by (intro disjI2 conjI exI [of _ "[Fd_Entry fd]"] exI [of _ "fd + 1"] exI [of _ "nat (i32_MAX - (fd + 1))"])
          (simp_all del: dirents.simps(2) length_greater_0_conv)
    qed
  qed
qed

section \<open>The contract holds\<close>

lemma ref_open_law:
  assumes "ref_open dr k = (fd, k')"
  shows "fd = - 1 \<and> ref_fdt k' = ref_fdt k \<and> ref_dirs k' = ref_dirs k \<and> \<not> (dr \<and> has_slot ref_open_max (ref_fdt k)) \<or>
    0 \<le> fd \<and> ref_fdt k fd = None \<and> ref_fdt k' = (ref_fdt k)(fd := Some 1) \<and>
    (\<forall>d. d \<noteq> fd \<longrightarrow> ref_dirs k' d = ref_dirs k d) \<and> (\<exists>n. ref_dirs k' fd = Some (0, n))"
proof (cases "if dr then first_free (ref_fds k) 0 ref_open_max else None")
  case None
  then have "\<not> (dr \<and> has_slot ref_open_max (ref_fdt k))"
    by (auto simp: has_slot_def ref_fdt_None dest!: first_free_None)
  with None assms show ?thesis by (auto simp: ref_open_def)
next
  case (Some x)
  then have x: "0 \<le> x" "x < ref_open_max" "ref_fdt k x = None"
    by (auto simp: ref_fdt_None dest!: first_free_Some split: if_splits)
  from Some assms have k': "fd = x" "k' = k\<lparr>rk_tab := (x, 1) # rk_tab k, rk_dirs := (x, True, 0) # rk_dirs k\<rparr>"
    by (auto simp: ref_open_def)
  have "ref_fdt k' = (ref_fdt k)(x := Some 1)" "\<forall>d. d \<noteq> x \<longrightarrow> ref_dirs k' d = ref_dirs k d" "\<exists>n. ref_dirs k' x = Some (0, n)"
    using x(1,2) by (auto simp: k' ref_fdt_def ref_dirs_def ref_open_max_def)
  with x k' show ?thesis by simp
qed

lemma ref_close_range_law:
  assumes "ref_close_range cr lo hi flg k = (r, k')"
  shows "hi < lo \<longrightarrow> r \<noteq> 0" "r \<noteq> 0 \<longrightarrow> ref_fdt k' = ref_fdt k \<and> ref_dirs k' = ref_dirs k"
    "r = 0 \<and> flg = 0 \<longrightarrow> k' = ref_close (\<lambda>fd. uint lo \<le> fd \<and> fd \<le> uint hi) k"
    "r = 0 \<and> flg = CLOSE_RANGE_CLOEXEC \<longrightarrow> k' = ref_cloexec (\<lambda>fd. uint lo \<le> fd \<and> fd \<le> uint hi) k"
  using assms by (auto simp: ref_close_range_def CLOSE_RANGE_CLOEXEC_def split: if_splits)

lemma ref_count_card: "ref_count k = int (card {fd. ref_fdt k fd \<noteq> None})"
  by (simp add: ref_count_def ref_fdt_None List.card_set)

lemma ref_getdents_frame:
  assumes "ref_getdents L be d k = ((r, bs), k')"
  shows "ref_fdt k' = ref_fdt k" "d' \<noteq> d \<Longrightarrow> ref_dirs k' d' = ref_dirs k d'"
  using assms by (auto simp: ref_getdents_def ref_dirs_set Let_def split: option.splits prod.splits if_splits)

lemma getdents_ref:
  "0 \<le> d \<Longrightarrow> d \<le> i32_MAX \<Longrightarrow>
   getdents (ref_config t dbg be) (ref_os t be cr dr) d len = ref_getdents (RawDirent (ref_config t False be)) be d"
  by (cases t) (simp_all add: getdents_def ref_os_def Let_def ref_config_def uint_as_c_uint)

lemma ref_release_not_wsl: "\<not> uname_is_wsl1 ref_release"
  by (simp add: uname_is_wsl1_def ref_release_def ends_with_def microsoft_def)

lemma ref_fdt_setfd:
  "ref_fdt k fd \<noteq> None \<Longrightarrow> 0 \<le> fl \<Longrightarrow> ref_fdt (snd (ref_setfd fd fl k)) = (ref_fdt k)(fd := Some fl)"
proof -
  assume fd: "ref_fdt k fd \<noteq> None" "0 \<le> fl"
  then have "fd \<in> set (ref_fds k)" by (metis ref_fdt_None)
  with fd(2) ref_fds_range [OF this] show ?thesis by (auto simp: ref_setfd_def fun_eq_iff ref_fdt_def)
qed

lemma ref_dirs_setfd: "ref_dirs (snd (ref_setfd fd fl k)) = ref_dirs k"
  by (auto simp: ref_setfd_def ref_dirs_def)

lemma ref_max: "fold max (ref_fds k) (- 1) = - 1 \<and> ref_fds k = [] \<or>
    fold max (ref_fds k) (- 1) \<in> set (ref_fds k) \<and> (\<forall>fd\<in>set (ref_fds k). fd \<le> fold max (ref_fds k) (- 1))"
proof (cases "ref_fds k = []")
  case False
  then have x: "hd (ref_fds k) \<in> set (ref_fds k)" by simp
  then have "0 \<le> fold max (ref_fds k) (- 1)" using ref_fds_range fold_max_ge [of "- 1" "ref_fds k"] by fastforce
  with fold_max_ge [of "- 1" "ref_fds k"] fold_max_in [of "ref_fds k" "- 1"] show ?thesis by auto
qed simp

lemmas ref_os_simps = ref_os_def Let_def os.simps ref_config_def config.simps

interpretation rk: fd_kernel "ref_config t dbg be" "ref_os t be cr dr" ref_fdt ref_dirs ref_open_max ref_release
  "ref_osreldate cr" "ref_dirs_work t dr"
  for t dbg be cr dr
proof (unfold_locales, goal_cases)
  case (1 k fd fl)
  then show ?case by (simp add: ref_fdt_def split: if_splits)
next
  case (2 k fd fl)
  then show ?case by (auto simp: ref_fdt_def split: if_splits)
next
  case (4 fd k)
  then show ?case by (auto simp: ref_os_simps ref_fdt_close upd_apply)
next
  case (9 k fd fl)
  then show ?case by (simp add: ref_os_simps ref_fdt_setfd)
next
  case (10 k fd fl)
  then show ?case by (simp add: ref_os_simps ref_setfd_def ref_fdt_None)
next
  case (18 low k)
  then show ?case by (simp add: ref_os_simps ref_fdt_close atLeast_def)
next
  case (19 lo hi k r k')
  then have "ref_close_range cr lo hi 0 k = (r, k')" by (simp add: ref_os_simps)
  from ref_close_range_law [OF this] show ?case
    by (auto simp: ref_fdt_close ref_dirs_close atLeastAtMost_def atLeast_def atMost_def Collect_conj_eq)
next
  case (20 lo hi k r k')
  then have "ref_close_range cr lo hi CLOSE_RANGE_CLOEXEC k = (r, k')" by (simp add: ref_os_simps)
  from ref_close_range_law [OF this] show ?case
    by (auto simp: ref_fdt_cloexec ref_os_simps atLeastAtMost_def atLeast_def atMost_def Collect_conj_eq)
next
  case (21 hi lo flg k r k')
  then have "ref_close_range cr lo hi flg k = (r, k')" "hi < lo" by (simp_all add: ref_os_simps word_less_def)
  with ref_close_range_law(1,2) [OF this(1)] show ?case by simp
next
  case (22 path ofl k fd k')
  then have "ref_open dr k = (fd, k')" by (auto simp: ref_os_simps)
  from ref_open_law [OF this] show ?case by auto
next
  case (23 path ofl k fd k')
  then have "ref_open dr k = (fd, k')" by (auto simp: ref_os_simps)
  from ref_open_law [OF this] 23 show ?case by auto
next
  case (26 ofl k fd k1 dev k2 dev' k3)
  then have "ref_open dr k = (fd, k1)" "k3 = k1" by (simp_all add: ref_os_simps)
  with ref_open_law [OF this(1)] 26 show ?case by auto
next
  case (27 k d len r bs k')
  then have "0 \<le> d" "d \<le> i32_MAX" using ref_fds_range [of d k] by (auto simp: ref_fdt_None)
  with 27 ref_getdents_frame show ?case unfolding getdents_ref [OF \<open>0 \<le> d\<close> \<open>d \<le> i32_MAX\<close>] by blast
next
  case (28 k d p n r bs k')
  then have "0 \<le> d" "d \<le> i32_MAX" using ref_fds_range [of d k] by (auto simp: ref_fdt_None)
  with 28(3) have "ref_getdents (RawDirent (ref_config t dbg be)) be d k = ((r, bs), k')"
    by (simp add: getdents_ref flip: RawDirent_ref(6) [of t dbg be])
  note law = ref_getdents_law [OF 28(1) refl this]
  have be: "big_endian (ref_config t dbg be) = be" by (simp add: ref_config_def)
  from law show ?case unfolding be RawDirent_ref(5) by (rule disjI2)
next
  case (29 path k ofl)
  then show ?case using ref_open_law [of dr k] ref_release_not_wsl
    by (cases "ref_open dr k") (auto simp: ref_os_simps ref_dirs_work_def)
next
  case (31 k m k')
  then have "m = fold max (ref_fds k) (- 1)" "k' = k\<lparr>rk_errno := 0\<rparr>" by (simp_all add: ref_os_simps)
  with ref_max [of k] show ?case by (auto simp: ref_fdt_None)
next
  case (33 k v k')
  then show ?case by (auto simp: ref_os_simps ref_count_card)
next
  case (34 k v k')
  then show ?case by (auto simp: ref_os_simps KERN_PROC_NFDS_def)
next
  case (35 k v k')
  then show ?case by (auto simp: ref_os_simps ref_count_card)
qed (auto simp: ref_os_simps ref_dirs_close ref_dirs_setfd)

lemma ref_open_root_law:
  assumes "ref_open_root ofl k = (fd, k')"
  shows "fd = - 1 \<and> ref_fdt k' = ref_fdt k \<and> \<not> has_slot ref_open_max (ref_fdt k) \<or>
    0 \<le> fd \<and> fd < ref_open_max \<and> ref_fdt k fd = None \<and> (\<forall>d. 0 \<le> d \<and> d < fd \<longrightarrow> ref_fdt k d \<noteq> None) \<and>
    ref_fdt k' = (ref_fdt k)(fd := Some (if O_CLOEXEC \<in> set ofl then 1 else 0))"
proof (cases "first_free (ref_fds k) 0 ref_open_max")
  case None
  then have "\<not> has_slot ref_open_max (ref_fdt k)" by (auto simp: has_slot_def ref_fdt_None dest!: first_free_None)
  with None assms show ?thesis by (auto simp: ref_open_root_def)
next
  case (Some x)
  then have x: "0 \<le> x" "x < ref_open_max" "ref_fdt k x = None" "\<forall>d. 0 \<le> d \<and> d < x \<longrightarrow> ref_fdt k d \<noteq> None"
    using first_free_least [OF Some] by (auto simp: ref_fdt_None dest!: first_free_Some)
  from Some assms have "fd = x" "k' = k\<lparr>rk_tab := (x, if O_CLOEXEC \<in> set ofl then 1 else 0) # rk_tab k\<rparr>"
    by (auto simp: ref_open_root_def)
  moreover from this x(1,2) have "ref_fdt k' = (ref_fdt k)(x := Some (if O_CLOEXEC \<in> set ofl then 1 else 0))"
    by (auto simp: ref_fdt_def ref_open_max_def)
  ultimately show ?thesis using x by simp
qed

interpretation rf: file_kernel "ref_config t dbg be" "ref_os t be cr dr" ref_fdt ref_dirs ref_open_max ref_release
  "ref_osreldate cr" "ref_dirs_work t dr"
  for t dbg be cr dr
proof (unfold_locales, goal_cases)
  case (1 ofl k fd k')
  then have "ref_open_root ofl k = (fd, k')" by (simp add: ref_os_simps)
  from ref_open_root_law [OF this] show ?case by (auto simp: ref_os_simps)
next
  case (2 k ofl)
  then show ?case using ref_open_root_law [of ofl k] by (cases "ref_open_root ofl k") (auto simp: ref_os_simps)
next
  case (3 k fd fl)
  then show ?case by (simp add: ref_os_simps ref_setfd_def ref_fdt_None)
qed

section \<open>Other threads\<close>

text \<open>A schedule for the other threads of the process: in each turn they may open or close a descriptor. They close
  what is theirs only, and open descriptors in \<open>Q\<close> only.\<close>

datatype thread_act = Idle | Opens int | Closes int

definition ref_act :: "int set \<Rightarrow> int set \<Rightarrow> (nat \<Rightarrow> thread_act) \<Rightarrow> rk act" where
  "ref_act P Q sched n H k = (case sched n of
     Idle \<Rightarrow> k
   | Opens fd \<Rightarrow> if fd \<in> Q \<and> fd \<notin> P \<and> fd \<notin> H \<and> fd \<notin> set (ref_fds k) then k\<lparr>rk_tab := (fd, 0) # rk_tab k\<rparr> else k
   | Closes fd \<Rightarrow> if fd \<in> P \<or> fd \<in> H then k else ref_close (\<lambda>x. x = fd) k)"

lemma ref_fdt_open: "x \<noteq> fd \<Longrightarrow> ref_fdt (k\<lparr>rk_tab := (fd, v) # rk_tab k\<rparr>) x = ref_fdt k x"
  by (simp add: ref_fdt_def)

lemma ref_dirs_open: "ref_dirs (k\<lparr>rk_tab := t\<rparr>) = ref_dirs k"
  by (rule ext) (simp add: ref_dirs_def)

interpretation rt: fd_threads "ref_config t dbg be" "ref_os t be cr dr" ref_fdt ref_dirs ref_open_max ref_release
  "ref_osreldate cr" "ref_dirs_work t dr" "ref_act P Q sched" P Q
  for t dbg be cr dr P Q sched
proof (unfold_locales, goal_cases)
  case (1 fd H n k)
  then show ?case
    by (cases "sched n") (auto simp: ref_act_def ref_fdt_close upd_apply intro: ref_fdt_open)
next
  case (2 n H k fd)
  then show ?case
  proof (cases "sched n")
    case (Opens x)
    with 2 show ?thesis using ref_fdt_open [of fd x 0 k] by (cases "fd = x") (auto simp: ref_act_def split: if_splits)
  qed (auto simp: ref_act_def ref_fdt_close upd_apply split: if_splits)
next
  case (3 d H n k)
  then show ?case by (cases "sched n") (auto simp: ref_act_def ref_dirs_open intro: ref_dirs_close)
next
  case (4 n H e k)
  then show ?case by (cases "sched n") (auto simp: ref_act_def ref_os_simps ref_close_def)
qed (auto simp: ref_os_simps)

end
