(* ===== verification/Unit_Tests.thy ===== *)
theory Unit_Tests
  imports File_Kernel Cloexec
begin

text \<open>
  The unit tests in \<^verbatim>\<open>src/util.rs\<close> and \<^verbatim>\<open>src/iterfds/dirfd.rs\<close>, as programs of the model whose assertions are faults. The tests of
  pure functions are run in every build profile; those that open a file are shown to pass on every kernel
  that keeps the contract \<open>file_kernel\<close>.
\<close>

section \<open>Definitions\<close>

text \<open>\<^verbatim>\<open>with_fd\<close>: the closure runs with a descriptor of the root directory.\<close>

definition with_fd :: "'k os \<Rightarrow> (c_int \<Rightarrow> ('k world, unit) prog) \<Rightarrow> ('k world, unit) prog" where
  "with_fd os f =
     bnd (sys (os_open os ''/'' [O_RDONLY])) (\<lambda>fd.
     bnd (assert_m (fd \<ge> 0)) (\<lambda>_.
     bnd (f fd) (\<lambda>_.
     bnd (sys (os_close os fd)) (\<lambda>_. ret ()))))"

definition test_inspect_keep_fds :: "config \<Rightarrow> ('s, unit) prog" where
  "test_inspect_keep_fds cfg = stmts [
     assert_eq_m (inspect_keep_fds cfg []) (i32_MIN, True),
     assert_eq_m (inspect_keep_fds cfg [0]) (0, True),
     assert_eq_m (inspect_keep_fds cfg [0, 1]) (1, True),
     assert_eq_m (inspect_keep_fds cfg [1, 0]) (1, False),
     assert_eq_m (inspect_keep_fds cfg [0, 1, 2, 5, 7]) (7, True),
     assert_eq_m (inspect_keep_fds cfg [0, 1, 2, 7, 5]) (7, False),
     assert_eq_m (inspect_keep_fds cfg [- 1]) (- 1, True),
     assert_eq_m (inspect_keep_fds cfg [i32_MIN]) (i32_MIN, True)]"

text \<open>One step of the tests of \<^verbatim>\<open>check_should_keep\<close>: the call on the local variable \<^verbatim>\<open>keep_fds\<close>, the assertion on its answer and
  the assertion on what it has left in the variable.\<close>

definition expect_keep :: "bool \<Rightarrow> c_int \<Rightarrow> bool \<Rightarrow> c_int list \<Rightarrow> (c_int list, unit) prog" where
  "expect_keep fds_sorted fd answer after =
     bnd (gets (\<lambda>keep_fds. keep_fds)) (\<lambda>keep_fds.
     case check_should_keep keep_fds fd fds_sorted of (r, keep_fds') \<Rightarrow>
     bnd (modify (\<lambda>_. keep_fds')) (\<lambda>_.
     bnd (assert_m (r = answer)) (\<lambda>_.
     assert_eq_m (gets (\<lambda>keep_fds. keep_fds)) after)))"

definition test_check_should_keep_sorted :: "('s, unit) prog" where
  "test_check_should_keep_sorted = bnd (with_locals [0, 1, 5, 8, 10] (stmts [
     expect_keep True 0 True [0, 1, 5, 8, 10],
     expect_keep True 1 True [1, 5, 8, 10],
     expect_keep True 2 False [5, 8, 10],
     expect_keep True 2 False [5, 8, 10],
     expect_keep True 3 False [5, 8, 10],
     expect_keep True 5 True [5, 8, 10],
     expect_keep True 6 False [8, 10]])) (\<lambda>_. ret ())"

definition test_check_should_keep_not_sorted :: "('s, unit) prog" where
  "test_check_should_keep_not_sorted = bnd (with_locals [0, 1, 5, 8, 10] (stmts [
     expect_keep False 0 True [0, 1, 5, 8, 10],
     expect_keep False 1 True [0, 1, 5, 8, 10],
     expect_keep False 2 False [0, 1, 5, 8, 10],
     expect_keep False 3 False [0, 1, 5, 8, 10],
     expect_keep False 5 True [0, 1, 5, 8, 10],
     expect_keep False 6 False [0, 1, 5, 8, 10]])) (\<lambda>_. ret ())"

text \<open>One block of \<^verbatim>\<open>test_simplify_keep_fds\<close>: the assertions on the slice and on \<^verbatim>\<open>minfd\<close>.\<close>

definition expect_simplify :: "config \<Rightarrow> c_int list \<Rightarrow> bool \<Rightarrow> c_int \<Rightarrow> c_int list \<Rightarrow> c_int \<Rightarrow> ('s, unit) prog" where
  "expect_simplify cfg keep_fds fds_sorted minfd keep_fds' minfd' =
     bnd (simplify_keep_fds cfg keep_fds fds_sorted minfd) (\<lambda>(k, m).
     bnd (assert_m (k = keep_fds')) (\<lambda>_. assert_m (m = minfd')))"

definition test_simplify_keep_fds :: "config \<Rightarrow> ('s, unit) prog" where
  "test_simplify_keep_fds cfg = stmts [
     expect_simplify cfg [0, 1, 2] True 3 [] 3,
     expect_simplify cfg [2, 3, 4, 5, 6, 7] True 3 [] 8,
     expect_simplify cfg [3, 4, 5, 8, 10] True 3 [8, 10] 6,
     expect_simplify cfg [3, 5, 8, 10] True 3 [5, 8, 10] 4,
     expect_simplify cfg [4, 5, 8, 10] True 3 [4, 5, 8, 10] 3,
     expect_simplify cfg [2, 1, 0] False 3 [2, 1, 0] 3,
     expect_simplify cfg [4, 5, 8, 10, 3] False 3 [4, 5, 8, 10, 3] 3]"

text \<open>The macros of \<^verbatim>\<open>test_apply_range\<close>. The closure of \<^verbatim>\<open>check_ok!\<close> stores the ranges in an array of 100 pairs, that
  of \<^verbatim>\<open>check_err!\<close> stores one range and fails.\<close>

definition record_range :: "c_int \<Rightarrow> c_int \<Rightarrow> ((c_int \<times> c_int) list \<times> usize, (unit, unit) result) prog" where
  "record_range low high =
     bnd (gets (\<lambda>l. l)) (\<lambda>(ranges, len).
     bnd (unwrap_some (if len < length ranges then Some () else None)) (\<lambda>_.
     bnd (modify (\<lambda>_. (ranges[len := (low, high)], len + 1))) (\<lambda>_. ret (Ok ()))))"

definition check_ok :: "config \<Rightarrow> c_int \<Rightarrow> c_int list \<Rightarrow> (c_int \<times> c_int) list \<Rightarrow> ('s, unit) prog" where
  "check_ok cfg minfd keep_fds calls =
     bnd (with_locals (replicate 100 (0, 0), 0) (bnd (apply_range cfg minfd keep_fds record_range) unwrap))
       (\<lambda>(_, ranges, len).
     if len \<le> length ranges then assert_m (take len ranges = calls) else fail Index_OOB)"

definition refuse_range :: "c_int \<Rightarrow> c_int \<Rightarrow> ((c_int \<times> c_int) option, (unit, unit) result) prog" where
  "refuse_range low high =
     bnd (gets (\<lambda>l. l)) (\<lambda>call.
     bnd (assert_m (call = None)) (\<lambda>_.
     bnd (modify (\<lambda>_. Some (low, high))) (\<lambda>_. ret (Err ()))))"

definition check_err :: "config \<Rightarrow> c_int \<Rightarrow> c_int list \<Rightarrow> c_int \<times> c_int \<Rightarrow> ('s, unit) prog" where
  "check_err cfg minfd keep_fds call' =
     bnd (with_locals None (bnd (apply_range cfg minfd keep_fds refuse_range) unwrap_err)) (\<lambda>(_, call).
     assert_eq_m (unwrap_some call) call')"

definition test_apply_range :: "config \<Rightarrow> ('s, unit) prog" where
  "test_apply_range cfg = stmts [
     check_ok cfg 0 [] [(0, i32_MAX)],
     check_ok cfg (- 100) [] [(- 100, i32_MAX)],
     check_ok cfg 3 [0, 2, 3, 4, 5, 6] [(7, i32_MAX)],
     check_ok cfg 3 [0, 2] [(3, i32_MAX)],
     check_ok cfg 3 [3, 4, 5, 6] [(7, i32_MAX)],
     check_ok cfg 3 [4, 5, 6] [(3, 3), (7, i32_MAX)],
     check_ok cfg 3 [5, 6, 9, 10] [(3, 4), (7, 8), (11, i32_MAX)],
     check_ok cfg 3 [5, 6, 9, 10, 20, 23] [(3, 4), (7, 8), (11, 19), (21, 22), (24, i32_MAX)],
     check_err cfg 0 [] (0, i32_MAX),
     check_err cfg (- 100) [] (- 100, i32_MAX),
     check_err cfg 3 [0, 2, 3, 4, 5, 6] (7, i32_MAX),
     check_err cfg 3 [0, 2] (3, i32_MAX),
     check_err cfg 3 [3, 4, 5, 6] (7, i32_MAX),
     check_err cfg 3 [4, 5, 6] (3, 3),
     check_err cfg 3 [5, 6, 9, 10] (3, 4),
     check_err cfg 3 [5, 6, 9, 10, 20, 23] (3, 4)]"

definition test_is_fd_valid :: "'k os \<Rightarrow> ('k world, unit) prog" where
  "test_is_fd_valid os = stmts [
     assert_eq_m (is_fd_valid os (- 1)) False,
     assert_eq_m (is_fd_valid os i32_MAX) False,
     assert_eq_m (is_fd_valid os 0) True,
     with_fd os (\<lambda>fd. assert_eq_m (is_fd_valid os fd) True)]"

definition is_cloexec :: "'k os \<Rightarrow> c_int \<Rightarrow> ('k world, bool) prog" where
  "is_cloexec os fd =
     bnd (sys (os_fcntl_getfd os fd)) (\<lambda>flags.
     bnd (assert_m (flags \<ge> 0)) (\<lambda>_.
     ret (flags AND c_FD_CLOEXEC os = c_FD_CLOEXEC os)))"

definition test_set_cloexec :: "'k os \<Rightarrow> ('k world, unit) prog" where
  "test_set_cloexec os = stmts [
     set_cloexec os (- 1),
     set_cloexec os i32_MAX,
     with_fd os (\<lambda>fd. stmts [
       assert_eq_m (is_cloexec os fd) False,
       set_cloexec os fd,
       assert_eq_m (is_cloexec os fd) True])]"

text \<open>The tests of \<^verbatim>\<open>src/iterfds/dirfd.rs\<close>: a writer into an array of 80 bytes, for \<^verbatim>\<open>write!\<close>.\<close>

record BufWriter =
  bw_buf :: "u8 list"
  bw_i :: usize

definition BufWriter_new :: BufWriter where
  "BufWriter_new = \<lparr>bw_buf = replicate 80 0, bw_i = 0\<rparr>"

definition iter_bytes :: "BufWriter \<Rightarrow> u8 list" where
  "iter_bytes b = take (bw_i b) (bw_buf b)"

fun write_loop :: "u8 list \<Rightarrow> (BufWriter, unit) prog" where
  "write_loop [] = ret ()"
| "write_loop (ch # s) =
     bnd (gets (\<lambda>b. b)) (\<lambda>b.
     if bw_i b < length (bw_buf b)
     then bnd (modify (\<lambda>_. b\<lparr>bw_buf := (bw_buf b)[bw_i b := ch], bw_i := bw_i b + 1\<rparr>)) (\<lambda>_. write_loop s)
     else fail Index_OOB)"

definition write_str :: "u8 list \<Rightarrow> (BufWriter, (unit, unit) result) prog" where
  "write_str s =
     bnd (gets (\<lambda>b. b)) (\<lambda>b.
     if bw_i b + length s > length (bw_buf b) then ret (Err ())
     else bnd (write_loop s) (\<lambda>_. ret (Ok ())))"

text \<open>A byte string literal \<open>b"..."\<close>.\<close>

definition byte_str :: "string \<Rightarrow> u8 list" where
  "byte_str s = map of_char s"

text \<open>\<^verbatim>\<open>write!(&mut buf, "{}", n)\<close> of an unsigned number writes its decimal digits.\<close>

definition test_parse_int_bytes :: "('s, unit) prog" where
  "test_parse_int_bytes = stmts [
     assert_m (parse_int_bytes (byte_str ''0'') = Some 0),
     assert_m (parse_int_bytes (byte_str ''10'') = Some 10),
     assert_m (parse_int_bytes (byte_str ''1423'') = Some 1423),
     assert_m (parse_int_bytes (byte_str '' 0'') = None),
     assert_m (parse_int_bytes (byte_str ''0 '') = None),
     assert_m (parse_int_bytes (byte_str ''-1'') = None),
     assert_m (parse_int_bytes (byte_str ''+1'') = None),
     assert_m (parse_int_bytes (byte_str ''1.'') = None),
     assert_m (parse_int_bytes (byte_str '''') = None),
     bnd (with_locals BufWriter_new (bnd (write_str (dec_bytes (unat (as_c_uint i32_MAX + 1)))) unwrap)) (\<lambda>(_, buf).
     assert_m (parse_int_bytes (iter_bytes buf) = None))]"

section \<open>The tests of pure functions\<close>

lemma stmts_id: "list_all (\<lambda>p. runs p s (\<lambda>_ s'. s' = s)) ps \<Longrightarrow> runs (stmts ps) s (\<lambda>_ s'. s' = s)"
  by (rule stmts_inv [where I = "\<lambda>s'. s' = s"]) (auto simp: list_all_iff)

lemmas test_simps = wp assert_eq_m_def add_i32_def sub_i32_def norm_i32_def in_i32_def

lemma runs_unit_id: "runs p s (\<lambda>_ s'. s' = s) \<longleftrightarrow> p s = Some (Inr ((), s))"
  by (auto simp: runs_def)

lemma inspect_test: "runs (test_inspect_keep_fds cfg) s (\<lambda>_ s'. s' = s)"
  by (simp add: test_inspect_keep_fds_def test_simps inspect_keep_fds_def)

lemma keep_tests: "runs test_check_should_keep_sorted s (\<lambda>_ s'. s' = s)" "runs test_check_should_keep_not_sorted s (\<lambda>_ s'. s' = s)"
  by (simp_all add: test_check_should_keep_sorted_def test_check_should_keep_not_sorted_def test_simps expect_keep_def check_should_keep_def)

lemma simplify_test: "runs (test_simplify_keep_fds cfg) s (\<lambda>_ s'. s' = s)"
  by (simp add: test_simplify_keep_fds_def test_simps expect_simplify_def simplify_keep_fds_def)


text \<open>What the closures of \<^verbatim>\<open>test_apply_range\<close> see is the list of gaps.\<close>

lemma record_range_runs [wp]:
  "runs (record_range lo hi) (ranges, len) Q \<longleftrightarrow> len < length ranges \<and> Q (Ok ()) (ranges[len := (lo, hi)], len + 1)"
  by (auto simp: record_range_def wp split: if_splits)

lemma record_gaps:
  assumes "length ranges = len + n" "length gs \<le> n"
  shows "runs (try_for (\<lambda>(lo, hi). record_range lo hi) gs) (ranges, len)
    (\<lambda>r (ranges', len'). r = Ok () \<and> length ranges' = length ranges \<and> len' = len + length gs \<and> take len' ranges' = take len ranges @ gs)"
  using assms
proof (induction gs arbitrary: ranges len n)
  case (Cons g gs)
  obtain lo hi where g: "g = (lo, hi)" by fastforce
  from Cons.prems obtain m where m: "n = Suc m" by (cases n) auto
  have IH: "runs (try_for (\<lambda>(lo, hi). record_range lo hi) gs) (ranges[len := g], Suc len)
    (\<lambda>r (ranges', len'). r = Ok () \<and> length ranges' = length (ranges[len := g]) \<and> len' = Suc len + length gs \<and>
      take len' ranges' = take (Suc len) (ranges[len := g]) @ gs)"
    by (rule Cons.IH [where n = m]) (use Cons.prems m in simp_all)
  have "take (Suc len) (ranges[len := g]) = take len ranges @ [g]"
    using Cons.prems m by (simp add: take_Suc_conv_app_nth)
  with IH Cons.prems g m show ?case
    by (auto simp: wp elim!: runs_conseq)
qed (simp add: wp)

lemma apply_range_Nil: "apply_range cfg minfd [] func = try_for (\<lambda>(l, h). func l h) (gaps minfd [])"
  by (simp add: apply_range_def gaps_def unit_result_eta)

definition range_args :: "c_int \<Rightarrow> c_int list \<Rightarrow> bool" where
  "range_args minfd keep \<longleftrightarrow> keep = [] \<or> 0 \<le> minfd \<and> sorted keep \<and> (\<forall>k\<in>set keep. in_i32 k \<and> k < i32_MAX)"

lemma apply_range_args: "range_args minfd keep \<Longrightarrow> apply_range cfg minfd keep func = try_for (\<lambda>(l, h). func l h) (gaps minfd keep)"
  unfolding range_args_def using apply_range_Nil apply_range_eq by blast

lemma check_ok_runs:
  assumes "range_args minfd keep" "gaps minfd keep = calls" "length calls \<le> 100"
  shows "runs (check_ok cfg minfd keep calls) s (\<lambda>_ s'. s' = s)"
proof -
  have "runs (try_for (\<lambda>(lo, hi). record_range lo hi) calls) (replicate 100 (0, 0), 0)
    (\<lambda>r (ranges', len'). r = Ok () \<and> length ranges' = 100 \<and> len' = length calls \<and> take len' ranges' = calls)"
    using record_gaps [of "replicate 100 (0, 0)" 0 100 calls] assms(3) by simp
  then show ?thesis unfolding check_ok_def apply_range_args [OF assms(1)] assms(2)
    by (auto simp: wp assms(3) elim!: runs_conseq)
qed

lemma check_err_runs:
  assumes "range_args minfd keep" "gaps minfd keep \<noteq> []" "hd (gaps minfd keep) = call"
  shows "runs (check_err cfg minfd keep call) s (\<lambda>_ s'. s' = s)"
  unfolding check_err_def apply_range_args [OF assms(1)]
  using assms(2,3) by (cases "gaps minfd keep"; cases call) (simp_all add: wp refuse_range_def assert_eq_m_def)

lemma apply_range_test: "runs (test_apply_range cfg) s (\<lambda>_ s'. s' = s)"
  unfolding test_apply_range_def
  by (rule stmts_id) (simp add: check_ok_runs check_err_runs gaps_def range_args_def in_i32_def)

text \<open>What has been written to a buffer with room for it can be read back.\<close>

lemma write_loop_runs:
  assumes "bw_i b + length cs \<le> length (bw_buf b)"
  shows "runs (write_loop cs) b (\<lambda>_ b'. length (bw_buf b') = length (bw_buf b) \<and> iter_bytes b' = iter_bytes b @ cs)"
  using assms
proof (induction cs arbitrary: b)
  case (Cons c cs)
  let ?b = "b\<lparr>bw_buf := (bw_buf b)[bw_i b := c], bw_i := bw_i b + 1\<rparr>"
  have "runs (write_loop cs) ?b (\<lambda>_ b'. length (bw_buf b') = length (bw_buf ?b) \<and> iter_bytes b' = iter_bytes ?b @ cs)"
    by (rule Cons.IH) (use Cons.prems in simp)
  moreover have "iter_bytes ?b = iter_bytes b @ [c]" using Cons.prems by (simp add: iter_bytes_def take_Suc_conv_app_nth)
  ultimately show ?case using Cons.prems by (simp add: wp)
qed (simp add: wp)

lemma write_str_runs:
  "runs (write_str cs) b (\<lambda>r b'. if bw_i b + length cs \<le> length (bw_buf b) then r = Ok () \<and> iter_bytes b' = iter_bytes b @ cs
     else r = Err () \<and> b' = b)"
  unfolding write_str_def by (auto simp: wp intro!: runs_conseq [OF write_loop_runs])

lemma parse_test: "runs test_parse_int_bytes s (\<lambda>_ s'. s' = s)"
proof -
  have n: "unat (as_c_uint i32_MAX + 1) = 2147483648" by (simp add: as_c_uint_def)
  have "length (dec_bytes 2147483648) = 10" by (simp add: dec_bytes.simps)
  moreover have "parse_int_bytes (dec_bytes 2147483648) = None"
    using parse_entry_name(1) [of 2147483648] by simp
  ultimately have "runs (write_str (dec_bytes (unat (as_c_uint i32_MAX + 1)))) BufWriter_new
      (\<lambda>r b. r = Ok () \<and> parse_int_bytes (iter_bytes b) = None)"
    unfolding n by (intro runs_conseq [OF write_str_runs]) (simp add: BufWriter_new_def iter_bytes_def)
  then have "runs (with_locals BufWriter_new (bnd (write_str (dec_bytes (unat (as_c_uint i32_MAX + 1)))) unwrap)) s
      (\<lambda>(_, b) s'. s' = s \<and> parse_int_bytes (iter_bytes b) = None)"
    unfolding runs_with_locals runs_bnd by (rule runs_conseq) (simp add: wp)
  then have "runs (bnd (with_locals BufWriter_new (bnd (write_str (dec_bytes (unat (as_c_uint i32_MAX + 1)))) unwrap))
      (\<lambda>(_, b). assert_m (parse_int_bytes (iter_bytes b) = None))) s (\<lambda>_ s'. s' = s)"
    by (rule runs_bndI) (auto simp: wp)
  moreover have "parse_int_bytes (byte_str ''0'') = Some 0" "parse_int_bytes (byte_str ''10'') = Some 10"
    "parse_int_bytes (byte_str ''1423'') = Some 1423" "parse_int_bytes (byte_str '' 0'') = None"
    "parse_int_bytes (byte_str ''0 '') = None" "parse_int_bytes (byte_str ''-1'') = None"
    "parse_int_bytes (byte_str ''+1'') = None" "parse_int_bytes (byte_str ''1.'') = None" "parse_int_bytes (byte_str '''') = None"
    by code_simp+
  ultimately show ?thesis unfolding test_parse_int_bytes_def by (intro stmts_id) (simp add: wp)
qed

section \<open>The tests that open a file\<close>

context file_kernel
begin

lemma with_fd_runs:
  assumes "has_slot open_max (fdt (kern w))"
    and "\<And>fd fl w'. only_kern w w' \<Longrightarrow> fdt (kern w) fd = None \<Longrightarrow> fdt (kern w') = (fdt (kern w))(fd := Some fl) \<Longrightarrow>
      fl AND c_FD_CLOEXEC os = 0 \<Longrightarrow> runs (f fd) w' (\<lambda>_ w''. only_kern w w'' \<and> (\<exists>fl. fdt (kern w'') = (fdt (kern w))(fd := Some fl)))"
  shows "runs (with_fd os f) w (\<lambda>_ w'. only_kern w w' \<and> fdt (kern w') = fdt (kern w))"
  unfolding with_fd_def
proof (rule runs_bndI [OF open_root_runs [OF assms(1)]], goal_cases)
  case (1 fd w1)
  then obtain fl where fl: "fdt (kern w1) = (fdt (kern w))(fd := Some fl)" "fl AND c_FD_CLOEXEC os = 0" by auto
  have "runs (f fd) w1 (\<lambda>_ w''. only_kern w w'' \<and> (\<exists>fl. fdt (kern w'') = (fdt (kern w))(fd := Some fl)))"
    using 1 fl by (intro assms(2)) auto
  then have "runs (bnd (f fd) (\<lambda>_. bnd (sys (os_close os fd)) (\<lambda>_. ret ()))) w1 (\<lambda>_ w'. only_kern w w' \<and> fdt (kern w') = fdt (kern w))"
  proof (rule runs_bndI)
    fix u w2 assume "only_kern w w2 \<and> (\<exists>fl. fdt (kern w2) = (fdt (kern w))(fd := Some fl))"
    with 1 close_opened [of "fdt (kern w)" fd "kern w2"] show
      "runs (bnd (sys (os_close os fd)) (\<lambda>_. ret ())) w2 (\<lambda>_ w'. only_kern w w' \<and> fdt (kern w') = fdt (kern w))"
      by (auto simp: wp)
  qed
  with 1 show ?case by (simp add: wp)
qed

lemma not_open: "fdt k (- 1) = None" "fdt k i32_MAX = None"
  using fd_range [of k "- 1"] fd_range [of k i32_MAX] by (cases "fdt k (- 1)"; cases "fdt k i32_MAX"; auto)+

lemma fd_valid_eq:
  "runs (assert_eq_m (is_fd_valid os fd) b) w (\<lambda>_ w'. only_kern w w' \<and> fdt (kern w') = fdt (kern w)) \<longleftrightarrow> (fdt (kern w) fd \<noteq> None) = b"
  using getfd_ret [of fd "kern w"] fd_flags [of "kern w" fd]
  by (auto simp: assert_eq_m_def is_fd_valid_def wp getfd_fdt split: option.splits)

lemma test_is_fd_valid_runs:
  assumes "has_slot open_max (fdt (kern w))" "fdt (kern w) 0 \<noteq> None"
  shows "runs (test_is_fd_valid os) w (\<lambda>_ w'. only_kern w w' \<and> fdt (kern w') = fdt (kern w))"
proof -
  have valid: "runs (assert_eq_m (is_fd_valid os fd) b) w' (\<lambda>_ w'. only_kern w w' \<and> fdt (kern w') = T)"
    if "only_kern w w'" "fdt (kern w') = T" "(T fd \<noteq> None) = b" for fd b w' T
  proof (rule runs_conseq)
    show "runs (assert_eq_m (is_fd_valid os fd) b) w' (\<lambda>_ w''. only_kern w' w'' \<and> fdt (kern w'') = fdt (kern w'))"
      unfolding fd_valid_eq using that by simp
  qed (use that in \<open>auto dest: only_kern_trans\<close>)
  have "runs (with_fd os (\<lambda>fd. assert_eq_m (is_fd_valid os fd) True)) w' (\<lambda>_ w''. only_kern w w'' \<and> fdt (kern w'') = fdt (kern w))"
    if w': "only_kern w w'" "fdt (kern w') = fdt (kern w)" for w'
  proof (rule runs_conseq [OF with_fd_runs [where w = w']])
    fix fd fl w1 assume "only_kern w' w1" "fdt (kern w1) = (fdt (kern w'))(fd := Some fl)"
    then show "runs (assert_eq_m (is_fd_valid os fd) True) w1 (\<lambda>_ w''. only_kern w' w'' \<and> (\<exists>fl. fdt (kern w'') = (fdt (kern w'))(fd := Some fl)))"
      by (intro runs_conseq [OF fd_valid_eq [THEN iffD2]]) (auto dest: only_kern_trans)
  qed (use w' assms(1) in \<open>auto dest: only_kern_trans\<close>)
  then show ?thesis unfolding test_is_fd_valid_def
    by (intro stmts_inv) (use valid assms(2) not_open in auto)
qed

lemma set_cloexec_closed:
  assumes "fdt (kern w) fd = None"
  shows "runs (set_cloexec os fd) w (\<lambda>_ w'. only_kern w w' \<and> fdt (kern w') = fdt (kern w))"
proof -
  have "upd (eff_cloexec (c_FD_CLOEXEC os)) {fd} (fdt (kern w)) = fdt (kern w)" using assms by (auto simp: upd_apply)
  then show ?thesis by (intro runs_conseq [OF set_cloexec_runs [of fd w]]) simp
qed

lemma set_cloexec_open:
  assumes "fdt (kern w) fd = Some fl"
  shows "runs (set_cloexec os fd) w (\<lambda>_ w'. only_kern w w' \<and> fdt (kern w') = (fdt (kern w))(fd := Some (fl OR c_FD_CLOEXEC os)))"
proof -
  have "upd (eff_cloexec (c_FD_CLOEXEC os)) {fd} (fdt (kern w)) = (fdt (kern w))(fd := Some (fl OR c_FD_CLOEXEC os))"
    using assms by (auto simp: upd_apply)
  then show ?thesis by (intro runs_conseq [OF set_cloexec_runs [of fd w]]) simp
qed

lemma is_cloexec_runs:
  assumes "fdt (kern w) fd = Some fl" "(fl AND c_FD_CLOEXEC os = c_FD_CLOEXEC os) = b"
  shows "runs (assert_eq_m (is_cloexec os fd) b) w (\<lambda>_ w'. only_kern w w' \<and> fdt (kern w') = fdt (kern w))"
  using assms fd_flags [OF assms(1)] by (simp add: assert_eq_m_def is_cloexec_def wp getfd_ret getfd_fdt)

lemma test_set_cloexec_runs:
  assumes "has_slot open_max (fdt (kern w))"
  shows "runs (test_set_cloexec os) w (\<lambda>_ w'. only_kern w w' \<and> fdt (kern w') = fdt (kern w))"
proof -
  let ?I = "\<lambda>w'. only_kern w w' \<and> fdt (kern w') = fdt (kern w)" and ?c = "c_FD_CLOEXEC os"
  have closed: "runs (set_cloexec os fd) w' (\<lambda>_. ?I)" if "fd \<in> {- 1, i32_MAX}" "?I w'" for fd w'
    by (rule runs_conseq [OF set_cloexec_closed]) (use that not_open in \<open>auto dest: only_kern_trans\<close>)
  have body: "runs (stmts [assert_eq_m (is_cloexec os fd) False, set_cloexec os fd, assert_eq_m (is_cloexec os fd) True]) w1
      (\<lambda>_ w''. only_kern w' w'' \<and> (\<exists>fl. fdt (kern w'') = T(fd := Some fl)))"
    if p: "only_kern w' w1" "fdt (kern w1) = T(fd := Some fl)" "fl AND ?c = 0" for w' w1 T fd fl
    unfolding runs_stmts_Cons runs_stmts_Nil
  proof (rule runs_conseq [OF is_cloexec_runs [where fl = fl]], goal_cases)
    case (3 u w2)
    show ?case
    proof (rule runs_conseq [OF set_cloexec_open [where fl = fl]], goal_cases)
      case (2 u w3)
      show ?case
      proof (rule runs_conseq [OF is_cloexec_runs [where fl = "fl OR ?c"]], goal_cases)
        case (2)
        show ?case by (simp add: or_and_absorb)
      qed (use 2 3 p in \<open>auto dest: only_kern_trans\<close>)
    qed (use 3 p in simp)
  qed (use p cloexec_pos in auto)
  have "runs (with_fd os (\<lambda>fd. stmts [assert_eq_m (is_cloexec os fd) False, set_cloexec os fd, assert_eq_m (is_cloexec os fd) True])) w' (\<lambda>_. ?I)"
    if "?I w'" for w'
    by (rule runs_conseq [OF with_fd_runs [where w = w']], use that assms body in \<open>auto dest: only_kern_trans\<close>)
  then show ?thesis unfolding test_set_cloexec_def
    by (intro stmts_inv) (use closed in auto)
qed

end

section \<open>The tests together\<close>

text \<open>
  The unit tests of the pure functions pass, in every build profile and without touching the state: those of
  \<^verbatim>\<open>inspect_keep_fds\<close>, \<^verbatim>\<open>check_should_keep\<close>, \<^verbatim>\<open>simplify_keep_fds\<close> and \<^verbatim>\<open>apply_range\<close> in \<^verbatim>\<open>src/util.rs\<close> and that of \<^verbatim>\<open>parse_int_bytes\<close> in
  \<^verbatim>\<open>src/iterfds/dirfd.rs\<close>.
\<close>

lemma pure_unit_tests_pass:
  "test_inspect_keep_fds cfg s = Some (Inr ((), s)) \<and> test_check_should_keep_sorted s = Some (Inr ((), s)) \<and>
   test_check_should_keep_not_sorted s = Some (Inr ((), s)) \<and> test_simplify_keep_fds cfg s = Some (Inr ((), s)) \<and>
   test_apply_range cfg s = Some (Inr ((), s)) \<and> test_parse_int_bytes s = Some (Inr ((), s))"
  using inspect_test [of cfg s] keep_tests [of s] simplify_test [of cfg s] apply_range_test [of cfg s] parse_test [of s]
  by (simp add: runs_unit_id)

section \<open>Properties\<close>

text \<open>
  C35. The unit tests of \<^verbatim>\<open>is_fd_valid\<close> and \<^verbatim>\<open>set_cloexec\<close> pass on every kernel that keeps the contract \<open>file_kernel\<close>, when standard
  input is open and a descriptor is free, and leave the descriptor table as it was.
\<close>

theorem descriptor_unit_tests_pass:
  assumes "file_kernel cfg os fdt dirs open_max release osreldate dirs_work"
    and "has_slot open_max (fdt (kern w))" "fdt (kern w) 0 \<noteq> None"
  shows "\<exists>w1 w2. test_is_fd_valid os w = Some (Inr ((), w1)) \<and> fdt (kern w1) = fdt (kern w) \<and>
    test_set_cloexec os w = Some (Inr ((), w2)) \<and> fdt (kern w2) = fdt (kern w)"
  using file_kernel.test_is_fd_valid_runs [OF assms] file_kernel.test_set_cloexec_runs [OF assms(1,2)]
  by (auto elim!: runsE)

end
