(* ===== verification/Iter_Tests.thy ===== *)
theory Iter_Tests
  imports Unit_Tests Size_Hint
begin

text \<open>
  The unit tests in \<^verbatim>\<open>src/iterfds/mod.rs\<close>: \<^verbatim>\<open>size_hint\<close> is compared, at every step of an iteration, with the number of descriptors that
  follow, and an exhausted iterator is asked again. They pass on every kernel that keeps the contract, for every
  setting of the builder, and leave no descriptor behind.
\<close>

section \<open>Definitions\<close>

text \<open>\<^verbatim>\<open>open_files\<close> opens ten descriptors, \<^verbatim>\<open>close_files\<close> closes them.\<close>

fun open_loop :: "'k os \<Rightarrow> nat \<Rightarrow> ('k world, c_int list) prog" where
  "open_loop os 0 = ret []"
| "open_loop os (Suc n) =
     bnd (sys (os_open os ''/'' [O_RDONLY])) (\<lambda>cur_fd.
     bnd (assert_m (cur_fd \<ge> 0)) (\<lambda>_.
     bnd (open_loop os n) (\<lambda>fds. ret (cur_fd # fds))))"

definition open_files :: "'k os \<Rightarrow> ('k world, c_int list) prog" where
  "open_files os = open_loop os 10"

definition close_files :: "'k os \<Rightarrow> c_int list \<Rightarrow> ('k world, unit) prog" where
  "close_files os fds = stmts (map (\<lambda>fd. bnd (sys (os_close os fd)) (\<lambda>_. ret ())) fds)"

text \<open>\<^verbatim>\<open>test_size_hint_generic\<close>: the loop keeps the iterator, the count \<^verbatim>\<open>i\<close> and the tightest bounds seen so far.\<close>

definition adjust_high :: "config \<Rightarrow> usize \<Rightarrow> usize option \<Rightarrow> usize \<Rightarrow> ('s, usize option) prog" where
  "adjust_high cfg cur_low cur_high i = (case cur_high of
     Some cur_high \<Rightarrow>
       bnd (assert_m (cur_high \<ge> cur_low)) (\<lambda>_.
       bnd (add_usize cfg cur_high i) (\<lambda>a.
       bnd (add_usize cfg a 1) (\<lambda>h. ret (Some h))))
   | None \<Rightarrow> ret None)"

definition tighten :: "usize option \<Rightarrow> usize option \<Rightarrow> usize option" where
  "tighten init_high adj_high = (case adj_high of
     Some adj_high \<Rightarrow> (case init_high of
       Some ihigh \<Rightarrow> if adj_high < ihigh then Some adj_high else init_high
     | None \<Rightarrow> Some adj_high)
   | None \<Rightarrow> init_high)"

definition size_hint_test_body :: "config \<Rightarrow> 'k os \<Rightarrow> FdIter \<times> usize \<times> usize \<times> usize option \<Rightarrow>
  ('k world, (FdIter \<times> usize \<times> usize \<times> usize option, FdIter \<times> usize \<times> usize \<times> usize option) ctl) prog" where
  "size_hint_test_body cfg os = (\<lambda>(fditer, i, init_low, init_high).
     bnd (FdIter_next cfg os fditer) (\<lambda>(r, fditer). case r of
       None \<Rightarrow> ret (Break (fditer, i, init_low, init_high))
     | Some _ \<Rightarrow>
         bnd (FdIter_size_hint cfg fditer) (\<lambda>(cur_low, cur_high).
         bnd (add_usize cfg cur_low i) (\<lambda>a.
         bnd (add_usize cfg a 1) (\<lambda>adj_low.
         bnd (adjust_high cfg cur_low cur_high i) (\<lambda>adj_high.
         let init_low = (if adj_low > init_low then adj_low else init_low);
             init_high = tighten init_high adj_high in
         bnd (add_usize cfg i 1) (\<lambda>i.
         ret (Continue (fditer, i, init_low, init_high)))))))))"

definition assert_high :: "usize option \<Rightarrow> (usize \<Rightarrow> bool) \<Rightarrow> ('s, unit) prog" where
  "assert_high high P = (case high of Some h \<Rightarrow> assert_m (P h) | None \<Rightarrow> ret ())"

definition test_size_hint_generic :: "config \<Rightarrow> 'k os \<Rightarrow> FdIter \<Rightarrow> ('k world, unit) prog" where
  "test_size_hint_generic cfg os fditer =
     bnd (FdIter_size_hint cfg fditer) (\<lambda>(init_low, init_high).
     bnd (assert_high init_high (\<lambda>h. h \<ge> init_low)) (\<lambda>_.
     bnd (loop_m (size_hint_test_body cfg os) (fditer, 0, init_low, init_high)) (\<lambda>(fditer, i, init_low, init_high).
     bnd (FdIter_size_hint cfg fditer) (\<lambda>(final_low, _).
     bnd (assert_m (final_low = 0)) (\<lambda>_.
     bnd (assert_m (i \<ge> init_low)) (\<lambda>_.
     bnd (assert_high init_high (\<lambda>h. i \<le> h)) (\<lambda>_.
     FdIter_drop os fditer)))))))"

text \<open>\<^verbatim>\<open>test_fused_generic\<close>: \<^verbatim>\<open>by_ref().count()\<close> runs the iterator to its end without dropping it.\<close>

definition count_by_ref :: "config \<Rightarrow> 'k os \<Rightarrow> FdIter \<Rightarrow> ('k world, usize \<times> FdIter) prog" where
  "count_by_ref cfg os fditer = loop_m (\<lambda>(n, it). bnd (FdIter_next cfg os it) (\<lambda>(r, it). case r of
     Some _ \<Rightarrow> bnd (add_usize cfg n 1) (\<lambda>n. ret (Continue (n, it)))
   | None \<Rightarrow> ret (Break (n, it)))) (0, fditer)"

definition test_fused_generic :: "config \<Rightarrow> 'k os \<Rightarrow> FdIter \<Rightarrow> ('k world, unit) prog" where
  "test_fused_generic cfg os fditer =
     bnd (count_by_ref cfg os fditer) (\<lambda>(_, fditer).
     bnd (FdIter_next cfg os fditer) (\<lambda>(r, fditer).
     bnd (assert_m (r = None)) (\<lambda>_.
     FdIter_drop os fditer)))"

text \<open>The four tests have one shape: the generic test on a new iterator with and without \<^verbatim>\<open>threadsafe\<close>, before and after opening files.\<close>

definition run_generic :: "config \<Rightarrow> 'k os \<Rightarrow> (FdIter \<Rightarrow> ('k world, unit) prog) \<Rightarrow> FdIterBuilder \<Rightarrow> ('k world, unit) prog" where
  "run_generic cfg os generic b = bnd (iter_from cfg os b 0) generic"

definition with_files :: "'k os \<Rightarrow> ('k world, unit) prog \<Rightarrow> ('k world, unit) prog" where
  "with_files os p = bnd (open_files os) (\<lambda>fds. bnd p (\<lambda>_. close_files os fds))"

definition test_size_hint_open :: "config \<Rightarrow> 'k os \<Rightarrow> ('k world, unit) prog" where
  "test_size_hint_open cfg os = stmts [
     run_generic cfg os (test_size_hint_generic cfg os) (threadsafe cfg False FdIterBuilder_new),
     run_generic cfg os (test_size_hint_generic cfg os) (threadsafe cfg True FdIterBuilder_new),
     with_files os (stmts [
       run_generic cfg os (test_size_hint_generic cfg os) (threadsafe cfg False FdIterBuilder_new),
       run_generic cfg os (test_size_hint_generic cfg os) (threadsafe cfg True FdIterBuilder_new)])]"

definition test_size_hint_possible :: "config \<Rightarrow> 'k os \<Rightarrow> ('k world, unit) prog" where
  "test_size_hint_possible cfg os = stmts [
     run_generic cfg os (test_size_hint_generic cfg os) (threadsafe cfg False (possible True FdIterBuilder_new)),
     run_generic cfg os (test_size_hint_generic cfg os) (threadsafe cfg True (possible True FdIterBuilder_new)),
     with_files os (stmts [
       run_generic cfg os (test_size_hint_generic cfg os) (threadsafe cfg False (possible True FdIterBuilder_new)),
       run_generic cfg os (test_size_hint_generic cfg os) (threadsafe cfg True (possible True FdIterBuilder_new))])]"

definition test_fused_open :: "config \<Rightarrow> 'k os \<Rightarrow> ('k world, unit) prog" where
  "test_fused_open cfg os = stmts [
     run_generic cfg os (test_fused_generic cfg os) (threadsafe cfg False FdIterBuilder_new),
     run_generic cfg os (test_fused_generic cfg os) (threadsafe cfg True FdIterBuilder_new),
     with_files os (stmts [
       run_generic cfg os (test_fused_generic cfg os) (threadsafe cfg False FdIterBuilder_new),
       run_generic cfg os (test_fused_generic cfg os) (threadsafe cfg True FdIterBuilder_new)])]"

definition test_fused_possible :: "config \<Rightarrow> 'k os \<Rightarrow> ('k world, unit) prog" where
  "test_fused_possible cfg os = stmts [
     run_generic cfg os (test_fused_generic cfg os) (threadsafe cfg False (possible True FdIterBuilder_new)),
     run_generic cfg os (test_fused_generic cfg os) (threadsafe cfg True (possible True FdIterBuilder_new)),
     with_files os (stmts [
       run_generic cfg os (test_fused_generic cfg os) (threadsafe cfg False (possible True FdIterBuilder_new)),
       run_generic cfg os (test_fused_generic cfg os) (threadsafe cfg True (possible True FdIterBuilder_new))])]"

section \<open>What an iterator goes on to deliver\<close>

inductive delivers :: "config \<Rightarrow> 'k os \<Rightarrow> FdIter \<Rightarrow> 'k world \<Rightarrow> c_int list \<Rightarrow> bool" for cfg :: config and os :: "'k os" where
  delivers_end: "FdIter_next cfg os it w = Some (Inr ((None, it'), w')) \<Longrightarrow> delivers cfg os it w []"
| delivers_fd: "FdIter_next cfg os it w = Some (Inr ((Some fd, it'), w')) \<Longrightarrow> delivers cfg os it' w' l \<Longrightarrow>
    delivers cfg os it w (fd # l)"

inductive_cases delivers_cases: "delivers cfg os it w l"

lemma delivers_None: "FdIter_next cfg os it w = Some (Inr ((None, it'), w')) \<Longrightarrow> delivers cfg os it w l \<Longrightarrow> l = []"
  by (auto elim: delivers_cases)

lemma delivers_Some:
  assumes "FdIter_next cfg os it w = Some (Inr ((Some fd, it'), w'))" "delivers cfg os it w l"
  obtains l' where "l = fd # l'" "delivers cfg os it' w' l'"
  using assms(2,1) by (auto elim: delivers_cases)

lemma delivers_unique: "delivers cfg os it w l \<Longrightarrow> delivers cfg os it w l' \<Longrightarrow> l = l'"
proof (induction arbitrary: l' rule: delivers.induct)
  case (delivers_end it w it' w')
  then show ?case by (auto dest: delivers_None)
next
  case (delivers_fd it w fd it' w' l)
  then show ?case by (metis delivers_Some)
qed

text \<open>Collecting an iterator gives what it delivers.\<close>

lemma collect_delivers:
  assumes "FdIter_collect cfg os it w = Some (Inr (l, w'))"
  shows "delivers cfg os it w l"
  using assms unfolding FdIter_collect_def collect_def
proof (rule loop_m_partial [where P = "\<lambda>c s. \<forall>l. delivers cfg os (snd c) s l \<longrightarrow> delivers cfg os it w (fst c @ l)"])
  fix c s c' s'
  assume P: "\<forall>l. delivers cfg os (snd c) s l \<longrightarrow> delivers cfg os it w (fst c @ l)"
    and step: "(case c of (acc, it) \<Rightarrow> bnd (FdIter_next cfg os it) (\<lambda>(r, it). case r of
      None \<Rightarrow> bnd (FdIter_drop os it) (\<lambda>_. ret (Break acc)) | Some fd \<Rightarrow> ret (Continue (acc @ [fd], it)))) s = Some (Inr (Continue c', s'))"
  from step obtain acc it1 fd where "c = (acc, it1)" "FdIter_next cfg os it1 s = Some (Inr ((Some fd, snd c'), s'))" "fst c' = acc @ [fd]"
    by (cases c) (auto simp: ret_def split: option.splits elim!: bnd_returns)
  with P show "\<forall>l. delivers cfg os (snd c') s' l \<longrightarrow> delivers cfg os it w (fst c' @ l)"
    by (auto dest: delivers_fd)
next
  fix c s x s'
  assume P: "\<forall>l. delivers cfg os (snd c) s l \<longrightarrow> delivers cfg os it w (fst c @ l)"
    and stop: "(case c of (acc, it) \<Rightarrow> bnd (FdIter_next cfg os it) (\<lambda>(r, it). case r of
      None \<Rightarrow> bnd (FdIter_drop os it) (\<lambda>_. ret (Break acc)) | Some fd \<Rightarrow> ret (Continue (acc @ [fd], it)))) s = Some (Inr (Break x, s'))"
  from stop obtain it2 s2 where "FdIter_next cfg os (snd c) s = Some (Inr ((None, it2), s2))" "x = fst c"
    by (cases c) (auto simp: ret_def split: option.splits elim!: bnd_returns)
  with P show "delivers cfg os it w x" by (auto dest: delivers_end)
qed simp

section \<open>The generic tests\<close>

lemma add_usize_ok: "32 \<le> usize_bits cfg \<Longrightarrow> a + b < 4294967296 \<Longrightarrow> add_usize cfg a b = ret (a + b)"
proof -
  assume "32 \<le> usize_bits cfg" "a + b < 4294967296"
  moreover from this(1) have "(2 :: nat) ^ 32 \<le> 2 ^ usize_bits cfg" by (intro power_increasing) simp_all
  ultimately have "a + b < 2 ^ usize_bits cfg" by simp
  then show ?thesis by (simp add: add_usize_def)
qed

context fd_kernel
begin

text \<open>The iterator has delivered \<open>i\<close> descriptors out of \<open>N\<close>.\<close>

definition pending :: "nat \<Rightarrow> nat \<Rightarrow> FdIter \<Rightarrow> 'k world \<Rightarrow> bool" where
  "pending N i it w \<longleftrightarrow> iter_ok (dom (user_tab it w)) it w \<and> (\<exists>l. delivers cfg os it w l \<and> i + length l = N)"

lemma pending_start:
  assumes "iter_ok (dom (user_tab it w)) it w"
  obtains N where "pending N 0 it w" "N \<le> 2147483647"
proof -
  from src.collect_runs [OF assms, folded FdIter_collect_def] obtain l w' where
    l: "FdIter_collect cfg os it w = Some (Inr (l, w'))" "sorted_wrt (<) l" "set l \<subseteq> {fi_curfd it..<i32_MAX}"
    by (elim runsE) blast
  have "0 \<le> fi_curfd it" using assms by (simp add: it_inv_def fd_inv_def)
  with sorted_length_bounds(1) [OF l(2,3)] have "length l \<le> 2147483647" by simp
  with collect_delivers [OF l(1)] assms show ?thesis by (intro that [of "length l"]) (auto simp: pending_def)
qed

lemma next_pending:
  assumes "pending N i it w"
  shows "runs (FdIter_next cfg os it) w (\<lambda>(r, it') w'. only_kern w w' \<and> user_tab it' w' = user_tab it w \<and>
    (case r of None \<Rightarrow> i = N \<and> pending N N it' w' | Some _ \<Rightarrow> i < N \<and> pending N (i + 1) it' w'))"
proof -
  from assms obtain l where ok: "iter_ok (dom (user_tab it w)) it w" and l: "delivers cfg os it w l" "i + length l = N"
    by (auto simp: pending_def)
  from FdIter_next_runs [OF ok] obtain r it' w' where nx: "FdIter_next cfg os it w = Some (Inr ((r, it'), w'))"
    and post: "only_kern w w'" "iter_ok (dom (user_tab it w)) it' w'" "user_tab it' w' = user_tab it w" by (elim runsE) auto
  have "case r of None \<Rightarrow> i = N \<and> pending N N it' w' | Some _ \<Rightarrow> i < N \<and> pending N (i + 1) it' w'"
  proof (cases r)
    case None
    with nx have n: "FdIter_next cfg os it w = Some (Inr ((None, it'), w'))" by simp
    from delivers_end [OF next_None_again [OF n]] delivers_None [OF n l(1)] l(2) post None show ?thesis
      by (auto simp: pending_def)
  next
    case (Some fd)
    with nx have "FdIter_next cfg os it w = Some (Inr ((Some fd, it'), w'))" by simp
    then obtain l' where "l = fd # l'" "delivers cfg os it' w' l'" using l(1) by (rule delivers_Some)
    with l(2) post Some show ?thesis by (auto simp: pending_def)
  qed
  with nx post show ?thesis by (auto simp: runs_def)
qed

lemma size_hint_pending:
  assumes "pending N i it w" "32 \<le> usize_bits cfg"
  obtains lo hi where "FdIter_size_hint cfg it s = Some (Inr ((lo, Some hi), s))"
    "i + lo \<le> N" "N \<le> i + hi" "lo \<le> hi" "hi \<le> 2147483647"
proof -
  from assms(1) obtain l where ok: "iter_ok (dom (user_tab it w)) it w" and l: "delivers cfg os it w l" "i + length l = N"
    by (auto simp: pending_def)
  show ?thesis
  proof (rule size_hint_runs [OF ok assms(2), where s = s])
    fix lo hi assume h: "FdIter_size_hint cfg it s = Some (Inr ((lo, Some hi), s))" "hi \<le> 2147483647"
      "runs (FdIter_collect cfg os it) w (\<lambda>l w'. lo \<le> length l \<and> length l \<le> hi)"
    from h(3) obtain l' where "delivers cfg os it w l'" "lo \<le> length l'" "length l' \<le> hi"
      by (auto elim!: runsE dest: collect_delivers)
    with delivers_unique [OF l(1)] l(2) h(1,2) show ?thesis by (intro that [of lo hi]) auto
  qed
qed

definition size_test_inv :: "nat \<Rightarrow> 'k world \<Rightarrow> fd_table \<Rightarrow> FdIter \<times> usize \<times> usize \<times> usize option \<Rightarrow> 'k world \<Rightarrow> bool" where
  "size_test_inv N w0 U = (\<lambda>(it, i, lo, hi) w. pending N i it w \<and> only_kern w0 w \<and> user_tab it w = U \<and> lo \<le> N \<and>
     (\<exists>h. hi = Some h \<and> N \<le> h))"

lemma size_hint_test_body_runs:
  assumes "size_test_inv N w0 U c w" "N \<le> 2147483647" "32 \<le> usize_bits cfg"
  shows "runs (size_hint_test_body cfg os c) w (\<lambda>r w'. case r of
      Continue c' \<Rightarrow> size_test_inv N w0 U c' w' \<and> N - fst (snd c') < N - fst (snd c)
    | Break c' \<Rightarrow> size_test_inv N w0 U c' w' \<and> fst (snd c') = N)"
proof -
  obtain it i lo hi where c: "c = (it, i, lo, Some hi)" and inv: "pending N i it w" "only_kern w0 w" "user_tab it w = U" "lo \<le> N" "N \<le> hi"
    using assms(1) by (auto simp: size_test_inv_def)
  show ?thesis unfolding c size_hint_test_body_def prod.case
  proof (rule runs_bndI [OF next_pending [OF inv(1)]], goal_cases)
    case (1 x w1)
    obtain r it1 where x: "x = (r, it1)" by fastforce
    show ?case
    proof (cases r)
      case None
      with 1 x inv show ?thesis by (auto simp: wp size_test_inv_def dest: only_kern_trans)
    next
      case (Some fd)
      with 1 x have it1: "only_kern w w1" "user_tab it1 w1 = U" "i < N" "pending N (i + 1) it1 w1" using inv(3) by auto
      show ?thesis
      proof (rule size_hint_pending [OF it1(4) assms(3), where s = w1])
        fix l h assume h: "FdIter_size_hint cfg it1 w1 = Some (Inr ((l, Some h), w1))"
          "i + 1 + l \<le> N" "N \<le> i + 1 + h" "l \<le> h" "h \<le> 2147483647"
        note add = add_usize_ok [OF assms(3)]
        have "runs (FdIter_size_hint cfg it1) w1 (\<lambda>y s. y = (l, Some h) \<and> s = w1)" using h(1) by (simp add: runs_def)
        then show ?thesis unfolding x Some prod.case option.case
        proof (rule runs_bndI, goal_cases)
          case (1 y s)
          with h it1 assms(2) inv show ?case
            by (auto simp: wp add adjust_high_def tighten_def size_test_inv_def Let_def dest: only_kern_trans)
        qed
      qed
    qed
  qed
qed

lemma test_size_hint_generic_runs:
  assumes "iter_ok (dom (user_tab it w)) it w" "32 \<le> usize_bits cfg"
  shows "runs (test_size_hint_generic cfg os it) w (\<lambda>_ w'. only_kern w w' \<and> fdt (kern w') = user_tab it w)"
proof -
  obtain N where N: "pending N 0 it w" "N \<le> 2147483647" using pending_start [OF assms(1)] .
  show ?thesis
  proof (rule size_hint_pending [OF N(1) assms(2), where s = w])
    fix lo hi assume h: "FdIter_size_hint cfg it w = Some (Inr ((lo, Some hi), w))" "0 + lo \<le> N" "N \<le> 0 + hi" "lo \<le> hi"
    have inv: "size_test_inv N w (user_tab it w) (it, 0, lo, Some hi) w" using N h by (simp add: size_test_inv_def)
    have loop: "runs (loop_m (size_hint_test_body cfg os) (it, 0, lo, Some hi)) w
        (\<lambda>c w'. size_test_inv N w (user_tab it w) c w' \<and> fst (snd c) = N)"
      by (rule runs_loop_m [where I = "size_test_inv N w (user_tab it w)" and \<mu> = "\<lambda>c _. N - fst (snd c)", OF _ inv])
        (rule size_hint_test_body_runs [OF _ N(2) assms(2)])
    have start: "runs (FdIter_size_hint cfg it) w (\<lambda>y s. y = (lo, Some hi) \<and> s = w)" using h(1) by (simp add: runs_def)
    have fin: "runs (bnd (FdIter_size_hint cfg it') (\<lambda>(final_low, _).
        bnd (assert_m (final_low = 0)) (\<lambda>_. bnd (assert_m (N \<ge> lo')) (\<lambda>_. bnd (assert_high hi' (\<lambda>h. N \<le> h)) (\<lambda>_. FdIter_drop os it'))))) w'
        (\<lambda>_ w'. only_kern w w' \<and> fdt (kern w') = user_tab it w)"
      if e: "size_test_inv N w (user_tab it w) (it', N, lo', hi') w'" for it' lo' hi' w'
    proof -
      from e obtain h' where p: "pending N N it' w'" "only_kern w w'" "user_tab it' w' = user_tab it w" "lo' \<le> N" "hi' = Some h'" "N \<le> h'"
        by (auto simp: size_test_inv_def)
      show ?thesis
      proof (rule size_hint_pending [OF p(1) assms(2), where s = w'])
        fix l h assume "FdIter_size_hint cfg it' w' = Some (Inr ((l, Some h), w'))" "N + l \<le> N"
        then have "runs (FdIter_size_hint cfg it') w' (\<lambda>y s. y = (0, Some h) \<and> s = w')" by (simp add: runs_def)
        moreover have "runs (FdIter_drop os it') w' (\<lambda>_ w'. only_kern w w' \<and> fdt (kern w') = user_tab it w)"
          by (rule runs_conseq [OF FdIter_drop_runs]) (use p in \<open>auto dest: only_kern_trans\<close>)
        ultimately show ?thesis by (elim runs_bndI) (use p in \<open>simp add: wp assert_high_def\<close>)
      qed
    qed
    have "assert_high (Some hi) (\<lambda>h. h \<ge> lo) = (ret () :: ('k world, unit) prog)" using h(4) by (simp add: assert_high_def assert_m_def)
    then show ?thesis unfolding test_size_hint_generic_def
      by (intro runs_bndI [OF start]) (auto intro!: runs_bndI [OF loop] fin)
  qed
qed

lemma count_by_ref_runs:
  assumes "pending N 0 it w" "N \<le> 2147483647" "32 \<le> usize_bits cfg"
  shows "runs (count_by_ref cfg os it) w (\<lambda>(n, it') w'. n = N \<and> pending N N it' w' \<and> only_kern w w' \<and> user_tab it' w' = user_tab it w)"
  unfolding count_by_ref_def
proof (rule runs_loop_m [where \<mu> = "\<lambda>c _. N - fst c" and
    I = "\<lambda>(n, it') w'. pending N n it' w' \<and> only_kern w w' \<and> user_tab it' w' = user_tab it w"], goal_cases)
  case (1 c w1)
  obtain n it1 where c: "c = (n, it1)" by fastforce
  with 1 have inv: "pending N n it1 w1" "only_kern w w1" "user_tab it1 w1 = user_tab it w" by simp_all
  show ?case unfolding c prod.case
  proof (rule runs_bndI [OF next_pending [OF inv(1)]], goal_cases)
    case (1 x w2)
    obtain r it2 where x: "x = (r, it2)" by fastforce
    show ?case
    proof (cases r)
      case None
      with 1 x inv show ?thesis by (auto simp: wp dest: only_kern_trans)
    next
      case (Some fd)
      with 1 x inv assms(2) show ?thesis by (auto simp: wp add_usize_ok [OF assms(3)] dest: only_kern_trans)
    qed
  qed
qed (use assms in simp)

lemma test_fused_generic_runs:
  assumes "iter_ok (dom (user_tab it w)) it w" "32 \<le> usize_bits cfg"
  shows "runs (test_fused_generic cfg os it) w (\<lambda>_ w'. only_kern w w' \<and> fdt (kern w') = user_tab it w)"
proof -
  obtain N where N: "pending N 0 it w" "N \<le> 2147483647" using pending_start [OF assms(1)] .
  show ?thesis unfolding test_fused_generic_def
  proof (rule runs_bndI [OF count_by_ref_runs [OF N assms(2)]], goal_cases)
    case (1 c w1)
    obtain n it1 where c: "c = (n, it1)" by fastforce
    with 1 have p: "pending N N it1 w1" "only_kern w w1" "user_tab it1 w1 = user_tab it w" by simp_all
    show ?case unfolding c prod.case
    proof (rule runs_bndI [OF next_pending [OF p(1)]], goal_cases)
      case (1 x w2)
      obtain r it2 where x: "x = (r, it2)" by fastforce
      with 1 have "r = None" "only_kern w1 w2" "user_tab it2 w2 = user_tab it1 w1" by (auto split: option.splits)
      with x p show ?case by (auto simp: wp dest: only_kern_trans intro!: runs_conseq [OF FdIter_drop_runs])
    qed
  qed
qed

text \<open>A generic test on a new iterator.\<close>

lemma run_generic_runs:
  assumes "statics_ok release osreldate w" "reaches cfg open_max dirs_work FdIterBuilder_new (fdt (kern w))" "b_dirfd b"
    and "\<And>it w. iter_ok (dom (user_tab it w)) it w \<Longrightarrow> runs (generic it) w (\<lambda>_ w'. only_kern w w' \<and> fdt (kern w') = user_tab it w)"
  shows "runs (run_generic cfg os generic b) w (\<lambda>_ w'. statics_ok release osreldate w' \<and> fdt (kern w') = fdt (kern w))"
proof -
  have "reaches cfg open_max dirs_work b (fdt (kern w))"
    using assms(2) by (rule reaches_mono) (use assms(3) in \<open>simp_all add: FdIterBuilder_new_def\<close>)
  note run = iter_from_runs [OF assms(1) _ this, of 0]
  show ?thesis unfolding run_generic_def
    by (rule runs_bndI [OF run]) (auto simp: only_kern_statics intro!: runs_conseq [OF assms(4)])
qed

end

section \<open>The tests\<close>

context file_kernel
begin

lemma open_loop_runs:
  assumes "n < card (free_fds open_max (fdt (kern w)))" "reaches cfg open_max dirs_work b (fdt (kern w))"
  shows "runs (open_loop os n) w (\<lambda>fds w'. only_kern w w' \<and> reaches cfg open_max dirs_work b (fdt (kern w')) \<and>
    upd eff_close (set fds) (fdt (kern w')) = fdt (kern w))"
  using assms
proof (induction n arbitrary: w)
  case (Suc n)
  let ?T = "fdt (kern w)"
  have slot: "has_slot open_max ?T" using Suc.prems(1) by (intro free_has_slot) simp
  show ?case unfolding open_loop.simps
  proof (rule runs_bndI [OF open_root_runs [OF slot]], goal_cases)
    case (1 fd w1)
    then obtain fl where fd: "0 \<le> fd" "?T fd = None" "\<forall>d. 0 \<le> d \<and> d < fd \<longrightarrow> ?T d \<noteq> None" "fdt (kern w1) = ?T(fd := Some fl)" "only_kern w w1"
      by blast
    note low = free_lowest [OF _ fd(1-3), of open_max]
    have free: "0 < card (free_fds open_max ?T)" "1 < card (free_fds open_max ?T)" using Suc.prems(1) by simp_all
    have "n < card (free_fds open_max (fdt (kern w1)))" using Suc.prems(1) low [OF free(1)] fd(4) by (simp add: free_fds_open)
    moreover have "reaches cfg open_max dirs_work b (fdt (kern w1))"
      unfolding fd(4) by (rule reaches_open [OF Suc.prems(2) free(2) low [OF free(1)]])
    ultimately have IH: "runs (open_loop os n) w1 (\<lambda>fds w'. only_kern w1 w' \<and> reaches cfg open_max dirs_work b (fdt (kern w')) \<and>
        upd eff_close (set fds) (fdt (kern w')) = fdt (kern w1))" by (rule Suc.IH)
    have close: "upd eff_close (set (fd # fds)) T' = ?T" if "upd eff_close (set fds) T' = ?T(fd := Some fl)" for fds T'
    proof (rule ext)
      fix x show "upd eff_close (set (fd # fds)) T' x = ?T x"
        using fun_cong [OF that, of x] fd(2) by (auto simp: upd_apply split: if_splits)
    qed
    have "runs (bnd (open_loop os n) (\<lambda>fds. ret (fd # fds))) w1 (\<lambda>fds w'. only_kern w w' \<and>
        reaches cfg open_max dirs_work b (fdt (kern w')) \<and> upd eff_close (set fds) (fdt (kern w')) = ?T)"
    proof (rule runs_bndI [OF IH])
      fix fds w' assume a: "only_kern w1 w' \<and> reaches cfg open_max dirs_work b (fdt (kern w')) \<and>
        upd eff_close (set fds) (fdt (kern w')) = fdt (kern w1)"
      then have "upd eff_close (set (fd # fds)) (fdt (kern w')) = ?T" by (intro close) (metis fd(4))
      moreover have "only_kern w w'" using a fd(5) only_kern_trans by blast
      ultimately show "runs (ret (fd # fds)) w' (\<lambda>fds w'. only_kern w w' \<and> reaches cfg open_max dirs_work b (fdt (kern w')) \<and>
        upd eff_close (set fds) (fdt (kern w')) = ?T)" using a unfolding runs_ret by blast
    qed
    with fd(1) show ?case by (simp add: wp del: eff_laws)
  qed
qed (simp add: wp)

lemma close_files_runs: "runs (close_files os fds) w (\<lambda>_ w'. only_kern w w' \<and> fdt (kern w') = upd eff_close (set fds) (fdt (kern w)))"
proof (induction fds arbitrary: w)
  case (Cons fd fds)
  let ?w = "w\<lparr>kern := snd (os_close os fd (kern w))\<rparr>"
  have "upd eff_close (set fds) (fdt (kern ?w)) = upd eff_close (set (fd # fds)) (fdt (kern w))"
    by (auto simp: close_fdt upd_apply)
  moreover have "only_kern w ?w" by simp
  ultimately have "runs (close_files os fds) ?w (\<lambda>_ w'. only_kern w w' \<and> fdt (kern w') = upd eff_close (set (fd # fds)) (fdt (kern w)))"
    by (intro runs_conseq [OF Cons.IH [of ?w]]) (metis only_kern_trans)
  then show ?case by (simp add: close_files_def wp del: eff_laws)
qed (simp add: close_files_def wp)

lemma with_files_runs:
  assumes "statics_ok release osreldate w" "10 < card (free_fds open_max (fdt (kern w)))" "reaches cfg open_max dirs_work b (fdt (kern w))"
    and "\<And>w'. statics_ok release osreldate w' \<Longrightarrow> reaches cfg open_max dirs_work b (fdt (kern w')) \<Longrightarrow>
      runs p w' (\<lambda>_ w''. statics_ok release osreldate w'' \<and> fdt (kern w'') = fdt (kern w'))"
  shows "runs (with_files os p) w (\<lambda>_ w'. statics_ok release osreldate w' \<and> fdt (kern w') = fdt (kern w))"
  unfolding with_files_def open_files_def
proof (rule runs_bndI [OF open_loop_runs [OF assms(2,3)]], goal_cases)
  case (1 fds w1)
  with assms(1) have st: "statics_ok release osreldate w1" using only_kern_statics [of w w1] by simp
  show ?case
  proof (rule runs_bndI [OF assms(4) [OF st]], goal_cases)
    case (2 u w2)
    with 1 show ?case by (intro runs_conseq [OF close_files_runs]) (metis only_kern_statics)
  qed (use 1 in blast)
qed

lemma iter_test_runs:
  assumes "statics_ok release osreldate w" "10 < card (free_fds open_max (fdt (kern w)))"
    "reaches cfg open_max dirs_work FdIterBuilder_new (fdt (kern w))" "b_dirfd b1" "b_dirfd b2"
    and generic: "\<And>it w. iter_ok (dom (user_tab it w)) it w \<Longrightarrow> runs (generic it) w (\<lambda>_ w'. only_kern w w' \<and> fdt (kern w') = user_tab it w)"
  shows "runs (stmts [run_generic cfg os generic b1, run_generic cfg os generic b2,
      with_files os (stmts [run_generic cfg os generic b1, run_generic cfg os generic b2])]) w
    (\<lambda>_ w'. statics_ok release osreldate w' \<and> fdt (kern w') = fdt (kern w))"
proof -
  have two: "runs p w' (\<lambda>_ w''. statics_ok release osreldate w'' \<and> fdt (kern w'') = fdt (kern v))"
    if "p = run_generic cfg os generic b1 \<or> p = run_generic cfg os generic b2"
      "statics_ok release osreldate w' \<and> fdt (kern w') = fdt (kern v)" "reaches cfg open_max dirs_work FdIterBuilder_new (fdt (kern v))" for p w' v
    using that assms(4,5) run_generic_runs [OF _ _ _ generic, of w'] by auto
  have both: "runs (stmts [run_generic cfg os generic b1, run_generic cfg os generic b2]) w'
      (\<lambda>_ w''. statics_ok release osreldate w'' \<and> fdt (kern w'') = fdt (kern w'))"
    if "statics_ok release osreldate w'" "reaches cfg open_max dirs_work FdIterBuilder_new (fdt (kern w'))" for w'
    by (rule stmts_inv) (use two [OF _ _ that(2)] that(1) in auto)
  have files: "runs (with_files os (stmts [run_generic cfg os generic b1, run_generic cfg os generic b2])) w'
      (\<lambda>_ w''. statics_ok release osreldate w'' \<and> fdt (kern w'') = fdt (kern w))"
    if "statics_ok release osreldate w' \<and> fdt (kern w') = fdt (kern w)" for w'
  proof -
    have "runs (with_files os (stmts [run_generic cfg os generic b1, run_generic cfg os generic b2])) w'
        (\<lambda>_ w''. statics_ok release osreldate w'' \<and> fdt (kern w'') = fdt (kern w'))"
      by (rule with_files_runs [where b = FdIterBuilder_new]) (use that assms(2,3) both in \<open>simp_all del: stmts.simps\<close>)
    with that show ?thesis by simp
  qed
  show ?thesis
    by (rule stmts_inv) (use two files assms(1,3) in auto)
qed

lemma test_builders:
  "b_dirfd (threadsafe cfg t FdIterBuilder_new)" "b_dirfd (threadsafe cfg t (possible p FdIterBuilder_new))"
  by (simp_all add: threadsafe_def possible_def FdIterBuilder_new_def)

lemma size_hint_tests_runs:
  assumes "statics_ok release osreldate w" "10 < card (free_fds open_max (fdt (kern w)))"
    "reaches cfg open_max dirs_work FdIterBuilder_new (fdt (kern w))" "32 \<le> usize_bits cfg"
  shows "runs (test_size_hint_open cfg os) w (\<lambda>_ w'. statics_ok release osreldate w' \<and> fdt (kern w') = fdt (kern w))"
    "runs (test_size_hint_possible cfg os) w (\<lambda>_ w'. statics_ok release osreldate w' \<and> fdt (kern w') = fdt (kern w))"
  unfolding test_size_hint_open_def test_size_hint_possible_def
  by (rule iter_test_runs [OF assms(1-3) test_builders(1) test_builders(1) test_size_hint_generic_runs [OF _ assms(4)]]
    iter_test_runs [OF assms(1-3) test_builders(2) test_builders(2) test_size_hint_generic_runs [OF _ assms(4)]]; assumption)+

lemma fused_tests_runs:
  assumes "statics_ok release osreldate w" "10 < card (free_fds open_max (fdt (kern w)))"
    "reaches cfg open_max dirs_work FdIterBuilder_new (fdt (kern w))" "32 \<le> usize_bits cfg"
  shows "runs (test_fused_open cfg os) w (\<lambda>_ w'. statics_ok release osreldate w' \<and> fdt (kern w') = fdt (kern w))"
    "runs (test_fused_possible cfg os) w (\<lambda>_ w'. statics_ok release osreldate w' \<and> fdt (kern w') = fdt (kern w))"
  unfolding test_fused_open_def test_fused_possible_def
  by (rule iter_test_runs [OF assms(1-3) test_builders(1) test_builders(1) test_fused_generic_runs [OF _ assms(4)]]
    iter_test_runs [OF assms(1-3) test_builders(2) test_builders(2) test_fused_generic_runs [OF _ assms(4)]]; assumption)+

end

section \<open>Properties\<close>

text \<open>
  C25. The unit tests \<^verbatim>\<open>test_size_hint_open\<close> and \<^verbatim>\<open>test_size_hint_possible\<close> pass on every kernel that keeps the contract \<open>file_kernel\<close>:
  with and without \<^verbatim>\<open>threadsafe\<close>, before and after ten more files are opened, every \<^verbatim>\<open>size_hint\<close> along the iteration is
  consistent with the number of descriptors that follow, the lower bound of an exhausted iterator is zero, no addition
  overflows, and the descriptor table is as before.
\<close>

theorem size_hint_tests_pass:
  assumes "file_kernel cfg os fdt dirs open_max release osreldate dirs_work"
    and "statics_ok release osreldate w" "10 < card (free_fds open_max (fdt (kern w)))"
    and "reaches cfg open_max dirs_work FdIterBuilder_new (fdt (kern w))" "32 \<le> usize_bits cfg"
  shows "\<exists>w1 w2. test_size_hint_open cfg os w = Some (Inr ((), w1)) \<and> fdt (kern w1) = fdt (kern w) \<and>
    test_size_hint_possible cfg os w = Some (Inr ((), w2)) \<and> fdt (kern w2) = fdt (kern w)"
  using file_kernel.size_hint_tests_runs [OF assms] by (auto elim!: runsE)

text \<open>
  C26. The unit tests \<^verbatim>\<open>test_fused_open\<close> and \<^verbatim>\<open>test_fused_possible\<close> pass on every kernel that keeps the contract \<open>file_kernel\<close>: counting an
  iterator to its end returns, the next call gives \<open>None\<close>, and the descriptor table is as before.
\<close>

theorem fused_tests_pass:
  assumes "file_kernel cfg os fdt dirs open_max release osreldate dirs_work"
    and "statics_ok release osreldate w" "10 < card (free_fds open_max (fdt (kern w)))"
    and "reaches cfg open_max dirs_work FdIterBuilder_new (fdt (kern w))" "32 \<le> usize_bits cfg"
  shows "\<exists>w1 w2. test_fused_open cfg os w = Some (Inr ((), w1)) \<and> fdt (kern w1) = fdt (kern w) \<and>
    test_fused_possible cfg os w = Some (Inr ((), w2)) \<and> fdt (kern w2) = fdt (kern w)"
  using file_kernel.fused_tests_runs [OF assms] by (auto elim!: runsE)

end
