(* ===== verification/Command_Close.thy ===== *)
theory Command_Close
  imports Close_Fds File_Kernel
begin

text \<open>
  The example \<^verbatim>\<open>examples/command-close.rs\<close>: a program that opens three files, clears their close-on-exec flags and starts a
  command in which two of them stay open. Of the standard library it uses \<^verbatim>\<open>File::open\<close>, which opens with \<^verbatim>\<open>O_CLOEXEC\<close>,
  the closing of a file when it goes out of scope, and \<^verbatim>\<open>Command::status\<close>, which runs the \<^verbatim>\<open>pre_exec\<close> closure in a forked child and then
  executes the command.
\<close>

section \<open>Definitions\<close>

definition unset_cloexec :: "'k os \<Rightarrow> c_int \<Rightarrow> ('k world, unit) prog" where
  "unset_cloexec os fd =
     bnd (sys (os_fcntl_getfd os fd)) (\<lambda>flags.
     bnd (assert_m (flags \<ge> 0)) (\<lambda>_.
     if flags AND c_FD_CLOEXEC os \<noteq> 0
     then assert_eq_m (sys (os_fcntl_setfd os fd (flags AND NOT (c_FD_CLOEXEC os)))) 0
     else ret ()))"

definition File_open :: "'k os \<Rightarrow> string \<Rightarrow> ('k world, (c_int, unit) result) prog" where
  "File_open os path = bnd (sys (os_open os path [O_RDONLY, O_CLOEXEC])) (\<lambda>fd. ret (if fd < 0 then Err () else Ok fd))"

definition File_drop :: "'k os \<Rightarrow> c_int \<Rightarrow> ('k world, unit) prog" where
  "File_drop os fd = bnd (sys (os_close os fd)) (\<lambda>_. ret ())"

text \<open>The closure passed to \<^verbatim>\<open>pre_exec\<close>.\<close>

definition pre_exec_closure :: "config \<Rightarrow> 'k os \<Rightarrow> c_int list \<Rightarrow> ('k world, (unit, unit) result) prog" where
  "pre_exec_closure cfg os keep =
     bnd (if target cfg \<in> {Macos, Ios} then set_fds_cloexec cfg os 3 keep else close_open_fds cfg os 3 keep) (\<lambda>_.
     ret (Ok ()))"

text \<open>\<^verbatim>\<open>Command::status\<close>: the child works on a copy of the process, so the parent's world is unchanged. What the standard
  library does to the child before the closure runs is the parameter \<open>child\<close>. The result is the child's world at the call of
  \<^verbatim>\<open>exec()\<close>, or an error when the closure fails.\<close>

definition Command_status :: "('k \<Rightarrow> 'k) \<Rightarrow> ('k world, (unit, unit) result) prog \<Rightarrow> ('k world, ('k world, unit) result) prog" where
  "Command_status child pre_exec w = (case pre_exec (w\<lparr>kern := child (kern w)\<rparr>) of
     None \<Rightarrow> None
   | Some (Inl e) \<Rightarrow> Some (Inl e)
   | Some (Inr (r, wc)) \<Rightarrow> Some (Inr (case r of Ok _ \<Rightarrow> Ok wc | Err _ \<Rightarrow> Err (), w)))"

text \<open>\<^verbatim>\<open>exec()\<close> closes the descriptors whose close-on-exec flag is set.\<close>

definition exec_tab :: "c_int \<Rightarrow> fd_table \<Rightarrow> fd_table" where
  "exec_tab c T fd = (case T fd of None \<Rightarrow> None | Some fl \<Rightarrow> if fl AND c = 0 then Some fl else None)"

text \<open>\<^verbatim>\<open>main\<close>, which is made to return the three descriptors and the child.\<close>

definition command_close_main :: "config \<Rightarrow> 'k os \<Rightarrow> ('k \<Rightarrow> 'k) \<Rightarrow> ('k world, (c_int \<times> c_int \<times> c_int) \<times> 'k world) prog" where
  "command_close_main cfg os child =
     bnd (File_open os ''/'') (\<lambda>r. bnd (unwrap r) (\<lambda>f1.
     bnd (File_open os ''/'') (\<lambda>r. bnd (unwrap r) (\<lambda>f2.
     bnd (File_open os ''/'') (\<lambda>r. bnd (unwrap r) (\<lambda>f3.
     bnd (unset_cloexec os f1) (\<lambda>_.
     bnd (unset_cloexec os f2) (\<lambda>_.
     bnd (unset_cloexec os f3) (\<lambda>_.
     let keep = sort [f1, f3] in
     bnd (Command_status child (pre_exec_closure cfg os keep)) (\<lambda>r. bnd (unwrap r) (\<lambda>wc.
     bnd (File_drop os f3) (\<lambda>_.
     bnd (File_drop os f2) (\<lambda>_.
     bnd (File_drop os f1) (\<lambda>_.
     ret ((f1, f2, f3), wc)))))))))))))))"

text \<open>What \<^verbatim>\<open>fork()\<close> and the standard library promise of the child: it has the descriptors of the parent, and at most two
  more, for the pipe through which a failure of \<^verbatim>\<open>exec()\<close> is reported.\<close>

definition std_child :: "('k \<Rightarrow> fd_table) \<Rightarrow> int \<Rightarrow> ('k \<Rightarrow> 'k) \<Rightarrow> bool" where
  "std_child fdt open_max child \<longleftrightarrow>
     (\<forall>k. \<exists>X. fdt (child k) = fdt k ++ X \<and> dom X \<subseteq> free_fds open_max (fdt k) \<and> card (dom X) \<le> 2)"

section \<open>Proofs\<close>

text \<open>\<open>T'\<close> is \<open>T\<close> with the files \<open>fds\<close> opened.\<close>

definition opened :: "int \<Rightarrow> int list \<Rightarrow> fd_table \<Rightarrow> fd_table \<Rightarrow> bool" where
  "opened open_max fds T T' \<longleftrightarrow> distinct fds \<and> set fds \<subseteq> free_fds open_max T \<and> dom T' = dom T \<union> set fds \<and>
     (\<forall>fd. fd \<notin> set fds \<longrightarrow> T' fd = T fd)"

definition cleared :: "int \<Rightarrow> int set \<Rightarrow> fd_table \<Rightarrow> bool" where
  "cleared c S T \<longleftrightarrow> (\<forall>fd\<in>S. \<exists>fl. T fd = Some fl \<and> fl AND c = 0)"

text \<open>The child with the table \<open>T'\<close>: its descriptors from 3 on after \<^verbatim>\<open>exec()\<close> are the kept ones, and it has the parent's standard
  streams.\<close>

definition child_result :: "int \<Rightarrow> fd_table \<Rightarrow> int list \<Rightarrow> fd_table \<Rightarrow> bool" where
  "child_result c T keep T' \<longleftrightarrow> {fd. 3 \<le> fd \<and> exec_tab c T' fd \<noteq> None} = {fd \<in> set keep. 3 \<le> fd} \<and>
     (\<forall>fd < 3. T fd \<noteq> None \<longrightarrow> exec_tab c T' fd = exec_tab c T fd)"

lemma runs_File_drop [wp]: "runs (File_drop os fd) w Q \<longleftrightarrow> Q () (w\<lparr>kern := snd (os_close os fd (kern w))\<rparr>)"
  by (simp add: File_drop_def wp)

lemma runs_Command_status:
  assumes "runs pre_exec (w\<lparr>kern := child (kern w)\<rparr>) (\<lambda>r wc. r = Ok () \<and> P wc)"
  shows "runs (Command_status child pre_exec) w (\<lambda>r w'. w' = w \<and> (\<exists>wc. r = Ok wc \<and> P wc))"
  using assms by (auto simp: runs_def Command_status_def)

context file_kernel
begin

lemma File_open_runs:
  assumes "opened open_max fds T (fdt (kern w))" "length fds < card (free_fds open_max T)"
  shows "runs (bnd (File_open os ''/'') unwrap) w (\<lambda>fd w'. only_kern w w' \<and> opened open_max (fd # fds) T (fdt (kern w')))"
proof -
  have free: "free_fds open_max (fdt (kern w)) = free_fds open_max T - set fds"
    using assms(1) unfolding opened_def free_fds_def by auto
  have "card (set fds) < card (free_fds open_max T)" using assms(2) card_length [of fds] by linarith
  then have "0 < card (free_fds open_max (fdt (kern w)))" unfolding free
    using assms(1) by (subst card_Diff_subset) (auto simp: opened_def)
  note slot = free_has_slot [OF this] and low = free_lowest [OF this]
  show ?thesis unfolding File_open_def bnd_assoc
  proof (rule runs_bndI [OF open_root_runs [OF slot]], goal_cases)
    case (1 fd w1)
    then have fd: "fd \<in> free_fds open_max T - set fds" using low [of fd] free by blast
    from 1 obtain fl where "fdt (kern w1) = (fdt (kern w))(fd := Some fl)" by blast
    with fd assms(1) have "opened open_max (fd # fds) T (fdt (kern w1))" by (auto simp: opened_def)
    with 1 show ?case by (simp add: wp)
  qed
qed

lemma unset_cloexec_runs:
  assumes "fdt (kern w) fd \<noteq> None"
  shows "runs (unset_cloexec os fd) w (\<lambda>_ w'. only_kern w w' \<and>
    (\<exists>fl. fl AND c_FD_CLOEXEC os = 0 \<and> fdt (kern w') = (fdt (kern w))(fd := Some fl)))"
proof -
  let ?c = "c_FD_CLOEXEC os"
  from assms obtain fl where fl: "fdt (kern w) fd = Some fl" by blast
  then have "0 \<le> fl" by (rule fd_flags)
  show ?thesis
  proof (cases "fl AND ?c = 0")
    case True
    with fl \<open>0 \<le> fl\<close> show ?thesis
      by (auto simp: unset_cloexec_def wp getfd_ret getfd_fdt intro!: exI [of _ fl])
  next
    case False
    have "(fl AND NOT ?c) AND ?c = 0" "0 \<le> fl AND NOT ?c" using \<open>0 \<le> fl\<close> by (simp_all add: and.assoc)
    with False fl \<open>0 \<le> fl\<close> show ?thesis
      by (auto simp: unset_cloexec_def wp assert_eq_m_def getfd_ret getfd_fdt setfd_fdt setfd_ret)
  qed
qed

lemma unset_opened:
  assumes "opened open_max fds T (fdt (kern w))" "cleared (c_FD_CLOEXEC os) S (fdt (kern w))" "fd \<in> set fds"
  shows "runs (unset_cloexec os fd) w (\<lambda>_ w'. only_kern w w' \<and> opened open_max fds T (fdt (kern w')) \<and>
    cleared (c_FD_CLOEXEC os) (insert fd S) (fdt (kern w')))"
proof -
  have dom: "fd \<in> dom (fdt (kern w))" using assms(1,3) by (simp add: opened_def)
  then have "fdt (kern w) fd \<noteq> None" by blast
  then show ?thesis
  proof (rule runs_conseq [OF unset_cloexec_runs])
    fix u w' assume "only_kern w w' \<and> (\<exists>fl. fl AND c_FD_CLOEXEC os = 0 \<and> fdt (kern w') = (fdt (kern w))(fd := Some fl))"
    then obtain fl where w': "only_kern w w'" "fl AND c_FD_CLOEXEC os = 0" "fdt (kern w') = (fdt (kern w))(fd := Some fl)" by blast
    have "opened open_max fds T (fdt (kern w'))" using assms(1,3) dom unfolding opened_def w'(3) by (auto simp del: domIff)
    moreover have "cleared (c_FD_CLOEXEC os) (insert fd S) (fdt (kern w'))" using assms(2) w'(2) by (simp add: cleared_def w'(3))
    ultimately show "only_kern w w' \<and> opened open_max fds T (fdt (kern w')) \<and> cleared (c_FD_CLOEXEC os) (insert fd S) (fdt (kern w'))"
      using w'(1) by blast
  qed
qed

lemma exec_after:
  "exec_tab (c_FD_CLOEXEC os) (upd eff_close A T) fd = (if fd \<in> A then None else exec_tab (c_FD_CLOEXEC os) T fd)"
  "exec_tab (c_FD_CLOEXEC os) (upd (eff_cloexec (c_FD_CLOEXEC os)) A T) fd = (if fd \<in> A then None else exec_tab (c_FD_CLOEXEC os) T fd)"
  using cloexec_pos by (simp_all add: exec_tab_def upd_apply eff_cloexec_def or_and_absorb split: option.split)

lemma pre_exec_runs:
  assumes "statics_ok release osreldate w" "keep_arg cfg 3 keep" "reaches cfg open_max dirs_work FdIterBuilder_new (fdt (kern w))"
  shows "runs (pre_exec_closure cfg os keep) w (\<lambda>r w'. r = Ok () \<and> (\<forall>fd. exec_tab (c_FD_CLOEXEC os) (fdt (kern w')) fd =
    (if 3 \<le> fd \<and> fd \<notin> set keep then None else exec_tab (c_FD_CLOEXEC os) (fdt (kern w)) fd)))"
proof -
  have "runs (if target cfg \<in> {Macos, Ios} then set_fds_cloexec cfg os 3 keep else close_open_fds cfg os 3 keep) w
      (\<lambda>_ w'. \<forall>fd. exec_tab (c_FD_CLOEXEC os) (fdt (kern w')) fd =
        (if 3 \<le> fd \<and> fd \<notin> set keep then None else exec_tab (c_FD_CLOEXEC os) (fdt (kern w)) fd))"
    using set_fds_cloexec_runs [OF assms(1) _ assms(2,3), of set_fds_cloexec] close_open_fds_runs [OF assms(1) _ assms(2,3)]
    by (auto simp: exec_after simp del: eff_laws elim!: runs_conseq)
  then show ?thesis unfolding pre_exec_closure_def by (rule runs_bndI) (simp add: wp)
qed

lemma child_runs:
  assumes "statics_ok release osreldate w" "reaches cfg open_max dirs_work FdIterBuilder_new T" "std_child fdt open_max child"
    and op: "opened open_max fds T (fdt (kern w))" "length fds + 2 < card (free_fds open_max T)"
    and keep: "set keep \<subseteq> set fds" "cleared (c_FD_CLOEXEC os) (set fds) (fdt (kern w))"
  shows "runs (Command_status child (pre_exec_closure cfg os keep)) w (\<lambda>r w'. w' = w \<and> (\<exists>wc. r = Ok wc \<and> child_result (c_FD_CLOEXEC os) T keep (fdt (kern wc))))"
proof (rule runs_Command_status)
  let ?w = "w\<lparr>kern := child (kern w)\<rparr>" and ?c = "c_FD_CLOEXEC os"
  from assms(3) [unfolded std_child_def, THEN spec, of "kern w"] obtain X where X: "fdt (kern ?w) = fdt (kern w) ++ X" "dom X \<subseteq> free_fds open_max (fdt (kern w))" "card (dom X) \<le> 2"
    by auto
  have free: "free_fds open_max (fdt (kern w)) \<subseteq> free_fds open_max T" using op(1) unfolding opened_def free_fds_def by auto
  have same: "fdt (kern ?w) fd = fdt (kern w) fd" if "fdt (kern w) fd \<noteq> None" for fd
  proof -
    have "X fd = None" using that X(2) by (auto simp: free_fds_def)
    then show ?thesis unfolding X(1) by (simp add: map_add_def)
  qed
  have "statics_ok release osreldate ?w" using assms(1) by (simp add: statics_upd)
  moreover have "keep_arg cfg 3 keep"
  proof (intro keep_argI ballI)
    fix fd assume "fd \<in> set keep"
    then have "fd \<in> dom (fdt (kern w))" using keep(1) op(1) by (auto simp: opened_def)
    then show "in_i32 fd \<and> fd < i32_MAX" using fd_range by (force simp: in_i32_def)
  qed simp
  moreover have "reaches cfg open_max dirs_work FdIterBuilder_new (fdt (kern ?w))"
  proof (rule reaches_more [OF assms(2), where S = "set fds \<union> dom X"])
    show "dom (fdt (kern ?w)) \<subseteq> dom T \<union> (set fds \<union> dom X)" unfolding X(1) dom_map_add using op(1) by (auto simp: opened_def)
    show "set fds \<union> dom X \<subseteq> free_fds open_max T" using op(1) X(2) free by (auto simp: opened_def)
    show "card (set fds \<union> dom X) < card (free_fds open_max T)"
      using card_Un_le [of "set fds" "dom X"] card_length [of fds] X(3) op(2) by linarith
  qed
  ultimately show "runs (pre_exec_closure cfg os keep) ?w (\<lambda>r wc. r = Ok () \<and> child_result (c_FD_CLOEXEC os) T keep (fdt (kern wc)))"
  proof (rule runs_conseq [OF pre_exec_runs], intro conjI)
    fix r wc assume post: "r = Ok () \<and> (\<forall>fd. exec_tab ?c (fdt (kern wc)) fd =
      (if 3 \<le> fd \<and> fd \<notin> set keep then None else exec_tab ?c (fdt (kern ?w)) fd))"
    then show "r = Ok ()" by blast
    have kept: "exec_tab ?c (fdt (kern ?w)) fd \<noteq> None" if "fd \<in> set keep" for fd
    proof -
      have "fd \<in> set fds" using that keep(1) by (rule subsetD [rotated])
      then obtain fl where "fdt (kern w) fd = Some fl" "fl AND ?c = 0" using bspec [OF keep(2) [unfolded cleared_def]] by meson
      then show ?thesis using same [of fd] by (simp add: exec_tab_def)
    qed
    have std: "exec_tab ?c (fdt (kern ?w)) fd = exec_tab ?c T fd" if "T fd \<noteq> None" for fd
    proof -
      have "fd \<notin> set fds" using that op(1) by (auto simp: opened_def free_fds_def)
      then have "fdt (kern w) fd = T fd" using op(1) by (simp add: opened_def)
      then show ?thesis using same [of fd] that by (simp add: exec_tab_def)
    qed
    show "child_result ?c T keep (fdt (kern wc))" unfolding child_result_def
    proof (intro conjI allI impI set_eqI)
      show "fd \<in> {fd. 3 \<le> fd \<and> exec_tab ?c (fdt (kern wc)) fd \<noteq> None} \<longleftrightarrow> fd \<in> {fd \<in> set keep. 3 \<le> fd}" for fd
        using post kept [of fd] by simp metis
      show "exec_tab ?c (fdt (kern wc)) fd = exec_tab ?c T fd" if "fd < 3" "T fd \<noteq> None" for fd
        using post std [OF that(2)] that(1) by simp
    qed
  qed
qed

lemma drop_opened:
  assumes "opened open_max fds T (fdt (kern w))"
  shows "runs (stmts (map (File_drop os) fds)) w (\<lambda>_ w'. only_kern w w' \<and> fdt (kern w') = T)"
  using assms
proof (induction fds arbitrary: w)
  case Nil
  then have "fdt (kern w) = T" by (auto simp: opened_def)
  then show ?case by (simp add: wp)
next
  case (Cons fd fds)
  let ?w = "w\<lparr>kern := snd (os_close os fd (kern w))\<rparr>"
  have "fdt (kern ?w) = (fdt (kern w))(fd := None)" by (simp add: close_fdt)
  then have "opened open_max fds T (fdt (kern ?w))" using Cons.prems by (auto simp: opened_def free_fds_def)
  then have "runs (stmts (map (File_drop os) fds)) ?w (\<lambda>_ w'. only_kern ?w w' \<and> fdt (kern w') = T)" by (rule Cons.IH)
  moreover have "only_kern w ?w" by simp
  ultimately have "runs (stmts (map (File_drop os) fds)) ?w (\<lambda>_ w'. only_kern w w' \<and> fdt (kern w') = T)"
    by (elim runs_conseq) (blast intro: only_kern_trans)
  then show ?case by (simp add: wp)
qed

text \<open>The part of \<^verbatim>\<open>main\<close> after the files are opened.\<close>

lemma command_rest_runs:
  assumes "statics_ok release osreldate w" "reaches cfg open_max dirs_work FdIterBuilder_new T"
    "std_child fdt open_max child" "5 < card (free_fds open_max T)" "opened open_max [f3, f2, f1] T (fdt (kern w))"
    and keep: "set keep \<subseteq> set [f3, f2, f1]"
  shows "runs (bnd (unset_cloexec os f1) (\<lambda>_. bnd (unset_cloexec os f2) (\<lambda>_. bnd (unset_cloexec os f3) (\<lambda>_.
      bnd (Command_status child (pre_exec_closure cfg os keep)) (\<lambda>r. bnd (unwrap r) (\<lambda>wc.
      bnd (File_drop os f3) (\<lambda>_. bnd (File_drop os f2) (\<lambda>_. bnd (File_drop os f1) (\<lambda>_. ret ((f1, f2, f3), wc)))))))))) w
    (\<lambda>r w'. only_kern w w' \<and> fdt (kern w') = T \<and> fst r = (f1, f2, f3) \<and>
      child_result (c_FD_CLOEXEC os) T keep (fdt (kern (snd r))))"
proof -
  let ?o = "\<lambda>w'. only_kern w w' \<and> opened open_max [f3, f2, f1] T (fdt (kern w'))"
  have unset: "runs (unset_cloexec os fd) w' (\<lambda>_ w''. ?o w'' \<and> cleared (c_FD_CLOEXEC os) (insert fd S) (fdt (kern w'')))"
    if "?o w' \<and> cleared (c_FD_CLOEXEC os) S (fdt (kern w'))" "fd \<in> set [f3, f2, f1]" for fd w' S
    by (rule runs_conseq [OF unset_opened [where fds = "[f3, f2, f1]" and T = T and S = S]]) (use that in \<open>blast intro: only_kern_trans\<close>)+
  have start: "?o w \<and> cleared (c_FD_CLOEXEC os) {} (fdt (kern w))" using assms(5) by (simp add: cleared_def)
  show ?thesis
  proof (rule runs_bndI [OF unset [OF start, of f1]], simp, rule runs_bndI [OF unset [where fd = f2]], assumption, simp,
      rule runs_bndI [OF unset [where fd = f3]], assumption, simp, goal_cases)
    case (1 u1 w1 u2 w2 u3 w3)
    then have w3: "only_kern w w3" "opened open_max [f3, f2, f1] T (fdt (kern w3))" "cleared (c_FD_CLOEXEC os) (set [f3, f2, f1]) (fdt (kern w3))"
      by simp_all
    have st: "statics_ok release osreldate w3" using assms(1) only_kern_statics [OF w3(1)] by simp
    have len: "length [f3, f2, f1] + 2 < card (free_fds open_max T)" using assms(4) by simp
    show ?case
    proof (rule runs_bndI [OF child_runs [OF st assms(2,3) w3(2) len keep w3(3)]], goal_cases)
      case (1 r w4)
      then obtain wc where wc: "w4 = w3" "r = Ok wc" "child_result (c_FD_CLOEXEC os) T keep (fdt (kern wc))" by blast
      with drop_opened [OF w3(2)] w3(1) show ?case by (auto simp: wp dest: only_kern_trans)
    qed
  qed
qed

lemma command_close_runs:
  assumes "statics_ok release osreldate w" "reaches cfg open_max dirs_work FdIterBuilder_new (fdt (kern w))"
    "std_child fdt open_max child" "5 < card (free_fds open_max (fdt (kern w)))"
  shows "runs (command_close_main cfg os child) w (\<lambda>((f1, f2, f3), wc) w'. only_kern w w' \<and> fdt (kern w') = fdt (kern w) \<and>
    distinct [f1, f2, f3] \<and> {f1, f2, f3} \<subseteq> free_fds open_max (fdt (kern w)) \<and>
    child_result (c_FD_CLOEXEC os) (fdt (kern w)) [f1, f3] (fdt (kern wc)))"
proof -
  let ?T = "fdt (kern w)" and ?c = "c_FD_CLOEXEC os"
  have free: "length ([] :: int list) < card (free_fds open_max ?T)" "length [f1 :: int] < card (free_fds open_max ?T)"
    "length [f2, f1 :: int] < card (free_fds open_max ?T)" for f1 f2 using assms(4) by simp_all
  have start: "opened open_max [] ?T ?T" by (simp add: opened_def)
  show ?thesis unfolding command_close_main_def Let_def bnd_assoc [symmetric, of "File_open os ''/''" unwrap]
  proof (rule runs_bndI [OF File_open_runs [OF start free(1)]], elim conjE,
      rule runs_bndI [OF File_open_runs [OF _ free(2)]], assumption, elim conjE,
      rule runs_bndI [OF File_open_runs [OF _ free(3)]], assumption, elim conjE, goal_cases)
    case (1 f1 w1 f2 w2 f3 w3)
    then have w3: "only_kern w w3" using only_kern_trans by blast
    have st: "statics_ok release osreldate w3" using assms(1) only_kern_statics [OF w3] by simp
    have keep: "set (sort [f1, f3]) \<subseteq> set [f3, f2, f1]" by simp
    have "child_result ?c ?T (sort [f1, f3]) T' = child_result ?c ?T [f1, f3] T'" for T' unfolding child_result_def set_sort ..
    with 1(6) w3 show ?case
      by (intro runs_conseq [OF command_rest_runs [OF st assms(2-4) 1(6) keep]]) (auto simp: opened_def dest: only_kern_trans)
  qed
qed

end

section \<open>Properties\<close>

text \<open>
  C14. The example \<^verbatim>\<open>command-close\<close> does what it is meant to show, on every target: when six descriptor numbers are free it runs
  without a failed assertion; of the descriptors from 3 on, exactly the first and the third file are open in the command
  it starts, so the second file, everything the program had open before and the pipe of the standard library are not;
  the standard streams reach the command as if nothing had been done; and in the parent the descriptor table is as before.
\<close>

theorem command_close_survivors:
  assumes "file_kernel cfg os fdt dirs open_max release osreldate dirs_work"
    and "statics_ok release osreldate w" "reaches cfg open_max dirs_work FdIterBuilder_new (fdt (kern w))"
    and "std_child fdt open_max child" "5 < card (free_fds open_max (fdt (kern w)))"
  shows "\<exists>f1 f2 f3 wc w'. command_close_main cfg os child w = Some (Inr (((f1, f2, f3), wc), w')) \<and>
    fdt (kern w') = fdt (kern w) \<and> distinct [f1, f2, f3] \<and>
    (\<forall>fd\<ge>3. exec_tab (c_FD_CLOEXEC os) (fdt (kern wc)) fd \<noteq> None \<longleftrightarrow> fd = f1 \<or> fd = f3) \<and>
    (\<forall>fd<3. fdt (kern w) fd \<noteq> None \<longrightarrow>
       exec_tab (c_FD_CLOEXEC os) (fdt (kern wc)) fd = exec_tab (c_FD_CLOEXEC os) (fdt (kern w)) fd)"
proof -
  have "(\<forall>fd\<ge>3. exec_tab c T' fd \<noteq> None \<longleftrightarrow> fd = f1 \<or> fd = f3) \<and> (\<forall>fd<3. T fd \<noteq> None \<longrightarrow> exec_tab c T' fd = exec_tab c T fd)"
    if "child_result c T [f1, f3] T'" for c T f1 f3 T'
    using that unfolding child_result_def by (auto simp: set_eq_iff)
  with file_kernel.command_close_runs [OF assms] show ?thesis
    by (elim runsE) (simp split: prod.splits, blast)
qed

end
