(* ===== verification/Integration_Tests.thy ===== *)
theory Integration_Tests
  imports Iter_Tests Command_Close
begin

text \<open>
  Integration tests of \<^verbatim>\<open>tests/test_close_fds.rs\<close> as programs. \<^verbatim>\<open>run_no_fds_tests\<close> runs in a forked process the case where no
  descriptor at all is open; its exit code says which step failed. \<^verbatim>\<open>run_basic_test\<close> opens files around a callback:
  \<^verbatim>\<open>iter_open_fds_test\<close>, \<^verbatim>\<open>iter_possible_fds_test\<close>, \<^verbatim>\<open>close_fds_test\<close> and its variants with descriptors to keep. This theory shows that they
  pass on every kernel that keeps the contract \<open>file_kernel\<close>, except for \<^verbatim>\<open>iter_possible_fds_test\<close>, which is in \<open>Possible_Iter\<close>.
\<close>

section \<open>Definitions\<close>

text \<open>\<^verbatim>\<open>Iterator::count\<close>, which consumes the iterator.\<close>

definition FdIter_count :: "config \<Rightarrow> 'k os \<Rightarrow> FdIter \<Rightarrow> ('k world, usize) prog" where
  "FdIter_count cfg os fditer = bnd (count_by_ref cfg os fditer) (\<lambda>(n, it). bnd (FdIter_drop os it) (\<lambda>_. ret n))"

text \<open>The child of \<^verbatim>\<open>run_no_fds_tests\<close>. \<^verbatim>\<open>_exit\<close> drops nothing.\<close>

definition run_no_fds_child :: "config \<Rightarrow> 'k os \<Rightarrow> ('k world, c_int) prog" where
  "run_no_fds_child cfg os =
     bnd (close_open_fds cfg os 0 []) (\<lambda>_.
     bnd (iter_open_fds cfg os 0) (\<lambda>fditer.
     bnd (FdIter_next cfg os fditer) (\<lambda>(r, fditer).
     if r \<noteq> None then ret 1 else
     bnd (sys (os_open os ''/'' [O_RDONLY])) (\<lambda>fd.
     if fd < 0 then ret 2 else
     bnd (bnd (iter_open_fds cfg os 0) (\<lambda>it. bnd (FdIter_next cfg os it) (\<lambda>(r, it). bnd (FdIter_drop os it) (\<lambda>_. ret r)))) (\<lambda>r.
     if r \<noteq> Some 0 then ret 3 else
     bnd (FdIter_next cfg os fditer) (\<lambda>(r, fditer).
     if r \<noteq> None then ret 4 else
     bnd (FdIter_size_hint cfg fditer) (\<lambda>hint.
     if hint \<noteq> (0, Some 0) then ret 5 else
     bnd (FdIter_count cfg os fditer) (\<lambda>n.
     if n \<noteq> 0 then ret 6 else
     ret 0))))))))"

text \<open>The test itself, in the parent. The child works on a copy of the process, so that the parent's world is unchanged; a child that does
  not reach its \<^verbatim>\<open>_exit\<close> is a failure of the test. What \<^verbatim>\<open>fork()\<close> returns in the parent is the parameter \<open>pid\<close>, and \<open>waitpid code\<close> is what
  \<^verbatim>\<open>waitpid()\<close> says of a child that has exited with \<open>code\<close>: its return value and, if \<^verbatim>\<open>WIFEXITED\<close> holds of the status, the \<^verbatim>\<open>WEXITSTATUS\<close>.\<close>

definition run_no_fds_tests :: "config \<Rightarrow> 'k os \<Rightarrow> c_int \<Rightarrow> (c_int \<Rightarrow> c_int \<times> c_int option) \<Rightarrow> ('k world, unit) prog" where
  "run_no_fds_tests cfg os pid waitpid w =
     (if pid < 0 then fail Panic w
      else (case run_no_fds_child cfg os w of
         None \<Rightarrow> None
       | Some (Inl e) \<Rightarrow> Some (Inl e)
       | Some (Inr (code, _)) \<Rightarrow> (case waitpid code of (r, exited) \<Rightarrow>
           if r < 0 then fail Panic w
           else bnd (assert_m (exited \<noteq> None)) (\<lambda>_. assert_m (exited = Some 0)) w)))"

text \<open>The helpers of the other tests.\<close>

definition is_fd_open :: "'k os \<Rightarrow> c_int \<Rightarrow> ('k world, bool) prog" where
  "is_fd_open os fd = bnd (sys (os_fcntl_getfd os fd)) (\<lambda>r. ret (r \<ge> 0))"

fun check_sorted_loop :: "c_int option \<Rightarrow> c_int list \<Rightarrow> ('s, unit) prog" where
  "check_sorted_loop last_item [] = ret ()"
| "check_sorted_loop last_item (item # items) =
     bnd (case last_item of Some last_item \<Rightarrow> assert_m (last_item \<le> item) | None \<Rightarrow> ret ()) (\<lambda>_.
     check_sorted_loop (Some item) items)"

definition check_sorted :: "c_int list \<Rightarrow> ('s, unit) prog" where
  "check_sorted items = check_sorted_loop None items"

definition run_basic_test ::
  "'k os \<Rightarrow> (c_int \<Rightarrow> c_int \<Rightarrow> c_int \<Rightarrow> CloseFdsBuilder \<Rightarrow> ('k world, unit) prog) \<Rightarrow> CloseFdsBuilder \<Rightarrow> ('k world, unit) prog" where
  "run_basic_test os callback builder =
     bnd (bnd (File_open os ''/'') unwrap) (\<lambda>fd1.
     bnd (bnd (File_open os ''/'') unwrap) (\<lambda>fd2.
     bnd (bnd (File_open os ''/'') unwrap) (\<lambda>fd3.
     bnd (File_drop os fd3) (\<lambda>_.
     bnd (assert_eq_m (is_fd_open os fd1) True) (\<lambda>_.
     bnd (assert_eq_m (is_fd_open os fd2) True) (\<lambda>_.
     bnd (assert_eq_m (is_fd_open os fd3) False) (\<lambda>_.
     bnd (callback fd1 fd2 fd3 builder) (\<lambda>_.
     bnd (File_drop os fd2) (\<lambda>_.
     File_drop os fd1)))))))))"

text \<open>What the tests do with an iterator: collect it, check that the list is sorted, and assert of some descriptors that they are in
  the list, or that they are not.\<close>

definition expect_fds :: "config \<Rightarrow> 'k os \<Rightarrow> ('k world, FdIter) prog \<Rightarrow> (c_int \<times> bool) list \<Rightarrow> ('k world, c_int list) prog" where
  "expect_fds cfg os it exps =
     bnd (bnd it (FdIter_collect cfg os)) (\<lambda>fds.
     bnd (check_sorted fds) (\<lambda>_.
     bnd (stmts (map (\<lambda>(fd, b). assert_m ((fd \<in> set fds) = b)) exps)) (\<lambda>_.
     ret fds)))"

definition expect_fds_only :: "config \<Rightarrow> 'k os \<Rightarrow> ('k world, FdIter) prog \<Rightarrow> (c_int \<times> bool) list \<Rightarrow> ('k world, unit) prog" where
  "expect_fds_only cfg os it exps = bnd (expect_fds cfg os it exps) (\<lambda>_. ret ())"

text \<open>The body of the loops in \<^verbatim>\<open>iter_open_fds_test\<close> and \<^verbatim>\<open>iter_possible_fds_test\<close>: an iterator from \<open>-1\<close> on, its \<^verbatim>\<open>min\<close>, \<^verbatim>\<open>max\<close> and \<^verbatim>\<open>count\<close>, and
  iterators from other descriptors on. The two tests differ in what they expect.\<close>

definition fds_round :: "config \<Rightarrow> 'k os \<Rightarrow> FdIterBuilder \<Rightarrow> (c_int \<times> bool) list \<Rightarrow> (c_int \<times> (c_int \<times> bool) list) list \<Rightarrow> ('k world, unit) prog" where
  "fds_round cfg os builder exps from_exps =
     bnd (expect_fds cfg os (iter_from cfg os builder (- 1)) exps) (\<lambda>fds.
     stmts ([
       assert_eq_m (bnd (iter_from cfg os builder (- 1)) (FdIter_min cfg os)) (Some 0),
       assert_eq_m (bnd (iter_from cfg os builder (- 1)) (FdIter_max cfg os)) (if fds = [] then None else Some (last fds)),
       assert_eq_m (bnd (iter_from cfg os builder (- 1)) (FdIter_count cfg os)) (length fds)] @
       map (\<lambda>(minfd, exps). expect_fds_only cfg os (iter_from cfg os builder minfd) exps) from_exps))"

definition iter_open_fds_round :: "config \<Rightarrow> 'k os \<Rightarrow> FdIterBuilder \<Rightarrow> c_int \<Rightarrow> c_int \<Rightarrow> c_int \<Rightarrow> ('k world, unit) prog" where
  "iter_open_fds_round cfg os builder fd1 fd2 fd3 =
     fds_round cfg os builder [(- 1, False), (0, True), (fd1, True), (fd2, True), (fd3, False)]
       [(0, [(0, True), (fd1, True), (fd2, True), (fd3, False)]),
        (fd1, [(0, False), (fd1, True), (fd2, True), (fd3, False)]),
        (fd2, [(0, False), (fd1, False), (fd2, True), (fd3, False)]),
        (fd3, [(0, False), (fd1, False), (fd2, False), (fd3, False)])]"

definition iter_possible_fds_round :: "config \<Rightarrow> 'k os \<Rightarrow> FdIterBuilder \<Rightarrow> c_int \<Rightarrow> c_int \<Rightarrow> c_int \<Rightarrow> ('k world, unit) prog" where
  "iter_possible_fds_round cfg os builder fd1 fd2 fd3 =
     fds_round cfg os builder [(- 1, False), (0, True), (fd1, True), (fd2, True)]
       [(0, [(0, True), (fd1, True), (fd2, True)]),
        (fd1, [(0, False), (fd1, True), (fd2, True)]),
        (fd2, [(0, False), (fd1, False), (fd2, True)]),
        (fd3, [(0, False), (fd1, False), (fd2, False)])]"

definition iter_open_fds_test :: "config \<Rightarrow> 'k os \<Rightarrow> c_int \<Rightarrow> c_int \<Rightarrow> c_int \<Rightarrow> CloseFdsBuilder \<Rightarrow> ('k world, unit) prog" where
  "iter_open_fds_test cfg os fd1 fd2 fd3 builder =
     stmts (map (\<lambda>(fs, ts). iter_open_fds_round cfg os (threadsafe cfg ts (allow_filesystem cfg fs FdIterBuilder_new)) fd1 fd2 fd3)
       [(True, True), (True, False), (False, True), (False, False)])"

definition iter_possible_fds_test :: "config \<Rightarrow> 'k os \<Rightarrow> c_int \<Rightarrow> c_int \<Rightarrow> c_int \<Rightarrow> CloseFdsBuilder \<Rightarrow> ('k world, unit) prog" where
  "iter_possible_fds_test cfg os fd1 fd2 fd3 builder =
     stmts (map (\<lambda>(fs, ts). iter_possible_fds_round cfg os (possible True (threadsafe cfg ts (allow_filesystem cfg fs FdIterBuilder_new))) fd1 fd2 fd3)
       [(True, True), (True, False), (False, True), (False, False)])"

text \<open>The four tests that close descriptors differ in what is kept and in what is expected of \<^verbatim>\<open>fd1\<close> and \<^verbatim>\<open>fd2\<close> afterwards.\<close>

definition closing_test :: "config \<Rightarrow> 'k os \<Rightarrow> c_int \<Rightarrow> c_int \<Rightarrow> c_int \<Rightarrow> ('k world, CloseFdsBuilder) prog \<Rightarrow> bool \<Rightarrow> bool \<Rightarrow> ('k world, unit) prog" where
  "closing_test cfg os fd1 fd2 fd3 keeping kept1 kept2 =
     bnd (expect_fds cfg os (iter_open_fds cfg os fd1) [(fd1, True), (fd2, True), (fd3, False)]) (\<lambda>_.
     bnd keeping (\<lambda>builder.
     bnd (closefrom cfg os builder fd1) (\<lambda>_.
     expect_fds_only cfg os (iter_open_fds cfg os fd1) [(fd1, kept1), (fd2, kept2), (fd3, False)])))"

definition close_fds_test :: "config \<Rightarrow> 'k os \<Rightarrow> c_int \<Rightarrow> c_int \<Rightarrow> c_int \<Rightarrow> CloseFdsBuilder \<Rightarrow> ('k world, unit) prog" where
  "close_fds_test cfg os fd1 fd2 fd3 builder = closing_test cfg os fd1 fd2 fd3 (keep_fds cfg [0] builder) False False"

definition close_fds_keep1_test :: "config \<Rightarrow> 'k os \<Rightarrow> c_int \<Rightarrow> c_int \<Rightarrow> c_int \<Rightarrow> CloseFdsBuilder \<Rightarrow> ('k world, unit) prog" where
  "close_fds_keep1_test cfg os fd1 fd2 fd3 builder = closing_test cfg os fd1 fd2 fd3 (keep_fds cfg [fd1, fd3] builder) True False"

definition close_fds_keep2_test :: "config \<Rightarrow> 'k os \<Rightarrow> c_int \<Rightarrow> c_int \<Rightarrow> c_int \<Rightarrow> CloseFdsBuilder \<Rightarrow> ('k world, unit) prog" where
  "close_fds_keep2_test cfg os fd1 fd2 fd3 builder = closing_test cfg os fd1 fd2 fd3 (keep_fds cfg [fd2, fd3] builder) False True"

definition close_fds_keep3_test :: "config \<Rightarrow> 'k os \<Rightarrow> c_int \<Rightarrow> c_int \<Rightarrow> c_int \<Rightarrow> CloseFdsBuilder \<Rightarrow> ('k world, unit) prog" where
  "close_fds_keep3_test cfg os fd1 fd2 fd3 builder = closing_test cfg os fd1 fd2 fd3 (ret (keep_fds_sorted [fd2] builder)) False True"

section \<open>No descriptors\<close>

context fd_kernel
begin

lemma next_nothing:
  assumes "iter_ok (dom (user_tab it w)) it w" "\<not> fi_possible it" "user_tab it w = Map.empty"
  shows "runs (FdIter_next cfg os it) w (\<lambda>(r, it') w'. r = None \<and> only_kern w w' \<and> exhausted it' \<and> iter_ok {} it' w' \<and>
    fdt (kern w') = Map.empty)"
proof (rule runsE [OF FdIter_next_runs [OF assms(1)]], goal_cases)
  case (1 x w')
  obtain r it' where x: "x = (r, it')" by fastforce
  with 1 assms have p: "only_kern w w'" "iter_ok {} it' w'" "user_tab it' w' = Map.empty" "next_post {} {} it r it'" by auto
  from p(4) assms(2) have r: "r = None" by (cases r) (auto simp: next_post_def)
  with 1 x have "exhausted it'" by (intro next_None_exhausted) simp
  moreover from this p(3) have "fdt (kern w') = Map.empty" by (simp add: utab_def exhausted_priv)
  ultimately show ?case using 1 x r p by (simp add: runs_def)
qed

lemma count_exhausted: "exhausted it \<Longrightarrow> FdIter_count cfg os it w = Some (Inr (0, w))"
proof -
  assume e: "exhausted it"
  then have "FdIter_drop os it w = Some (Inr ((), w))"
    by (auto simp: exhausted_def FdIter_drop_def DirFdIter_drop_def ret_def split: option.splits)
  moreover have "count_by_ref cfg os it w = Some (Inr ((0, it), w))" unfolding count_by_ref_def
    by (intro loop_m_Break) (simp add: bnd_def exhausted_next [OF e] ret_def)
  ultimately show ?thesis by (simp add: FdIter_count_def bnd_def ret_def)
qed

end

context file_kernel
begin

lemma only_zero:
  assumes "statics_ok release osreldate w" "fdt (kern w) = [0 \<mapsto> fl]"
  shows "runs (bnd (iter_open_fds cfg os 0) (\<lambda>it. bnd (FdIter_next cfg os it) (\<lambda>(r, it). bnd (FdIter_drop os it) (\<lambda>_. ret r)))) w
    (\<lambda>r w'. r = Some 0)"
proof -
  have reach: "reaches cfg open_max dirs_work FdIterBuilder_new (fdt (kern w))" by (auto simp: assms(2) reaches_def scan_max_def less_max_iff_disj)
  show ?thesis unfolding iter_open_fds_def
  proof (rule runs_bndI [OF iter_from_runs [OF assms(1) _ reach]], goal_cases)
    case (2 it w1)
    then have it: "iter_ok (dom (user_tab it w1)) it w1" "user_tab it w1 = [0 \<mapsto> fl]" "fi_curfd it = 0" "\<not> fi_possible it"
      using assms(2) by (auto simp: FdIterBuilder_new_def)
    show ?case
    proof (rule runs_bndI [OF FdIter_next_runs [OF it(1)]], goal_cases)
      case (1 x w2)
      obtain r it2 where x: "x = (r, it2)" by fastforce
      with 1 it(2) have "next_post {0} {0} it r it2" by simp
      with it(3,4) have "r = Some 0" by (cases r) (auto simp: next_post_def)
      with x show ?case by (auto simp: wp intro!: runs_conseq [OF FdIter_drop_runs])
    qed
  qed simp
qed

lemma run_no_fds_runs:
  assumes "statics_ok release osreldate w" "reaches cfg open_max dirs_work FdIterBuilder_new (fdt (kern w))" "0 < open_max"
    "32 \<le> usize_bits cfg"
  shows "runs (run_no_fds_child cfg os) w (\<lambda>r w'. r = 0)"
proof -
  have keep: "keep_arg cfg 0 []" by (rule keep_argI) simp_all
  have late: "runs (bnd (FdIter_next cfg os it) (\<lambda>(r, fditer).
     if r \<noteq> None then ret 4 else
     bnd (FdIter_size_hint cfg fditer) (\<lambda>hint.
     if hint \<noteq> (0, Some 0) then ret 5 else
     bnd (FdIter_count cfg os fditer) (\<lambda>n.
     if n \<noteq> 0 then ret 6 else ret 0)))) w4 (\<lambda>r w'. r = 0)" if "exhausted it" "iter_ok {} it w2" for it w2 w4
    by (simp add: runs_def bnd_def exhausted_next [OF that(1)] size_hint_exhausted [OF that assms(4)] count_exhausted [OF that(1)] ret_def)
  have root: "runs (bnd (sys (os_open os ''/'' [O_RDONLY])) (\<lambda>fd. if fd < 0 then ret 2 else
      bnd (bnd (iter_open_fds cfg os 0) (\<lambda>it. bnd (FdIter_next cfg os it) (\<lambda>(r, it). bnd (FdIter_drop os it) (\<lambda>_. ret r)))) (\<lambda>r.
      if r \<noteq> Some 0 then ret 3 else p))) w2 (\<lambda>r w'. r = 0)"
    if w2: "statics_ok release osreldate w2" "fdt (kern w2) = Map.empty" and p: "\<And>w4. runs p w4 (\<lambda>r w'. r = 0)" for w2 p
  proof -
    have "has_slot open_max (fdt (kern w2))" using assms(3) by (auto simp: has_slot_def w2(2) intro!: exI [of _ 0])
    then show ?thesis
    proof (rule runs_bndI [OF open_root_runs], goal_cases)
      case (1 fd w3)
      then obtain fl where fd: "fd = 0" "fdt (kern w3) = [0 \<mapsto> fl]" "statics_ok release osreldate w3"
        using w2 only_kern_statics [of w2 w3] by (metis not_less_iff_gr_or_eq order_le_less order_refl)
      show ?case unfolding fd(1) by (simp, rule runs_bndI [OF only_zero [OF fd(3,2)]]) (simp add: p)
    qed
  qed
  have iter: "runs (bnd (iter_open_fds cfg os 0) (\<lambda>fditer. bnd (FdIter_next cfg os fditer) (\<lambda>(r, fditer). if r \<noteq> None then ret 1 else q fditer))) w1
      (\<lambda>r w'. r = 0)"
    if w1: "statics_ok release osreldate w1" "fdt (kern w1) = Map.empty"
      and q: "\<And>it w2. exhausted it \<Longrightarrow> iter_ok {} it w2 \<Longrightarrow> statics_ok release osreldate w2 \<Longrightarrow> fdt (kern w2) = Map.empty \<Longrightarrow> runs (q it) w2 (\<lambda>r w'. r = 0)"
    for w1 q
  proof -
    have "reaches cfg open_max dirs_work FdIterBuilder_new (fdt (kern w1))" by (simp add: w1(2) reaches_def)
    note run = iter_from_runs [OF w1(1) _ this, of 0]
    show ?thesis unfolding iter_open_fds_def
    proof (rule runs_bndI [OF run], goal_cases)
      case (2 it w2)
      then have it: "iter_ok (dom (user_tab it w2)) it w2" "\<not> fi_possible it" "user_tab it w2 = Map.empty" "statics_ok release osreldate w2"
        using w1(2) by (auto simp: FdIterBuilder_new_def)
      show ?case
      proof (rule runs_bndI [OF next_nothing [OF it(1-3)]], goal_cases)
        case (1 x w3)
        obtain r it3 where x: "x = (r, it3)" by fastforce
        from 1 have p: "r = None" "only_kern w2 w3" "exhausted it3" "iter_ok {} it3 w3" "fdt (kern w3) = Map.empty"
          unfolding x prod.case by blast+
        with it(4) have "statics_ok release osreldate w3" by (simp add: only_kern_statics [of w2 w3])
        from q [OF p(3,4) this p(5)] show ?case by (simp add: x p(1))
      qed
    qed simp
  qed
  show ?thesis unfolding run_no_fds_child_def
  proof (rule runs_bndI [OF close_open_fds_runs [OF assms(1) _ keep assms(2)]], goal_cases)
    case (2 u w1)
    have empty: "fdt (kern w1) = Map.empty"
    proof
      fix fd show "fdt (kern w1) fd = None" using 2 fd_range [of "kern w" fd] by (cases "fdt (kern w) fd") (auto simp: upd_apply)
    qed
    show ?case
    proof (rule iter [OF _ empty], goal_cases)
      case (2 it w2)
      show ?case by (rule root [OF 2(3,4)]) (rule late [OF 2(1,2)])
    qed (use 2 in blast)
  qed simp
qed

end

section \<open>The basic tests\<close>

lemma check_sorted_loop_ok:
  "sorted items \<Longrightarrow> \<forall>l x. last_item = Some l \<longrightarrow> x \<in> set items \<longrightarrow> l \<le> x \<Longrightarrow> check_sorted_loop last_item items = ret ()"
  by (induction items arbitrary: last_item) (auto simp: assert_m_def split: option.splits)

lemma check_sorted_ok: "sorted items \<Longrightarrow> check_sorted items = ret ()"
  by (simp add: check_sorted_def check_sorted_loop_ok)

lemma asserts_ok: "\<forall>(fd, b)\<in>set exps. (fd \<in> S) = b \<Longrightarrow> stmts (map (\<lambda>(fd, b). assert_m ((fd \<in> S) = b)) exps) = ret ()"
  by (induction exps) (auto simp: assert_m_def)

lemma assert_eq_runs: "runs p w (\<lambda>r w'. r = v \<and> Q w') \<Longrightarrow> runs (assert_eq_m p v) w (\<lambda>_. Q)"
  unfolding assert_eq_m_def by (rule runs_bndI) (simp_all add: wp)

text \<open>The lowest free descriptor, which \<^verbatim>\<open>open\<close> returns.\<close>

definition lowest :: "fd_table \<Rightarrow> int \<Rightarrow> bool" where
  "lowest T fd \<longleftrightarrow> 0 \<le> fd \<and> T fd = None \<and> (\<forall>d. 0 \<le> d \<and> d < fd \<longrightarrow> T d \<noteq> None)"

lemma lowest_next: "lowest T a \<Longrightarrow> lowest (T(a := Some x)) b \<Longrightarrow> a < b"
  by (metis fun_upd_apply linorder_neqE lowest_def option.distinct(1))

text \<open>The descriptors in the callback of \<^verbatim>\<open>run_basic_test\<close>, and tables that a scan covers.\<close>

definition three_files :: "int \<Rightarrow> int \<Rightarrow> int \<Rightarrow> fd_table \<Rightarrow> bool" where
  "three_files fd1 fd2 fd3 T \<longleftrightarrow> 0 < fd1 \<and> fd1 < fd2 \<and> fd2 < fd3 \<and> fd3 < i32_MAX \<and>
     T 0 \<noteq> None \<and> T fd1 \<noteq> None \<and> T fd2 \<noteq> None \<and> T fd3 = None"

definition scanned :: "int \<Rightarrow> fd_table \<Rightarrow> bool" where
  "scanned open_max T \<longleftrightarrow> (\<forall>fd. T fd \<noteq> None \<longrightarrow> fd \<le> scan_max open_max)"

lemma scanned_reaches: "scanned open_max T \<Longrightarrow> reaches cfg open_max dirs_work b T"
  by (simp add: scanned_def reaches_def)

lemma free_scanned: "fd \<in> free_fds open_max T \<Longrightarrow> scanned open_max T \<Longrightarrow> scanned open_max (T(fd := Some x))"
  by (auto simp: scanned_def free_fds_def scan_max_def)

text \<open>What it means that the iterators of a builder \<open>b\<close> deliver the descriptors of a table \<open>P\<close>, in any world in \<open>I\<close>.\<close>

definition first_of :: "'a list \<Rightarrow> 'a option" where
  "first_of l = (if l = [] then None else Some (hd l))"

definition last_of :: "'a list \<Rightarrow> 'a option" where
  "last_of l = (if l = [] then None else Some (last l))"

definition yields :: "config \<Rightarrow> 'k os \<Rightarrow> FdIterBuilder \<Rightarrow> ('k world \<Rightarrow> bool) \<Rightarrow> fd_table \<Rightarrow> bool" where
  "yields cfg os b I P \<longleftrightarrow> (\<forall>w m. I w \<longrightarrow> m \<le> i32_MAX \<longrightarrow>
     runs (bnd (iter_from cfg os b m) (FdIter_collect cfg os)) w (\<lambda>r w'. r = open_from P (max m 0) \<and> I w') \<and>
     runs (bnd (iter_from cfg os b m) (FdIter_min cfg os)) w (\<lambda>r w'. r = first_of (open_from P (max m 0)) \<and> I w') \<and>
     runs (bnd (iter_from cfg os b m) (FdIter_max cfg os)) w (\<lambda>r w'. r = last_of (open_from P (max m 0)) \<and> I w') \<and>
     runs (bnd (iter_from cfg os b m) (FdIter_count cfg os)) w (\<lambda>r w'. r = length (open_from P (max m 0)) \<and> I w'))"

lemma yields_expect:
  fixes os :: "'k os"
  assumes "yields cfg os b I P" "I w" "m \<le> i32_MAX" "finite (dom P)" "\<forall>(fd, e)\<in>set exps. (P fd \<noteq> None \<and> max m 0 \<le> fd) = e"
  shows "runs (expect_fds cfg os (iter_from cfg os b m) exps) w (\<lambda>fds w'. fds = open_from P (max m 0) \<and> I w')"
proof -
  have "finite {fd. P fd \<noteq> None \<and> max m 0 \<le> fd}" by (rule finite_subset [OF _ assms(4)]) auto
  then have "\<forall>(fd, e)\<in>set exps. (fd \<in> set (open_from P (max m 0))) = e" using assms(5) by (simp add: open_from_def)
  note ok = asserts_ok [OF this]
  have sorted: "check_sorted (open_from P (max m 0)) = (ret () :: ('k world, unit) prog)" by (rule check_sorted_ok) (simp add: open_from_def)
  have run: "runs (bnd (iter_from cfg os b m) (FdIter_collect cfg os)) w (\<lambda>r w'. r = open_from P (max m 0) \<and> I w')"
    using assms(1-3) by (simp add: yields_def)
  show ?thesis unfolding expect_fds_def
  proof (rule runs_bndI [OF run], goal_cases)
    case (1 fds w')
    then have fds: "fds = open_from P (max m 0)" and "I w'" by blast+
    then show ?case unfolding fds sorted ok bnd_ret by (simp add: wp)
  qed
qed

lemma yields_round:
  fixes os :: "'k os"
  assumes y: "yields cfg os b I P" and I: "I w" and P: "dom P \<subseteq> {0..i32_MAX}" "P 0 \<noteq> None"
    and exps: "\<forall>(fd, e)\<in>set exps. (P fd \<noteq> None \<and> 0 \<le> fd) = e"
    and from_exps: "\<forall>(m, exps)\<in>set from_exps. m \<le> i32_MAX \<and> (\<forall>(fd, e)\<in>set exps. (P fd \<noteq> None \<and> max m 0 \<le> fd) = e)"
  shows "runs (fds_round cfg os b exps from_exps) w (\<lambda>_. I)"
proof -
  let ?l = "open_from P 0"
  have fin: "finite (dom P)" by (rule finite_subset [OF P(1)]) simp
  then have set_l: "set ?l = {fd. P fd \<noteq> None \<and> 0 \<le> fd}" unfolding open_from_def
    by (intro set_sorted_list_of_set finite_subset [OF _ fin]) auto
  then have "0 \<in> set ?l" "\<forall>x\<in>set ?l. 0 \<le> x" using P(2) by simp_all
  moreover have "sorted ?l" by (simp add: open_from_def)
  ultimately have first: "first_of ?l = Some 0" by (cases ?l; fastforce simp: first_of_def)
  have at_0: "runs (bnd (iter_from cfg os b (- 1)) (FdIter_min cfg os)) w' (\<lambda>r w'. r = Some 0 \<and> I w')"
    "runs (bnd (iter_from cfg os b (- 1)) (FdIter_max cfg os)) w' (\<lambda>r w'. r = last_of ?l \<and> I w')"
    "runs (bnd (iter_from cfg os b (- 1)) (FdIter_count cfg os)) w' (\<lambda>r w'. r = length ?l \<and> I w')" if "I w'" for w'
    using y [unfolded yields_def, rule_format, OF that, of "- 1"] by (simp_all add: first)
  have only: "runs (expect_fds_only cfg os (iter_from cfg os b m) es) w' (\<lambda>_. I)" if "(m, es) \<in> set from_exps" "I w'" for m es w'
  proof -
    have "m \<le> i32_MAX" "\<forall>(fd, e)\<in>set es. (P fd \<noteq> None \<and> max m 0 \<le> fd) = e" using bspec [OF from_exps that(1)] by blast+
    note run = yields_expect [OF y that(2) this(1) fin this(2)]
    show ?thesis unfolding expect_fds_only_def by (rule runs_bndI [OF run]) (simp add: wp)
  qed
  have "runs (expect_fds cfg os (iter_from cfg os b (- 1)) exps) w (\<lambda>fds w'. fds = ?l \<and> I w')"
    using yields_expect [OF y I _ fin, of "- 1"] exps by simp
  then show ?thesis unfolding fds_round_def
  proof (rule runs_bndI, goal_cases)
    case (1 fds w1)
    then have fds: "fds = ?l" "I w1" by blast+
    show ?case unfolding fds(1) last_of_def [symmetric]
    proof (rule stmts_inv [where I = I, OF _ fds(2)], goal_cases)
      case (1 p w2)
      from 1(1) consider "p \<in> {assert_eq_m (bnd (iter_from cfg os b (- 1)) (FdIter_min cfg os)) (Some 0),
          assert_eq_m (bnd (iter_from cfg os b (- 1)) (FdIter_max cfg os)) (last_of ?l),
          assert_eq_m (bnd (iter_from cfg os b (- 1)) (FdIter_count cfg os)) (length ?l)}"
        | m es where "(m, es) \<in> set from_exps" "p = expect_fds_only cfg os (iter_from cfg os b m) es" by force
      then show ?case by cases (use at_0 [OF 1(2)] only [OF _ 1(2)] in \<open>auto intro: assert_eq_runs\<close>)
    qed
  qed
qed

context fd_kernel
begin

abbreviation at :: "fd_table \<Rightarrow> 'k world \<Rightarrow> bool" where
  "at T w \<equiv> statics_ok release osreldate w \<and> fdt (kern w) = T"

lemma set_open_from: "set (open_from (fdt k) m) = {fd. fdt k fd \<noteq> None \<and> m \<le> fd}"
proof -
  have "finite {fd. fdt k fd \<noteq> None \<and> m \<le> fd}" by (rule finite_subset [OF _ finite_fds [of k]]) auto
  then show ?thesis by (simp add: open_from_def)
qed

lemma expect_runs:
  assumes "statics_ok release osreldate w" "m \<le> i32_MAX" "scanned open_max (fdt (kern w))" "\<not> b_possible b"
    "\<forall>(fd, e)\<in>set exps. (fdt (kern w) fd \<noteq> None \<and> m \<le> fd) = e"
  shows "runs (expect_fds cfg os (iter_from cfg os b m) exps) w
    (\<lambda>fds w'. statics_ok release osreldate w' \<and> fdt (kern w') = fdt (kern w) \<and> fds = open_from (fdt (kern w)) m)"
  unfolding expect_fds_def
proof (rule runs_bndI [OF collect_iter_from [OF assms(1,2) scanned_reaches [OF assms(3)]]], goal_cases)
  case (1 fds w')
  with assms(4) have fds: "fds = open_from (fdt (kern w)) m" by blast
  have "check_sorted fds = (ret () :: ('k world, unit) prog)" unfolding fds by (rule check_sorted_ok) (simp add: open_from_def)
  moreover have "stmts (map (\<lambda>(fd, b). assert_m ((fd \<in> set fds) = b)) exps) = (ret () :: ('k world, unit) prog)"
    by (rule asserts_ok) (use assms(5) in \<open>simp add: fds set_open_from\<close>)
  ultimately show ?case using 1 fds by (simp add: wp)
qed

lemma expect_only_runs:
  assumes "statics_ok release osreldate w" "m \<le> i32_MAX" "scanned open_max (fdt (kern w))" "\<not> b_possible b"
    "\<forall>(fd, e)\<in>set exps. (fdt (kern w) fd \<noteq> None \<and> m \<le> fd) = e"
  shows "runs (expect_fds_only cfg os (iter_from cfg os b m) exps) w (\<lambda>_ w'. statics_ok release osreldate w' \<and> fdt (kern w') = fdt (kern w))"
  unfolding expect_fds_only_def by (rule runs_bndI [OF expect_runs [OF assms]]) (simp add: wp)

text \<open>\<^verbatim>\<open>count\<close> is the number of descriptors that \<^verbatim>\<open>collect\<close> would have collected.\<close>

lemma count_runs:
  assumes "iter_ok (dom (user_tab it w)) it w" "runs (FdIter_collect cfg os it) w (\<lambda>l' w'. l' = l)" "32 \<le> usize_bits cfg"
  shows "runs (FdIter_count cfg os it) w (\<lambda>n w'. n = length l \<and> only_kern w w' \<and> fdt (kern w') = user_tab it w)"
proof -
  obtain N where N: "pending N 0 it w" "N \<le> 2147483647" using pending_start [OF assms(1)] .
  have "delivers cfg os it w l" by (rule runsE [OF assms(2)]) (use collect_delivers in blast)
  with N(1) have n: "N = length l" by (auto simp: pending_def dest: delivers_unique)
  show ?thesis unfolding FdIter_count_def
  proof (rule runs_bndI [OF count_by_ref_runs [OF N assms(3)]], goal_cases)
    case (1 x w2)
    obtain c it2 where x: "x = (c, it2)" by fastforce
    with 1 n have c: "c = length l" "only_kern w w2" "user_tab it2 w2 = user_tab it w" by simp_all
    have "runs (FdIter_drop os it2) w2 (\<lambda>_ w'. only_kern w w' \<and> fdt (kern w') = user_tab it w)"
      by (rule runs_conseq [OF FdIter_drop_runs]) (use c in \<open>auto intro: only_kern_trans\<close>)
    then show ?case unfolding x prod.case by (rule runs_bndI) (simp add: wp c(1))
  qed
qed

lemma count_iter_from:
  assumes "statics_ok release osreldate w" "m \<le> i32_MAX" "reaches cfg open_max dirs_work b (fdt (kern w))" "\<not> b_possible b" "32 \<le> usize_bits cfg"
  shows "runs (bnd (iter_from cfg os b m) (FdIter_count cfg os)) w
    (\<lambda>n w'. n = length (open_from (fdt (kern w)) m) \<and> statics_ok release osreldate w' \<and> fdt (kern w') = fdt (kern w))"
proof (rule runs_bndI [OF iter_from_runs [OF assms(1-3)]], goal_cases)
  case (1 it w1)
  then have it: "iter_ok (dom (user_tab it w1)) it w1" "user_tab it w1 = fdt (kern w)" "fi_curfd it = max m 0" "\<not> fi_possible it"
    "statics_ok release osreldate w1" using assms(4) by auto
  have "runs (FdIter_collect cfg os it) w1 (\<lambda>l w'. l = open_from (fdt (kern w)) m)"
    by (rule runs_conseq [OF src.collect_runs [OF it(1), folded FdIter_collect_def]]) (use it in \<open>simp add: open_from_max\<close>)
  from count_runs [OF it(1) this assms(5)] show ?case
    by (rule runs_conseq) (use it(2,5) in \<open>metis only_kern_statics\<close>)
qed

lemma yields_open:
  assumes "scanned open_max T" "\<not> b_possible b" "32 \<le> usize_bits cfg"
  shows "yields cfg os b (at T) T"
  unfolding yields_def
proof (intro allI impI)
  fix w m assume w: "at T w" and m: "m \<le> i32_MAX"
  have reach: "reaches cfg open_max dirs_work b (fdt (kern w))" using w assms(1) scanned_reaches by metis
  note run = collect_iter_from [OF _ m reach] min_iter_from [OF _ m reach assms(2)] max_iter_from [OF _ m reach assms(2)]
    count_iter_from [OF _ m reach assms(2,3)]
  show "runs (bnd (iter_from cfg os b m) (FdIter_collect cfg os)) w (\<lambda>r w'. r = open_from T (max m 0) \<and> at T w') \<and>
    runs (bnd (iter_from cfg os b m) (FdIter_min cfg os)) w (\<lambda>r w'. r = first_of (open_from T (max m 0)) \<and> at T w') \<and>
    runs (bnd (iter_from cfg os b m) (FdIter_max cfg os)) w (\<lambda>r w'. r = last_of (open_from T (max m 0)) \<and> at T w') \<and>
    runs (bnd (iter_from cfg os b m) (FdIter_count cfg os)) w (\<lambda>r w'. r = length (open_from T (max m 0)) \<and> at T w')"
    by (intro conjI; rule runs_conseq [OF run(1)] runs_conseq [OF run(2)] runs_conseq [OF run(3)] runs_conseq [OF run(4)])
      (use w assms(2) in \<open>auto simp: open_from_max first_of_def last_of_def\<close>)
qed

lemma iter_open_fds_round_runs:
  assumes "at T w" "scanned open_max T" "three_files fd1 fd2 fd3 T" "\<not> b_possible b" "32 \<le> usize_bits cfg"
  shows "runs (iter_open_fds_round cfg os b fd1 fd2 fd3) w (\<lambda>_. at T)"
proof -
  have "dom T \<subseteq> {0..i32_MAX}" using assms(1) fd_range [of "kern w"] by force
  then show ?thesis unfolding iter_open_fds_round_def
    using assms(3) by (intro yields_round [OF yields_open [OF assms(2,4,5)] assms(1)]) (auto simp: three_files_def)
qed

lemma closing_runs:
  assumes "statics_ok release osreldate w" "scanned open_max (fdt (kern w))" "three_files fd1 fd2 fd3 (fdt (kern w))"
    and b: "keeping = ret b" "keep_ok cfg fd1 (cb_keep_fds b)" "k_fds (cb_keep_fds b) = K"
    and K: "(fd1 \<in> set K) = kept1" "(fd2 \<in> set K) = kept2" "\<forall>fd\<in>set K. fd < fd1 \<or> fd \<in> {fd1, fd2, fd3}"
  shows "runs (closing_test cfg os fd1 fd2 fd3 keeping kept1 kept2) w (\<lambda>_ w'. statics_ok release osreldate w' \<and>
    (\<forall>fd. fd \<notin> {fd1, fd2} \<longrightarrow> fdt (kern w') fd = (if fd < fd1 then fdt (kern w) fd else None)))"
proof -
  let ?T = "fdt (kern w)" and ?U = "upd eff_close ({fd1..} - set K) (fdt (kern w))"
  from assms(3) have f: "0 < fd1" "fd1 < fd2" "fd2 < fd3" "fd3 < i32_MAX" "?T 0 \<noteq> None" "?T fd1 \<noteq> None" "?T fd2 \<noteq> None" "?T fd3 = None"
    unfolding three_files_def by blast+
  have np: "\<not> b_possible FdIterBuilder_new" by (simp add: FdIterBuilder_new_def)
  have first: "runs (expect_fds cfg os (iter_open_fds cfg os fd1) [(fd1, True), (fd2, True), (fd3, False)]) w
      (\<lambda>fds w'. statics_ok release osreldate w' \<and> fdt (kern w') = ?T)"
    unfolding iter_open_fds_def by (rule runs_conseq [OF expect_runs [OF assms(1) _ assms(2) np]]) (use f in auto)
  have close: "runs (closefrom cfg os b fd1) w1 (\<lambda>_ w'. statics_ok release osreldate w' \<and> fdt (kern w') = ?U)"
    if "statics_ok release osreldate w1" "fdt (kern w1) = ?T" for w1
    by (rule runs_conseq [OF closefrom_runs [OF that(1)]]) (use that(2) f b assms(2) scanned_reaches in \<open>auto simp: max_absorb1\<close>)
  have U: "scanned open_max ?U" using assms(2) by (auto simp: scanned_def upd_apply split: if_splits)
  have final: "?U fd = (if fd < fd1 then ?T fd else None)" if "fd \<notin> {fd1, fd2}" for fd
    using that K(3) f(8) by (auto simp: upd_apply)
  have last: "runs (expect_fds_only cfg os (iter_open_fds cfg os fd1) [(fd1, kept1), (fd2, kept2), (fd3, False)]) w2
      (\<lambda>_ w'. statics_ok release osreldate w' \<and> fdt (kern w') = ?U)" if "statics_ok release osreldate w2" "fdt (kern w2) = ?U" for w2
    unfolding iter_open_fds_def
    by (rule runs_conseq [OF expect_only_runs [OF that(1) _ _ np]]) (use that(2) U f K in \<open>auto simp: upd_apply\<close>)
  show ?thesis unfolding closing_test_def b(1) bnd_ret
    by (rule runs_bndI [OF first], rule runs_bndI [OF close], blast, blast, rule runs_conseq [OF last]) (use final in auto)
qed

end

context file_kernel
begin

lemma open_lowest:
  assumes "0 < card (free_fds open_max (fdt (kern w)))"
  shows "runs (bnd (File_open os ''/'') unwrap) w (\<lambda>fd w'. only_kern w w' \<and> lowest (fdt (kern w)) fd \<and> fd \<in> free_fds open_max (fdt (kern w)) \<and>
    (\<exists>fl. fdt (kern w') = (fdt (kern w))(fd := Some fl) \<and> fl AND c_FD_CLOEXEC os = c_FD_CLOEXEC os))"
  unfolding File_open_def bnd_assoc
proof (rule runs_bndI [OF open_root_runs [OF free_has_slot [OF assms]]], goal_cases)
  case (1 fd w1)
  then have "lowest (fdt (kern w)) fd" "fd \<in> free_fds open_max (fdt (kern w))"
    using free_lowest [OF assms, of fd] by (auto simp: lowest_def)
  with 1 show ?case by (simp add: wp)
qed

lemma is_fd_open_runs:
  "(fdt (kern w) fd \<noteq> None) = b \<Longrightarrow> runs (assert_eq_m (is_fd_open os fd) b) w (\<lambda>_ w'. only_kern w w' \<and> fdt (kern w') = fdt (kern w))"
  using fd_valid_eq [of fd b w] unfolding is_fd_open_def is_fd_valid_def by blast

text \<open>\<open>G\<close> is what the callback leaves, apart from the two files.\<close>

lemma run_basic_runs:
  assumes "statics_ok release osreldate w" "scanned open_max (fdt (kern w))" "2 < card (free_fds open_max (fdt (kern w)))" "fdt (kern w) 0 \<noteq> None"
    and G: "\<And>m fd. fdt (kern w) fd = None \<Longrightarrow> G m fd = None"
    and callback: "\<And>fd1 fd2 fd3 w1. statics_ok release osreldate w1 \<Longrightarrow> scanned open_max (fdt (kern w1)) \<Longrightarrow>
      three_files fd1 fd2 fd3 (fdt (kern w1)) \<Longrightarrow> \<forall>fd. fd \<notin> {fd1, fd2} \<longrightarrow> fdt (kern w1) fd = fdt (kern w) fd \<Longrightarrow>
      runs (callback fd1 fd2 fd3 b) w1 (\<lambda>_ w2. statics_ok release osreldate w2 \<and> (\<forall>fd. fd \<notin> {fd1, fd2} \<longrightarrow> fdt (kern w2) fd = G fd1 fd))"
  shows "runs (run_basic_test os callback b) w (\<lambda>_ w'. statics_ok release osreldate w' \<and>
    (\<exists>m. lowest (fdt (kern w)) m \<and> (\<forall>fd. fdt (kern w') fd = G m fd)))" (is "runs _ _ ?post")
proof -
  let ?T = "fdt (kern w)"
  have rest: "runs (bnd (assert_eq_m (is_fd_open os fd1) True) (\<lambda>_.
     bnd (assert_eq_m (is_fd_open os fd2) True) (\<lambda>_.
     bnd (assert_eq_m (is_fd_open os fd3) False) (\<lambda>_.
     bnd (callback fd1 fd2 fd3 b) (\<lambda>_. bnd (File_drop os fd2) (\<lambda>_. File_drop os fd1)))))) w4 ?post"
    if w4: "statics_ok release osreldate w4" "fdt (kern w4) = ?T(fd1 := Some x1, fd2 := Some x2)" "scanned open_max (fdt (kern w4))"
      "three_files fd1 fd2 fd3 (fdt (kern w4))" "lowest ?T fd1" "?T fd2 = None" for fd1 fd2 fd3 x1 x2 w4
  proof -
    have check: "runs (assert_eq_m (is_fd_open os fd) e) v (\<lambda>_ v'. statics_ok release osreldate v' \<and> fdt (kern v') = fdt (kern w4))"
      if "statics_ok release osreldate v \<and> fdt (kern v) = fdt (kern w4)" "(fdt (kern w4) fd \<noteq> None) = e" for fd e v
    proof (rule runs_conseq [OF is_fd_open_runs [of v fd e]], goal_cases)
      case (2 u v')
      with that(1) only_kern_statics [of v v'] show ?case by simp
    qed (use that in simp)
    have drop: "runs (bnd (File_drop os fd2) (\<lambda>_. File_drop os fd1)) v ?post"
      if v: "statics_ok release osreldate v \<and> (\<forall>fd. fd \<notin> {fd1, fd2} \<longrightarrow> fdt (kern v) fd = G fd1 fd)" for v
    proof -
      have "?T fd1 = None" using w4(5) by (simp add: lowest_def)
      then have "G fd1 fd1 = None" "G fd1 fd2 = None" using G w4(6) by blast+
      with v have "fdt (snd (os_close os fd1 (snd (os_close os fd2 (kern v))))) fd = G fd1 fd" for fd by (simp add: close_fdt)
      with v w4(5) show ?thesis by (simp add: wp statics_upd) blast
    qed
    have call: "runs (callback fd1 fd2 fd3 b) v (\<lambda>_ v'. statics_ok release osreldate v' \<and> (\<forall>fd. fd \<notin> {fd1, fd2} \<longrightarrow> fdt (kern v') fd = G fd1 fd))"
      if "statics_ok release osreldate v \<and> fdt (kern v) = fdt (kern w4)" for v
      by (rule callback) (use that w4 in simp_all)
    from w4(4) have "fdt (kern w4) fd1 \<noteq> None" "fdt (kern w4) fd2 \<noteq> None" "fdt (kern w4) fd3 = None" by (simp_all add: three_files_def)
    then show ?thesis
      by (intro runs_bndI [OF check] runs_bndI [OF call] drop) (use w4(1) in auto)
  qed
  have third: "runs (bnd (bnd (File_open os ''/'') unwrap) (\<lambda>fd3. bnd (File_drop os fd3) (\<lambda>_. bnd (assert_eq_m (is_fd_open os fd1) True) (\<lambda>_.
     bnd (assert_eq_m (is_fd_open os fd2) True) (\<lambda>_.
     bnd (assert_eq_m (is_fd_open os fd3) False) (\<lambda>_.
     bnd (callback fd1 fd2 fd3 b) (\<lambda>_. bnd (File_drop os fd2) (\<lambda>_. File_drop os fd1)))))))) w3 ?post"
    if w3: "statics_ok release osreldate w3" "fdt (kern w3) = ?T(fd1 := Some x1, fd2 := Some x2)" "scanned open_max (fdt (kern w3))"
      "0 < card (free_fds open_max (fdt (kern w3)))" "lowest ?T fd1" "lowest (?T(fd1 := Some x1)) fd2" for fd1 fd2 x1 x2 w3
  proof (rule runs_bndI [OF open_lowest [OF w3(4)]], goal_cases)
    case (1 fd3 w4)
    then obtain x3 where fd3: "lowest (fdt (kern w3)) fd3" "fd3 \<in> free_fds open_max (fdt (kern w3))" "fdt (kern w4) = (fdt (kern w3))(fd3 := Some x3)"
      "only_kern w3 w4" by blast
    let ?w = "w4\<lparr>kern := snd (os_close os fd3 (kern w4))\<rparr>"
    have lt: "fd1 < fd2" "fd2 < fd3" using lowest_next [OF w3(5,6)] lowest_next [OF w3(6), of x2 fd3] fd3(1) w3(2) by simp_all
    have pos: "0 < fd1" using w3(5) assms(4) by (auto simp: lowest_def order_le_less)
    have None2: "?T fd2 = None" using w3(6) lt(1) by (simp add: lowest_def)
    have none: "?T fd3 = None" using fd3(1) lt by (simp add: lowest_def w3(2))
    then have same: "fdt (kern ?w) = ?T(fd1 := Some x1, fd2 := Some x2)" using lt by (auto simp: close_fdt fd3(3) w3(2))
    moreover have "three_files fd1 fd2 fd3 (fdt (kern ?w))" unfolding same
      using fd3(2) lt pos none assms(4) by (simp add: three_files_def free_fds_def)
    moreover have "statics_ok release osreldate ?w" using w3(1) only_kern_statics [OF fd3(4)] by (simp add: statics_upd)
    ultimately have "runs (bnd (assert_eq_m (is_fd_open os fd1) True) (\<lambda>_.
     bnd (assert_eq_m (is_fd_open os fd2) True) (\<lambda>_.
     bnd (assert_eq_m (is_fd_open os fd3) False) (\<lambda>_.
     bnd (callback fd1 fd2 fd3 b) (\<lambda>_. bnd (File_drop os fd2) (\<lambda>_. File_drop os fd1)))))) ?w ?post"
      using w3(3) None2 by (intro rest [OF _ same _ _ w3(5)]) (simp_all add: w3(2))
    then show ?case by (simp add: wp)
  qed
  show ?thesis unfolding run_basic_test_def
  proof (rule runs_bndI [OF open_lowest], goal_cases)
    case (2 fd1 w1)
    then obtain x1 where 1: "lowest ?T fd1" "fd1 \<in> free_fds open_max ?T" "fdt (kern w1) = ?T(fd1 := Some x1)" "only_kern w w1" by blast
    have card1: "1 < card (free_fds open_max (fdt (kern w1)))" using assms(3) 1(2) by (simp add: 1(3) free_fds_open)
    show ?case
    proof (rule runs_bndI [OF open_lowest], goal_cases)
      case (2 fd2 w2)
      then obtain x2 where 2: "lowest (fdt (kern w1)) fd2" "fd2 \<in> free_fds open_max (fdt (kern w1))" "fdt (kern w2) = (fdt (kern w1))(fd2 := Some x2)"
        "only_kern w1 w2" by blast
      have "0 < card (free_fds open_max (fdt (kern w2)))" using card1 2(2) by (simp add: 2(3) free_fds_open)
      moreover have "scanned open_max (fdt (kern w2))"
        unfolding 2(3) by (rule free_scanned [OF 2(2)]) (unfold 1(3), rule free_scanned [OF 1(2) assms(2)])
      moreover have "statics_ok release osreldate w2" using assms(1) only_kern_statics [OF 1(4)] only_kern_statics [OF 2(4)] by simp
      ultimately show ?case using 1(1,3) 2(1,3) by (intro third) simp_all
    qed (use card1 in simp)
  qed (use assms(3) in simp)
qed

lemma kept_runs:
  assumes "statics_ok release osreldate w" "scanned open_max (fdt (kern w))" "three_files fd1 fd2 fd3 (fdt (kern w))"
    and K: "(fd1 \<in> set K) = kept1" "(fd2 \<in> set K) = kept2" "set K \<subseteq> {0, fd1, fd2, fd3}"
    and keeping: "keeping = keep_fds cfg K b \<or> keeping = ret (keep_fds_sorted K b) \<and> sorted K"
  shows "runs (closing_test cfg os fd1 fd2 fd3 keeping kept1 kept2) w (\<lambda>_ w'. statics_ok release osreldate w' \<and>
    (\<forall>fd. fd \<notin> {fd1, fd2} \<longrightarrow> fdt (kern w') fd = (if fd < fd1 then fdt (kern w) fd else None)))"
proof -
  from assms(3) have f: "0 < fd1" "fd1 < fd2" "fd2 < fd3" "fd3 < i32_MAX" by (simp_all add: three_files_def)
  then have keep: "keep_arg cfg fd1 K" "max fd1 0 = fd1" using K(3) by (auto simp: in_i32_def intro!: keep_argI)
  have range: "\<forall>fd\<in>set K. fd < fd1 \<or> fd \<in> {fd1, fd2, fd3}" using K(3) f(1) by auto
  obtain b' where b': "keeping = ret b'" "keep_ok cfg fd1 (cb_keep_fds b')" "k_fds (cb_keep_fds b') = K"
  proof (cases "keeping = keep_fds cfg K b")
    case True
    obtain k where "keep_fds cfg K b = (ret (b\<lparr>cb_keep_fds := k\<rparr>) :: ('a world, CloseFdsBuilder) prog)" "keep_ok cfg (max fd1 0) k" "k_fds k = K"
      using keep_fds_ret [OF keep(1)] by blast
    with True keep(2) show ?thesis by (intro that [of "b\<lparr>cb_keep_fds := k\<rparr>"]) simp_all
  next
    case False
    with keeping have s: "keeping = ret (keep_fds_sorted K b)" "sorted K" by blast+
    from keep have k: "\<forall>fd\<in>set K. keepable cfg fd" "\<not> {fd1..i32_MAX} \<subseteq> set K" unfolding keep_arg_def keep(2) by blast+
    from s keep_ok_new_sorted [OF s(2) k] show ?thesis
      by (intro that [of "keep_fds_sorted K b"]) (simp_all add: keep_fds_sorted_def KeepFds_new_sorted_def)
  qed
  show ?thesis by (rule closing_runs [OF assms(1-3) b' K(1,2) range])
qed

lemma closing_tests_runs:
  assumes "statics_ok release osreldate w" "scanned open_max (fdt (kern w))" "three_files fd1 fd2 fd3 (fdt (kern w))"
    and test: "test \<in> {close_fds_test, close_fds_keep1_test, close_fds_keep2_test, close_fds_keep3_test}"
  shows "runs (test cfg os fd1 fd2 fd3 b) w (\<lambda>_ w'. statics_ok release osreldate w' \<and>
    (\<forall>fd. fd \<notin> {fd1, fd2} \<longrightarrow> fdt (kern w') fd = (if fd < fd1 then fdt (kern w) fd else None)))"
proof -
  from assms(3) have f: "0 < fd1" "fd1 < fd2" "fd2 < fd3" by (simp_all add: three_files_def)
  note run = kept_runs [OF assms(1-3)]
  have "runs (close_fds_test cfg os fd1 fd2 fd3 b) w (\<lambda>_ w'. statics_ok release osreldate w' \<and>
      (\<forall>fd. fd \<notin> {fd1, fd2} \<longrightarrow> fdt (kern w') fd = (if fd < fd1 then fdt (kern w) fd else None)))"
    unfolding close_fds_test_def by (rule run [where K = "[0]"]) (use f in auto)
  moreover have "runs (close_fds_keep1_test cfg os fd1 fd2 fd3 b) w (\<lambda>_ w'. statics_ok release osreldate w' \<and>
      (\<forall>fd. fd \<notin> {fd1, fd2} \<longrightarrow> fdt (kern w') fd = (if fd < fd1 then fdt (kern w) fd else None)))"
    unfolding close_fds_keep1_test_def by (rule run [where K = "[fd1, fd3]"]) (use f in auto)
  moreover have "runs (close_fds_keep2_test cfg os fd1 fd2 fd3 b) w (\<lambda>_ w'. statics_ok release osreldate w' \<and>
      (\<forall>fd. fd \<notin> {fd1, fd2} \<longrightarrow> fdt (kern w') fd = (if fd < fd1 then fdt (kern w) fd else None)))"
    unfolding close_fds_keep2_test_def by (rule run [where K = "[fd2, fd3]"]) (use f in auto)
  moreover have "runs (close_fds_keep3_test cfg os fd1 fd2 fd3 b) w (\<lambda>_ w'. statics_ok release osreldate w' \<and>
      (\<forall>fd. fd \<notin> {fd1, fd2} \<longrightarrow> fdt (kern w') fd = (if fd < fd1 then fdt (kern w) fd else None)))"
    unfolding close_fds_keep3_test_def by (rule run [where K = "[fd2]"]) (use f in auto)
  ultimately show ?thesis using test by blast
qed

lemma iter_open_fds_test_runs:
  assumes "statics_ok release osreldate w" "scanned open_max (fdt (kern w))" "three_files fd1 fd2 fd3 (fdt (kern w))" "32 \<le> usize_bits cfg"
  shows "runs (iter_open_fds_test cfg os fd1 fd2 fd3 b) w (\<lambda>_ w'. statics_ok release osreldate w' \<and> fdt (kern w') = fdt (kern w))"
  unfolding iter_open_fds_test_def
proof (rule stmts_inv [where I = "\<lambda>w'. statics_ok release osreldate w' \<and> fdt (kern w') = fdt (kern w)"], goal_cases)
  case (1 p w')
  then obtain fs ts where p: "p = iter_open_fds_round cfg os (threadsafe cfg ts (allow_filesystem cfg fs FdIterBuilder_new)) fd1 fd2 fd3" by auto
  have "\<not> b_possible (threadsafe cfg ts (allow_filesystem cfg fs FdIterBuilder_new))"
    by (simp add: threadsafe_def allow_filesystem_def FdIterBuilder_new_def)
  with 1(2) assms show ?case unfolding p by (intro runs_conseq [OF iter_open_fds_round_runs]) simp_all
qed (use assms in simp)

end

section \<open>Properties\<close>

text \<open>
  C15. The child of \<^verbatim>\<open>run_no_fds_tests\<close> exits with code 0 on every target and every kernel that keeps the contract \<open>file_kernel\<close>: after
  \<^verbatim>\<open>close_open_fds(0, &[])\<close> a new iterator delivers nothing, a file that is opened then is seen by the next iterator as descriptor 0, and
  the first iterator stays at its end, with the size hint \<^verbatim>\<open>(0, Some(0))\<close> and the count 0. So the test passes in the parent, and changes nothing
  there, when \<^verbatim>\<open>fork()\<close> succeeds and \<^verbatim>\<open>waitpid()\<close> reports the code the child has exited with.
\<close>

theorem no_fds_child_exits_zero:
  assumes "file_kernel cfg os fdt dirs open_max release osreldate dirs_work"
    and "statics_ok release osreldate w" "reaches cfg open_max dirs_work FdIterBuilder_new (fdt (kern w))" "0 < open_max" "32 \<le> usize_bits cfg"
    and wait: "0 < pid" "\<forall>code. waitpid code = (pid, Some code)"
  shows "(\<exists>w'. run_no_fds_child cfg os w = Some (Inr (0, w'))) \<and> run_no_fds_tests cfg os pid waitpid w = Some (Inr ((), w))"
proof -
  from file_kernel.run_no_fds_runs [OF assms(1-5)] obtain w' where "run_no_fds_child cfg os w = Some (Inr (0, w'))" by (auto elim!: runsE)
  with wait show ?thesis by (simp add: run_no_fds_tests_def assert_m_def) (simp add: ret_def)
qed

text \<open>
  C27. The integration tests \<^verbatim>\<open>iter_open_fds_test\<close>, \<^verbatim>\<open>close_fds_test\<close> and \<^verbatim>\<open>close_fds_keep1_test\<close> to \<^verbatim>\<open>close_fds_keep3_test\<close> pass under \<^verbatim>\<open>run_basic_test\<close>,
  with any builder, on every target and every kernel that keeps the contract
  \<open>file_kernel\<close>, when standard input is open, three descriptors are free and no descriptor lies above the limit of a scan. The first
  leaves the descriptor table as it was; the others leave exactly the descriptors below the first file, which is the lowest one that was
  free.
\<close>

theorem basic_tests_pass:
  fixes os :: "'k os"
  assumes "file_kernel cfg os fdt dirs open_max release osreldate dirs_work"
    and "statics_ok release osreldate w" "scanned open_max (fdt (kern w))" "2 < card (free_fds open_max (fdt (kern w)))"
    and "fdt (kern w) 0 \<noteq> None" "32 \<le> usize_bits cfg"
  shows "(\<exists>w'. run_basic_test os (iter_open_fds_test cfg os) b w = Some (Inr ((), w')) \<and> fdt (kern w') = fdt (kern w)) \<and>
    (\<forall>test\<in>{close_fds_test, close_fds_keep1_test, close_fds_keep2_test, close_fds_keep3_test}. \<exists>w' m.
      run_basic_test os (test cfg os) b w = Some (Inr ((), w')) \<and> lowest (fdt (kern w)) m \<and>
      (\<forall>fd. fdt (kern w') fd = (if fd < m then fdt (kern w) fd else None)))"
proof (intro conjI ballI)
  have "runs (run_basic_test os (iter_open_fds_test cfg os) b) w (\<lambda>_ w'. statics_ok release osreldate w' \<and>
      (\<exists>m. lowest (fdt (kern w)) m \<and> (\<forall>fd. fdt (kern w') fd = fdt (kern w) fd)))"
    by (rule file_kernel.run_basic_runs [OF assms(1-5)])
      (auto intro!: runs_conseq [OF file_kernel.iter_open_fds_test_runs [OF assms(1) _ _ _ assms(6)]])
  then show "\<exists>w'. run_basic_test os (iter_open_fds_test cfg os) b w = Some (Inr ((), w')) \<and> fdt (kern w') = fdt (kern w)"
    by (elim runsE) auto
next
  fix test :: "config \<Rightarrow> 'k os \<Rightarrow> c_int \<Rightarrow> c_int \<Rightarrow> c_int \<Rightarrow> CloseFdsBuilder \<Rightarrow> ('k world, unit) prog"
  assume test: "test \<in> {close_fds_test, close_fds_keep1_test, close_fds_keep2_test, close_fds_keep3_test}"
  have "runs (run_basic_test os (test cfg os) b) w (\<lambda>_ w'. statics_ok release osreldate w' \<and>
      (\<exists>m. lowest (fdt (kern w)) m \<and> (\<forall>fd. fdt (kern w') fd = (if fd < m then fdt (kern w) fd else None))))"
  proof (rule file_kernel.run_basic_runs [OF assms(1-5)], goal_cases)
    case (2 fd1 fd2 fd3 w1)
    from file_kernel.closing_tests_runs [OF assms(1) 2(1-3) test, of b] show ?case
      by (rule runs_conseq) (use 2(4) in auto)
  qed simp
  then show "\<exists>w' m. run_basic_test os (test cfg os) b w = Some (Inr ((), w')) \<and> lowest (fdt (kern w)) m \<and>
      (\<forall>fd. fdt (kern w') fd = (if fd < m then fdt (kern w) fd else None))"
    by (elim runsE) (metis old.unit.exhaust)
qed

end
