(* ===== verification/Large_Test.thy ===== *)
theory Large_Test
  imports Integration_Tests "HOL-Library.Multiset"
begin

text \<open>
  \<^verbatim>\<open>large_open_fds_test\<close> of \<^verbatim>\<open>tests/test_close_fds.rs\<close>: it opens 150 files, closes a few, marks the others close-on-exec, first all and then
  all but eight, closes all but those eight, and checks every step with \<^verbatim>\<open>fcntl()\<close> or an iterator. The test is a client of the whole
  crate: \<^verbatim>\<open>cloexecfrom\<close>, \<^verbatim>\<open>closefrom\<close>, \<^verbatim>\<open>keep_fds\<close> with a list in any order, and the iterators with and without the option for threads. It
  passes on every kernel that keeps the contract \<open>file_kernel\<close>.
\<close>

section \<open>Definitions\<close>

definition set_fd_cloexec :: "'k os \<Rightarrow> c_int \<Rightarrow> bool \<Rightarrow> ('k world, unit) prog" where
  "set_fd_cloexec os fd cloexec =
     bnd (sys (os_fcntl_getfd os fd)) (\<lambda>flags.
     if flags < 0 then ret () else
     let flags = (if cloexec then flags OR c_FD_CLOEXEC os else flags AND NOT (c_FD_CLOEXEC os)) in
     bnd (sys (os_fcntl_setfd os fd flags)) (\<lambda>_.
     ret ()))"

definition is_fd_cloexec :: "'k os \<Rightarrow> c_int \<Rightarrow> ('k world, bool option) prog" where
  "is_fd_cloexec os fd =
     bnd (sys (os_fcntl_getfd os fd)) (\<lambda>flags.
     ret (if flags < 0 then None
          else if flags AND c_FD_CLOEXEC os = c_FD_CLOEXEC os then Some True
          else Some False))"

text \<open>\<^verbatim>\<open>Vec::remove\<close>, which panics when the index is out of range.\<close>

definition Vec_remove :: "'a list \<Rightarrow> nat \<Rightarrow> ('s, 'a \<times> 'a list) prog" where
  "Vec_remove xs i = (if i < length xs then ret (xs ! i, take i xs @ drop (Suc i) xs) else fail Index_OOB)"

text \<open>The three loops of the test that change its vectors: \<^verbatim>\<open>for _ in 0..150\<close>, the one that closes a few of the files, and the one that
  selects those to keep.\<close>

fun open_many :: "'k os \<Rightarrow> nat \<Rightarrow> c_int list \<Rightarrow> ('k world, c_int list) prog" where
  "open_many os 0 openfds = ret openfds"
| "open_many os (Suc n) openfds =
     bnd (bnd (File_open os ''/'') unwrap) (\<lambda>fd.
     let openfds = openfds @ [fd] in
     bnd (stmts [
       assert_eq_m (is_fd_cloexec os fd) (Some True),
       set_fd_cloexec os fd False,
       assert_eq_m (is_fd_cloexec os fd) (Some False),
       set_fd_cloexec os fd True,
       assert_eq_m (is_fd_cloexec os fd) (Some True)]) (\<lambda>_.
     open_many os n openfds))"

fun close_a_few :: "'k os \<Rightarrow> nat list \<Rightarrow> c_int list \<Rightarrow> c_int list \<Rightarrow> ('k world, c_int list \<times> c_int list) prog" where
  "close_a_few os [] openfds closedfds = ret (openfds, closedfds)"
| "close_a_few os (i # is) openfds closedfds =
     bnd (Vec_remove openfds i) (\<lambda>(fd, openfds).
     bnd (sys (os_close os fd)) (\<lambda>_.
     let closedfds = closedfds @ [fd] in
     bnd (assert_eq_m (is_fd_cloexec os fd) None) (\<lambda>_.
     close_a_few os is openfds closedfds)))"

fun select_fds :: "nat list \<Rightarrow> c_int list \<Rightarrow> c_int list \<Rightarrow> ('s, c_int list \<times> c_int list) prog" where
  "select_fds [] openfds extra_closedfds = ret (openfds, extra_closedfds)"
| "select_fds (i # is) openfds extra_closedfds =
     bnd (Vec_remove extra_closedfds i) (\<lambda>(fd, extra_closedfds).
     select_fds is (openfds @ [fd]) extra_closedfds)"

text \<open>Its loops over a vector.\<close>

definition expect_cloexec :: "'k os \<Rightarrow> c_int list \<Rightarrow> bool \<Rightarrow> ('k world, unit) prog" where
  "expect_cloexec os fds b = stmts (map (\<lambda>fd. assert_eq_m (is_fd_cloexec os fd) (Some b)) fds)"

definition clear_cloexec :: "'k os \<Rightarrow> c_int list \<Rightarrow> ('k world, unit) prog" where
  "clear_cloexec os fds = stmts (map (\<lambda>fd. set_fd_cloexec os fd False) fds)"

definition clear_cloexec_checked :: "'k os \<Rightarrow> c_int list \<Rightarrow> ('k world, unit) prog" where
  "clear_cloexec_checked os fds =
     stmts (map (\<lambda>fd. stmts [set_fd_cloexec os fd False, assert_eq_m (is_fd_cloexec os fd) (Some False)]) fds)"

text \<open>The parts of the test. Two of them are there twice, for the builder and the builder with \<^verbatim>\<open>threadsafe(true)\<close>.\<close>

definition check_open_closed :: "config \<Rightarrow> 'k os \<Rightarrow> c_int \<Rightarrow> c_int list \<Rightarrow> c_int list \<Rightarrow> ('k world, unit) prog" where
  "check_open_closed cfg os lowfd openfds closedfds =
     bnd (bnd (iter_open_fds cfg os lowfd) (FdIter_collect cfg os)) (\<lambda>cur_open_fds.
     bnd (check_sorted cur_open_fds) (\<lambda>_.
     bnd (stmts (map (\<lambda>fd. stmts [assert_eq_m (is_fd_cloexec os fd) (Some True), assert_m (fd \<in> set cur_open_fds)]) openfds)) (\<lambda>_.
     stmts (map (\<lambda>fd. stmts [assert_eq_m (is_fd_cloexec os fd) None, assert_m (fd \<notin> set cur_open_fds)]) closedfds))))"

definition mark_all :: "config \<Rightarrow> 'k os \<Rightarrow> CloseFdsBuilder \<Rightarrow> c_int \<Rightarrow> c_int list \<Rightarrow> ('k world, unit) prog" where
  "mark_all cfg os builder lowfd openfds =
     bnd (clear_cloexec_checked os openfds) (\<lambda>_.
     bnd (cloexecfrom cfg os builder lowfd) (\<lambda>_.
     expect_cloexec os openfds True))"

definition mark_most :: "config \<Rightarrow> 'k os \<Rightarrow> CloseFdsBuilder \<Rightarrow> c_int \<Rightarrow> c_int list \<Rightarrow> c_int list \<Rightarrow> ('k world, unit) prog" where
  "mark_most cfg os builder lowfd openfds extra_closedfds =
     bnd (clear_cloexec os (openfds @ extra_closedfds)) (\<lambda>_.
     bnd (bnd (keep_fds cfg openfds builder) (\<lambda>builder. cloexecfrom cfg os builder lowfd)) (\<lambda>_.
     bnd (expect_cloexec os openfds False) (\<lambda>_.
     expect_cloexec os extra_closedfds True)))"

definition close_most :: "config \<Rightarrow> 'k os \<Rightarrow> CloseFdsBuilder \<Rightarrow> c_int \<Rightarrow> c_int list \<Rightarrow> c_int list \<Rightarrow> ('k world, unit) prog" where
  "close_most cfg os builder lowfd openfds closedfds =
     bnd (bnd (keep_fds cfg openfds builder) (\<lambda>builder. closefrom cfg os builder lowfd)) (\<lambda>_.
     bnd (bnd (iter_open_fds cfg os lowfd) (FdIter_collect cfg os)) (\<lambda>cur_open_fds.
     bnd (check_sorted cur_open_fds) (\<lambda>_.
     bnd (stmts (map (\<lambda>fd. assert_m (fd \<in> set cur_open_fds)) openfds)) (\<lambda>_.
     bnd (stmts (map (\<lambda>fd. assert_m (fd \<notin> set cur_open_fds)) closedfds)) (\<lambda>_.
     bnd (assert_eq_m (bnd (iter_open_fds_threadsafe cfg os lowfd) (FdIter_collect cfg os)) cur_open_fds) (\<lambda>_.
     stmts (map (File_drop os) openfds)))))))"

definition large_open_fds_test :: "config \<Rightarrow> 'k os \<Rightarrow> (c_int list \<Rightarrow> c_int list) \<Rightarrow> CloseFdsBuilder \<Rightarrow> ('k world, unit) prog" where
  "large_open_fds_test cfg os mangle_keep_fds builder =
     bnd (open_many os 150 []) (\<lambda>openfds.
     bnd (index openfds 0) (\<lambda>lowfd.
     bnd (close_a_few os [140, 110, 100, 75, 10] openfds []) (\<lambda>(openfds, closedfds).
     bnd (check_open_closed cfg os lowfd openfds closedfds) (\<lambda>_.
     bnd (mark_all cfg os builder lowfd openfds) (\<lambda>_.
     bnd (mark_all cfg os (cb_threadsafe cfg True builder) lowfd openfds) (\<lambda>_.
     let extra_closedfds = sort openfds in
     bnd (select_fds [130, 110, 90, 89, 65, 34, 21, 3] [] extra_closedfds) (\<lambda>(openfds, extra_closedfds).
     let closedfds = closedfds @ extra_closedfds; openfds = mangle_keep_fds openfds in
     bnd (mark_most cfg os builder lowfd openfds extra_closedfds) (\<lambda>_.
     bnd (mark_most cfg os (cb_threadsafe cfg True builder) lowfd openfds extra_closedfds) (\<lambda>_.
     close_most cfg os builder lowfd openfds closedfds)))))))))"

section \<open>The close-on-exec flag\<close>

definition flagged :: "int \<Rightarrow> bool \<Rightarrow> fd_table \<Rightarrow> int \<Rightarrow> bool" where
  "flagged c b T fd \<longleftrightarrow> (\<exists>fl. T fd = Some fl \<and> fl AND c = (if b then c else 0))"

text \<open>\<open>T'\<close> is \<open>T\<close> after the flag of every descriptor in \<open>S\<close> has been set to \<open>b\<close>.\<close>

definition reflagged :: "int \<Rightarrow> bool \<Rightarrow> int set \<Rightarrow> fd_table \<Rightarrow> fd_table \<Rightarrow> bool" where
  "reflagged c b S T T' \<longleftrightarrow> (\<forall>fd. fd \<notin> S \<longrightarrow> T' fd = T fd) \<and> (\<forall>fd\<in>S. flagged c b T' fd)"

lemma flagged_open: "flagged c b T fd \<Longrightarrow> T fd \<noteq> None"
  by (auto simp: flagged_def)

lemma and_or_self: "(a OR c) AND c = (c :: int)"
  by (rule bit_eqI) (auto simp: bit_simps)

lemma flagged_cloexec: "T fd \<noteq> None \<Longrightarrow> fd \<in> S \<Longrightarrow> flagged c True (upd (eff_cloexec c) S T) fd"
  by (auto simp: flagged_def upd_apply and_or_self)

lemma reflagged_refl: "reflagged c b {} T T' \<longleftrightarrow> T' = T"
  by (auto simp: reflagged_def)

lemma reflagged_insert:
  assumes "reflagged c b S (T(fd := Some fl)) T'" "fl AND c = (if b then c else 0)"
  shows "reflagged c b (insert fd S) T T'"
  using assms unfolding reflagged_def flagged_def by (metis fun_upd_apply insert_iff)

lemma reflagged_dom:
  assumes "reflagged c b S T T'" "\<forall>fd\<in>S. T fd \<noteq> None"
  shows "dom T' = dom T"
proof (rule set_eqI)
  fix fd show "fd \<in> dom T' \<longleftrightarrow> fd \<in> dom T"
    using assms flagged_open [of c b T' fd] by (cases "fd \<in> S") (auto simp: reflagged_def domIff)
qed

lemma all_asserts: "\<forall>x\<in>set xs. P x \<Longrightarrow> stmts (map (\<lambda>x. assert_m (P x)) xs) = ret ()"
  by (induction xs) (simp_all add: assert_m_def)

context fd_kernel
begin

lemma is_fd_cloexec_runs:
  "at T w \<Longrightarrow> runs (is_fd_cloexec os fd) w (\<lambda>r w'. at T w' \<and> (T fd = None \<longrightarrow> r = None) \<and> (\<forall>b. flagged (c_FD_CLOEXEC os) b T fd \<longrightarrow> r = Some b))"
  using getfd_ret [of fd "kern w"] fd_flags [of "kern w" fd] cloexec_pos
  by (auto simp: is_fd_cloexec_def wp getfd_fdt statics_upd flagged_def)

lemma expect_flag: "at T w \<Longrightarrow> flagged (c_FD_CLOEXEC os) b T fd \<Longrightarrow> runs (assert_eq_m (is_fd_cloexec os fd) (Some b)) w (\<lambda>_. at T)"
  by (rule assert_eq_runs, rule runs_conseq [OF is_fd_cloexec_runs]) auto

lemma expect_none: "at T w \<Longrightarrow> T fd = None \<Longrightarrow> runs (assert_eq_m (is_fd_cloexec os fd) None) w (\<lambda>_. at T)"
  by (rule assert_eq_runs, rule runs_conseq [OF is_fd_cloexec_runs]) auto

lemma set_flag:
  assumes "at T w" "T fd \<noteq> None"
  shows "runs (set_fd_cloexec os fd b) w (\<lambda>_ w'. \<exists>fl. at (T(fd := Some fl)) w' \<and> fl AND c_FD_CLOEXEC os = (if b then c_FD_CLOEXEC os else 0))"
proof -
  obtain fl where fl: "T fd = Some fl" using assms(2) by blast
  let ?fl = "if b then fl OR c_FD_CLOEXEC os else fl AND NOT (c_FD_CLOEXEC os)"
  have "0 \<le> fl" using fd_flags assms(1) fl by blast
  then have "0 \<le> ?fl" using cloexec_pos by simp
  moreover have "?fl AND c_FD_CLOEXEC os = (if b then c_FD_CLOEXEC os else 0)"
    by (simp add: and_or_self and.assoc)
  ultimately show ?thesis using assms(1) fl \<open>0 \<le> fl\<close> getfd_ret [of fd "kern w"]
    by (auto simp: set_fd_cloexec_def wp statics_upd getfd_fdt setfd_fdt intro!: exI [of _ ?fl])
qed

lemma expect_flags:
  "at T w \<Longrightarrow> \<forall>fd\<in>set fds. flagged (c_FD_CLOEXEC os) b T fd \<Longrightarrow> runs (expect_cloexec os fds b) w (\<lambda>_. at T)"
  unfolding expect_cloexec_def by (rule stmts_inv [where I = "at T"]) (auto intro: expect_flag)

lemma set_flags:
  assumes p: "\<And>fd T w. at T w \<Longrightarrow> T fd \<noteq> None \<Longrightarrow>
      runs (p fd) w (\<lambda>_ w'. \<exists>fl. at (T(fd := Some fl)) w' \<and> fl AND c_FD_CLOEXEC os = (if b then c_FD_CLOEXEC os else 0))"
    and "at T w" "\<forall>fd\<in>set fds. T fd \<noteq> None"
  shows "runs (stmts (map p fds)) w (\<lambda>_ w'. \<exists>T'. at T' w' \<and> reflagged (c_FD_CLOEXEC os) b (set fds) T T')"
  using assms(2,3)
proof (induction fds arbitrary: T w)
  case (Cons fd fds)
  from Cons.prems have "T fd \<noteq> None" by simp
  note run = p [OF Cons.prems(1) this]
  show ?case unfolding list.map runs_stmts_Cons
  proof (rule runs_conseq [OF run], goal_cases)
    case (1 u w1)
    then obtain fl where fl: "at (T(fd := Some fl)) w1" "fl AND c_FD_CLOEXEC os = (if b then c_FD_CLOEXEC os else 0)" by blast
    show ?case
      by (rule runs_conseq [OF Cons.IH [OF fl(1)]]) (use Cons.prems(2) fl(2) reflagged_insert in \<open>simp, fastforce\<close>)
  qed
qed (simp add: wp reflagged_refl)

lemma clear_runs:
  assumes "at T w" "\<forall>fd\<in>set fds. T fd \<noteq> None"
  shows "runs (clear_cloexec os fds) w (\<lambda>_ w'. \<exists>T'. at T' w' \<and> reflagged (c_FD_CLOEXEC os) False (set fds) T T')"
    and "runs (clear_cloexec_checked os fds) w (\<lambda>_ w'. \<exists>T'. at T' w' \<and> reflagged (c_FD_CLOEXEC os) False (set fds) T T')"
proof -
  show "runs (clear_cloexec os fds) w (\<lambda>_ w'. \<exists>T'. at T' w' \<and> reflagged (c_FD_CLOEXEC os) False (set fds) T T')"
    unfolding clear_cloexec_def by (rule set_flags [OF set_flag assms])
  have "runs (stmts [set_fd_cloexec os fd False, assert_eq_m (is_fd_cloexec os fd) (Some False)]) w
      (\<lambda>_ w'. \<exists>fl. at (T(fd := Some fl)) w' \<and> fl AND c_FD_CLOEXEC os = (if False then c_FD_CLOEXEC os else 0))"
    if "at T w" "T fd \<noteq> None" for fd T w
    unfolding runs_stmts_Cons runs_stmts_Nil
    by (rule runs_conseq [OF set_flag [OF that, of False]]) (auto simp: flagged_def intro!: runs_conseq [OF expect_flag])
  then show "runs (clear_cloexec_checked os fds) w (\<lambda>_ w'. \<exists>T'. at T' w' \<and> reflagged (c_FD_CLOEXEC os) False (set fds) T T')"
    unfolding clear_cloexec_checked_def by (rule set_flags [OF _ assms])
qed

end

section \<open>Marking and closing\<close>

text \<open>The descriptor table during the test: nothing has changed below the first file, \<open>A\<close> are open and \<open>C\<close> closed.\<close>

definition large_state :: "int \<Rightarrow> int \<Rightarrow> fd_table \<Rightarrow> int set \<Rightarrow> int set \<Rightarrow> fd_table \<Rightarrow> bool" where
  "large_state open_max low T A C T' \<longleftrightarrow> scanned open_max T' \<and> (\<forall>fd < low. T' fd = T fd) \<and>
     (\<forall>fd\<in>A. low \<le> fd \<and> T' fd \<noteq> None) \<and> (\<forall>fd\<in>C. T' fd = None)"

lemma large_state_dom:
  assumes "large_state open_max low T A C T'" "dom T'' = dom T'" "\<forall>fd < low. T'' fd = T' fd"
  shows "large_state open_max low T A C T''"
proof -
  have "T'' fd = None \<longleftrightarrow> T' fd = None" for fd using assms(2) by (metis domIff)
  with assms show ?thesis by (simp add: large_state_def scanned_def)
qed

lemma large_state_reflagged:
  assumes "large_state open_max low T A C T'" "reflagged c b S T' T''" "S \<subseteq> A"
  shows "large_state open_max low T A C T''"
proof (rule large_state_dom [OF assms(1)])
  show "dom T'' = dom T'" by (rule reflagged_dom [OF assms(2)]) (use assms(1,3) in \<open>auto simp: large_state_def\<close>)
  have "fd \<notin> S" if "fd < low" for fd using that assms(1,3) by (fastforce simp: large_state_def)
  then show "\<forall>fd < low. T'' fd = T' fd" using assms(2) by (simp add: reflagged_def)
qed

lemma large_state_cloexec:
  assumes "large_state open_max low T A C T'"
  shows "large_state open_max low T A C (upd (eff_cloexec c) ({low..} - K) T')"
  by (rule large_state_dom [OF assms dom_upd_cloexec]) (simp add: upd_apply)

context fd_kernel
begin

lemma keeping_runs:
  assumes "at T w" "scanned open_max T" "0 \<le> low" "low \<le> i32_MAX" "\<forall>fd\<in>set K. T fd \<noteq> None"
  shows "runs (bnd (keep_fds cfg K b) (\<lambda>b. cloexecfrom cfg os b low)) w (\<lambda>_. at (upd (eff_cloexec (c_FD_CLOEXEC os)) ({low..} - set K) T))"
    and "runs (bnd (keep_fds cfg K b) (\<lambda>b. closefrom cfg os b low)) w (\<lambda>_. at (upd eff_close ({low..} - set K) T))"
proof -
  have "keep_arg cfg low K" using assms fd_range [of "kern w"] by (intro keep_argI) (fastforce simp: in_i32_def)+
  then obtain k where k: "keep_fds cfg K b = (ret (b\<lparr>cb_keep_fds := k\<rparr>) :: ('k world, CloseFdsBuilder) prog)"
    "keep_ok cfg (max low 0) k" "k_fds k = K" by (rule keep_fds_ret)
  have reach: "reaches cfg open_max dirs_work b' (fdt (kern w))" for b' using assms(1,2) scanned_reaches by blast
  show "runs (bnd (keep_fds cfg K b) (\<lambda>b. closefrom cfg os b low)) w (\<lambda>_. at (upd eff_close ({low..} - set K) T))"
    unfolding k(1) bnd_ret
    by (rule runs_conseq [OF closefrom_runs [OF _ assms(4) _ reach]]) (use assms(1,3) k in \<open>simp_all add: max_absorb1\<close>)
  show "runs (bnd (keep_fds cfg K b) (\<lambda>b. cloexecfrom cfg os b low)) w (\<lambda>_. at (upd (eff_cloexec (c_FD_CLOEXEC os)) ({low..} - set K) T))"
    unfolding k(1) bnd_ret cloexecfrom_def
    by (rule runs_conseq [OF xk.set_fds_cloexec_from_runs [OF TrueI conjI [OF _ reach]]])
      (use assms k in \<open>auto simp: max_absorb1 keeps_statics_def\<close>)
qed

lemma cloexec_all_runs:
  assumes "at T w" "scanned open_max T" "0 \<le> low" "low \<le> i32_MAX" "cb_keep_fds b = KeepFds_empty"
  shows "runs (cloexecfrom cfg os b low) w (\<lambda>_. at (upd (eff_cloexec (c_FD_CLOEXEC os)) {low..} T))"
proof -
  have "keep_ok cfg low KeepFds_empty" using assms(4) by (simp add: keep_ok_def KeepFds_empty_def)
  moreover have "reaches cfg open_max dirs_work (cb_it b) (fdt (kern w))" using assms(1,2) scanned_reaches by blast
  ultimately show ?thesis unfolding cloexecfrom_def
    by (intro runs_conseq [OF xk.set_fds_cloexec_from_runs [OF TrueI]])
      (use assms in \<open>auto simp: max_absorb1 keeps_statics_def KeepFds_empty_def\<close>)
qed

lemma mark_all_runs:
  assumes "at T1 w" "large_state open_max low T (set fds) C T1" "0 \<le> low" "low \<le> i32_MAX" "cb_keep_fds b = KeepFds_empty"
  shows "runs (mark_all cfg os b low fds) w (\<lambda>_ w'. \<exists>T2. at T2 w' \<and> large_state open_max low T (set fds) C T2)"
proof -
  have "\<forall>fd\<in>set fds. T1 fd \<noteq> None" using assms(2) by (simp add: large_state_def)
  note clear = clear_runs(2) [OF assms(1) this]
  show ?thesis unfolding mark_all_def
  proof (rule runs_bndI [OF clear], goal_cases)
    case (1 u w1)
    then obtain T2 where T2: "at T2 w1" "reflagged (c_FD_CLOEXEC os) False (set fds) T1 T2" by blast
    have st: "large_state open_max low T (set fds) C T2" by (rule large_state_reflagged [OF assms(2) T2(2) order_refl])
    then have scan: "scanned open_max T2" by (simp add: large_state_def)
    let ?T = "upd (eff_cloexec (c_FD_CLOEXEC os)) {low..} T2"
    have flags: "\<forall>fd\<in>set fds. flagged (c_FD_CLOEXEC os) True ?T fd"
      using st by (auto simp: large_state_def intro!: flagged_cloexec)
    have st': "large_state open_max low T (set fds) C ?T" using large_state_cloexec [OF st, of _ "{}"] by simp
    show ?case
    proof (rule runs_bndI [OF cloexec_all_runs [OF T2(1) scan assms(3-5)]], goal_cases)
      case (1 u w2)
      from expect_flags [OF this flags] show ?case by (rule runs_conseq) (use st' in blast)
    qed
  qed
qed

lemma mark_most_runs:
  assumes "at T1 w" "large_state open_max low T (set K \<union> set E) C T1" "0 \<le> low" "low \<le> i32_MAX" "set K \<inter> set E = {}"
  shows "runs (mark_most cfg os b low K E) w (\<lambda>_ w'. \<exists>T2. at T2 w' \<and> large_state open_max low T (set K \<union> set E) C T2)"
proof -
  have "\<forall>fd\<in>set (K @ E). T1 fd \<noteq> None" using assms(2) by (simp add: large_state_def)
  note clear = clear_runs(1) [OF assms(1) this]
  show ?thesis unfolding mark_most_def
  proof (rule runs_bndI [OF clear], goal_cases)
    case (1 u w1)
    then obtain T2 where T2: "at T2 w1" "reflagged (c_FD_CLOEXEC os) False (set K \<union> set E) T1 T2" by auto
    have st: "large_state open_max low T (set K \<union> set E) C T2" by (rule large_state_reflagged [OF assms(2) T2(2) order_refl])
    then have scan: "scanned open_max T2" "\<forall>fd\<in>set K. T2 fd \<noteq> None" by (simp_all add: large_state_def)
    let ?T = "upd (eff_cloexec (c_FD_CLOEXEC os)) ({low..} - set K) T2"
    have flagsE: "\<forall>fd\<in>set E. flagged (c_FD_CLOEXEC os) True ?T fd"
      using st assms(5) by (auto simp: large_state_def intro!: flagged_cloexec)
    have flagsK: "\<forall>fd\<in>set K. flagged (c_FD_CLOEXEC os) False ?T fd"
      using T2(2) by (simp add: reflagged_def flagged_def upd_apply)
    note st' = large_state_cloexec [OF st, of "c_FD_CLOEXEC os" "set K"]
    show ?case
    proof (rule runs_bndI [OF keeping_runs(1) [OF T2(1) scan(1) assms(3,4) scan(2)]], goal_cases)
      case (1 u w2)
      show ?case
        by (rule runs_bndI [OF expect_flags [OF 1 flagsK]], rule runs_conseq [OF expect_flags [OF _ flagsE]]) (use st' in auto)
    qed
  qed
qed

lemma check_open_closed_runs:
  assumes "at T1 w" "large_state open_max low T (set A) (set C) T1" "0 \<le> low" "low \<le> i32_MAX"
    "\<forall>fd\<in>set A. flagged (c_FD_CLOEXEC os) True T1 fd"
  shows "runs (check_open_closed cfg os low A C) w (\<lambda>_. at T1)"
proof -
  have st: "scanned open_max T1" "\<forall>fd\<in>set A. low \<le> fd \<and> T1 fd \<noteq> None" "\<forall>fd\<in>set C. T1 fd = None"
    using assms(2) by (simp_all add: large_state_def)
  have collect: "runs (bnd (iter_open_fds cfg os low) (FdIter_collect cfg os)) w (\<lambda>l w'. at T1 w' \<and> l = open_from T1 low)"
    unfolding iter_open_fds_def
    by (rule runs_conseq [OF collect_iter_from [OF _ assms(4) scanned_reaches]]) (use assms(1) st(1) in \<open>auto simp: FdIterBuilder_new_def\<close>)
  have mem: "set (open_from T1 low) = {fd. T1 fd \<noteq> None \<and> low \<le> fd}" using set_open_from assms(1) by blast
  have sorted: "check_sorted (open_from T1 low) = (ret () :: ('k world, unit) prog)"
    by (rule check_sorted_ok) (simp add: open_from_def)
  have A: "runs (stmts (map (\<lambda>fd. stmts [assert_eq_m (is_fd_cloexec os fd) (Some True), assert_m (fd \<in> set (open_from T1 low))]) A)) w1 (\<lambda>_. at T1)"
    if "at T1 w1" for w1
    by (rule stmts_inv [where I = "at T1"], unfold mem)
      (use that st(2) assms(5) in \<open>auto simp only: set_map image_iff runs_stmts_Cons runs_stmts_Nil runs_assert_m intro!: runs_conseq [OF expect_flag]\<close>)
  have C: "runs (stmts (map (\<lambda>fd. stmts [assert_eq_m (is_fd_cloexec os fd) None, assert_m (fd \<notin> set (open_from T1 low))]) C)) w1 (\<lambda>_. at T1)"
    if "at T1 w1" for w1
    by (rule stmts_inv [where I = "at T1"], unfold mem)
      (use that st(3) in \<open>auto simp only: set_map image_iff runs_stmts_Cons runs_stmts_Nil runs_assert_m intro!: runs_conseq [OF expect_none]\<close>)
  show ?thesis unfolding check_open_closed_def
  proof (rule runs_bndI [OF collect], goal_cases)
    case (1 l w1)
    then have w1: "at T1 w1" "l = open_from T1 low" by blast+
    show ?case unfolding w1(2) sorted bnd_ret by (rule runs_bndI [OF A [OF w1(1)]]) (rule C)
  qed
qed

lemma close_all_runs: "at T1 w \<Longrightarrow> runs (stmts (map (File_drop os) fds)) w (\<lambda>_. at (upd eff_close (set fds) T1))"
proof (induction fds arbitrary: T1 w)
  case (Cons fd fds)
  have eq: "upd eff_close (set fds) (T1(fd := None)) = upd eff_close (insert fd (set fds)) T1" by (auto simp: upd_apply)
  have "at (T1(fd := None)) (w\<lparr>kern := snd (os_close os fd (kern w))\<rparr>)" using Cons.prems by (simp add: statics_upd close_fdt)
  from Cons.IH [OF this, unfolded eq] show ?case unfolding list.map runs_stmts_Cons runs_File_drop list.set .
qed (simp add: wp)

lemma close_most_runs:
  assumes "at T1 w" "large_state open_max low T (set K \<union> set E) (set C) T1" "0 \<le> low" "low \<le> i32_MAX" "set K \<inter> set E = {}"
  shows "runs (close_most cfg os b low K (C @ E)) w (\<lambda>_. at (\<lambda>fd. if fd < low then T fd else None))"
proof -
  have st: "scanned open_max T1" "\<forall>fd\<in>set K. T1 fd \<noteq> None" "\<forall>fd\<in>set K. low \<le> fd" "\<forall>fd\<in>set C. T1 fd = None" "\<forall>fd < low. T1 fd = T fd"
    using assms(2) by (simp_all add: large_state_def)
  let ?T = "upd eff_close ({low..} - set K) T1" and ?l = "open_from (upd eff_close ({low..} - set K) T1) low"
  have scan: "scanned open_max ?T" using st(1) by (simp add: scanned_def upd_apply)
  have collect: "runs (bnd (iter_from cfg os (threadsafe cfg t FdIterBuilder_new) low) (FdIter_collect cfg os)) w1 (\<lambda>l w'. l = ?l \<and> at ?T w')"
    if "at ?T w1" for t w1
    by (rule runs_conseq [OF collect_iter_from [OF _ assms(4) scanned_reaches]])
      (use that scan in \<open>auto simp: FdIterBuilder_new_def threadsafe_def\<close>)
  have new: "threadsafe cfg False FdIterBuilder_new = FdIterBuilder_new" by (simp add: threadsafe_def FdIterBuilder_new_def)
  have sorted: "check_sorted ?l = (ret () :: ('k world, unit) prog)"
    by (rule check_sorted_ok) (simp add: open_from_def)
  have rest: "runs (bnd (check_sorted ?l) (\<lambda>_.
     bnd (stmts (map (\<lambda>fd. assert_m (fd \<in> set ?l)) K)) (\<lambda>_.
     bnd (stmts (map (\<lambda>fd. assert_m (fd \<notin> set ?l)) (C @ E))) (\<lambda>_.
     bnd (assert_eq_m (bnd (iter_open_fds_threadsafe cfg os low) (FdIter_collect cfg os)) ?l) (\<lambda>_.
     stmts (map (File_drop os) K)))))) w1 (\<lambda>_. at (\<lambda>fd. if fd < low then T fd else None))" if w1: "at ?T w1" for w1
  proof -
    have mem: "set ?l = {fd. ?T fd \<noteq> None \<and> low \<le> fd}"
      using set_open_from [of "kern w1" low] w1 by (simp only:)
    have in_l: "\<forall>fd\<in>set K. fd \<in> set ?l" "\<forall>fd\<in>set (C @ E). fd \<notin> set ?l" unfolding mem using st assms(5) by (auto simp: upd_apply)
    note ok = all_asserts [OF in_l(1)] all_asserts [OF in_l(2)]
    have low: "upd eff_close (set K) ?T = (\<lambda>fd. if fd < low then T fd else None)"
      using st(3,5) by (intro ext) (auto simp: upd_apply)
    show ?thesis unfolding sorted bnd_ret ok iter_open_fds_threadsafe_def
      by (rule runs_bndI [OF assert_eq_runs [OF collect [OF w1]]]) (rule close_all_runs [of _ ?T K, unfolded low])
  qed
  show ?thesis unfolding close_most_def
    by (rule runs_bndI [OF keeping_runs(2) [OF assms(1) st(1) assms(3,4) st(2)]], unfold iter_open_fds_def,
      rule runs_bndI [OF collect [where t = False, unfolded new]]) (use rest in auto)
qed

end

section \<open>The vectors\<close>

text \<open>Indices that are valid for \<^verbatim>\<open>remove\<close>, one after the other.\<close>

fun removable :: "nat list \<Rightarrow> nat \<Rightarrow> bool" where
  "removable [] n = True"
| "removable (i # is) n = (i < n \<and> removable is (n - 1))"

lemma Vec_remove_ret:
  assumes "i < length xs"
  obtains x ys where "Vec_remove xs i = (ret (x, ys) :: ('s, 'a \<times> 'a list) prog)" "mset xs = add_mset x (mset ys)"
proof (rule that)
  show "Vec_remove xs i = (ret (xs ! i, take i xs @ drop (Suc i) xs) :: ('s, 'a \<times> 'a list) prog)"
    using assms by (simp add: Vec_remove_def)
  have "mset xs = mset (take i xs @ xs ! i # drop (Suc i) xs)" using id_take_nth_drop [OF assms] by metis
  then show "mset xs = add_mset (xs ! i) (mset (take i xs @ drop (Suc i) xs))" by simp
qed

lemma mset_split: "mset xs = add_mset x (mset ys) \<Longrightarrow> set xs = insert x (set ys) \<and> length xs = Suc (length ys) \<and> (distinct xs \<longleftrightarrow> x \<notin> set ys \<and> distinct ys)"
  by (metis distinct.simps(2) length_Cons list.simps(15) mset.simps(2) mset_eq_imp_distinct_iff mset_eq_length mset_eq_setD)

lemma select_fds_ret:
  assumes "removable is (length E)"
  obtains K' E' where "select_fds is K E = (ret (K', E') :: ('s, c_int list \<times> c_int list) prog)" "mset (K' @ E') = mset (K @ E)"
  using assms
proof (induction "is" arbitrary: K E thesis)
  case (Cons i "is")
  from Cons.prems(2) have "i < length E" by simp
  then obtain x ys where r: "Vec_remove E i = (ret (x, ys) :: ('s, c_int \<times> c_int list) prog)" "mset E = add_mset x (mset ys)"
    by (rule Vec_remove_ret)
  have "removable is (length ys)" using Cons.prems(2) mset_split [OF r(2)] by simp
  then obtain K' E' where "select_fds is (K @ [x]) ys = (ret (K', E') :: ('s, c_int list \<times> c_int list) prog)" "mset (K' @ E') = mset ((K @ [x]) @ ys)"
    using Cons.IH by blast
  with r Cons.prems(1) show ?case by simp
qed simp

context fd_kernel
begin

lemma close_a_few_runs:
  assumes "at T1 w" "removable is (length A)" "distinct A"
  shows "runs (close_a_few os is A C) w (\<lambda>(A', C') w'. distinct A' \<and> set A' \<subseteq> set A \<and> length A' + length is = length A \<and>
    set C' = set C \<union> (set A - set A') \<and> at (upd eff_close (set A - set A') T1) w')"
  using assms
proof (induction "is" arbitrary: A C T1 w)
  case (Cons i "is")
  from Cons.prems(2) have "i < length A" by simp
  then obtain x ys where r: "Vec_remove A i = (ret (x, ys) :: ('k world, c_int \<times> c_int list) prog)" "mset A = add_mset x (mset ys)"
    by (rule Vec_remove_ret)
  note A = mset_split [OF r(2)]
  with Cons.prems have ys: "removable is (length ys)" "distinct ys" "x \<notin> set ys" by auto
  let ?w = "w\<lparr>kern := snd (os_close os x (kern w))\<rparr>"
  have "at (T1(x := None)) ?w" using Cons.prems(1) by (simp add: statics_upd close_fdt)
  then have none: "runs (assert_eq_m (is_fd_cloexec os x) None) ?w (\<lambda>_. at (T1(x := None)))" by (rule expect_none) simp
  have eq: "upd eff_close (set ys - S) (T1(x := None)) = upd eff_close (set A - S) T1" if "S \<subseteq> set ys" for S
    using A ys(3) that by (intro ext) (auto simp: upd_apply)
  have "runs (bnd (assert_eq_m (is_fd_cloexec os x) None) (\<lambda>_. close_a_few os is ys (C @ [x]))) ?w (\<lambda>(A', C') w'. distinct A' \<and> set A' \<subseteq> set A \<and>
      length A' + length (i # is) = length A \<and> set C' = set C \<union> (set A - set A') \<and> at (upd eff_close (set A - set A') T1) w')"
  proof (rule runs_bndI [OF none], rule runs_conseq [OF Cons.IH [OF _ ys(1,2)]], assumption, goal_cases)
    case (1 u w1 p w2)
    obtain A' C' where p: "p = (A', C')" by fastforce
    from 1(2) have IH: "distinct A'" "set A' \<subseteq> set ys" "length A' + length is = length ys" "set C' = set (C @ [x]) \<union> (set ys - set A')"
      "at (upd eff_close (set A - set A') T1) w2" unfolding p prod.case using eq by auto
    with A ys(3) show ?case unfolding p prod.case by auto
  qed
  then show ?case by (simp add: r(1) Let_def runs_bnd runs_sys del: eff_laws)
qed (simp add: wp)

lemma toggle_runs:
  assumes "at T1 w" "flagged (c_FD_CLOEXEC os) True T1 fd"
  shows "runs (stmts [
       assert_eq_m (is_fd_cloexec os fd) (Some True),
       set_fd_cloexec os fd False,
       assert_eq_m (is_fd_cloexec os fd) (Some False),
       set_fd_cloexec os fd True,
       assert_eq_m (is_fd_cloexec os fd) (Some True)]) w
    (\<lambda>_ w'. \<exists>fl. at (T1(fd := Some fl)) w' \<and> fl AND c_FD_CLOEXEC os = c_FD_CLOEXEC os)"
proof -
  have on: "runs (stmts [set_fd_cloexec os fd True, assert_eq_m (is_fd_cloexec os fd) (Some True)]) w1
      (\<lambda>_ w'. \<exists>fl. at (T1(fd := Some fl)) w' \<and> fl AND c_FD_CLOEXEC os = c_FD_CLOEXEC os)" if "at (T1(fd := Some fl)) w1" for fl w1
    unfolding runs_stmts_Cons runs_stmts_Nil
    by (rule runs_conseq [OF set_flag [OF that, of fd True]])
      (auto simp: flagged_def intro!: runs_conseq [OF expect_flag])
  have off: "runs (stmts (set_fd_cloexec os fd False # assert_eq_m (is_fd_cloexec os fd) (Some False) # ps)) w1 Q"
    if "at T1 w1" "\<And>fl w2. at (T1(fd := Some fl)) w2 \<Longrightarrow> runs (stmts ps) w2 Q" for ps Q w1
    unfolding runs_stmts_Cons
    by (rule runs_conseq [OF set_flag [OF that(1) flagged_open [OF assms(2)], of False]])
      (auto simp: flagged_def intro!: runs_conseq [OF expect_flag] that(2))
  show ?thesis unfolding runs_stmts_Cons [of "assert_eq_m (is_fd_cloexec os fd) (Some True)" "_ # _"]
    by (rule runs_conseq [OF expect_flag [OF assms]]) (intro off on)
qed

end

section \<open>The test\<close>

text \<open>The files \<open>fds\<close> have been opened in a process with the table \<open>T\<close>.\<close>

definition many_open :: "int \<Rightarrow> int \<Rightarrow> fd_table \<Rightarrow> int list \<Rightarrow> fd_table \<Rightarrow> bool" where
  "many_open c open_max T fds T' \<longleftrightarrow> distinct fds \<and> scanned open_max T' \<and> (\<forall>fd. fd \<notin> set fds \<longrightarrow> T' fd = T fd) \<and>
     (\<forall>fd\<in>set fds. 0 \<le> fd \<and> T fd = None \<and> flagged c True T' fd) \<and> (fds \<noteq> [] \<longrightarrow> lowest T (hd fds))"

lemma many_open_snoc:
  assumes "many_open c open_max T fds T'" "lowest T' fd" "fd \<in> free_fds open_max T'" "fl AND c = c"
  shows "many_open c open_max T (fds @ [fd]) (T'(fd := Some fl))"
proof -
  have new: "fd \<notin> set fds" using assms(1,2) flagged_open by (fastforce simp: many_open_def lowest_def)
  then have "T fd = None" using assms(1,2) by (simp add: many_open_def lowest_def)
  moreover have "fds = [] \<Longrightarrow> T' = T" using assms(1) by (auto simp: many_open_def)
  moreover have "flagged c True (T'(fd := Some fl)) x" if "x = fd \<or> flagged c True T' x" for x
    using that assms(4) by (auto simp: flagged_def)
  ultimately show ?thesis using assms new free_scanned [OF assms(3), of fl]
    unfolding many_open_def by (auto simp: lowest_def hd_append simp del: fun_upd_apply) (simp_all add: fun_upd_other)
qed

context file_kernel
begin

lemma open_many_runs:
  assumes "at T1 w" "many_open (c_FD_CLOEXEC os) open_max T fds T1" "n \<le> card (free_fds open_max T1)"
  shows "runs (open_many os n fds) w (\<lambda>fds' w'. length fds' = length fds + n \<and> (\<exists>T2. at T2 w' \<and> many_open (c_FD_CLOEXEC os) open_max T fds' T2))"
  using assms
proof (induction n arbitrary: fds T1 w)
  case (Suc n)
  then have "0 < card (free_fds open_max (fdt (kern w)))" by simp
  note run = open_lowest [OF this]
  show ?case unfolding open_many.simps
  proof (rule runs_bndI [OF run], goal_cases)
    case (1 fd w1)
    with Suc.prems(1) obtain fl where fd: "lowest T1 fd" "fd \<in> free_fds open_max T1" "fl AND c_FD_CLOEXEC os = c_FD_CLOEXEC os"
      "at (T1(fd := Some fl)) w1" using only_kern_statics [of w w1] by auto
    have "flagged (c_FD_CLOEXEC os) True (T1(fd := Some fl)) fd" using fd(3) by (simp add: flagged_def)
    note toggle = toggle_runs [OF fd(4) this]
    show ?case unfolding Let_def
    proof (rule runs_bndI [OF toggle], goal_cases)
      case (1 u w2)
      then obtain fl' where fl': "at (T1(fd := Some fl')) w2" "fl' AND c_FD_CLOEXEC os = c_FD_CLOEXEC os" by auto
      have "n \<le> card (free_fds open_max (T1(fd := Some fl')))" using Suc.prems(3) fd(2) by (simp add: free_fds_open)
      from Suc.IH [OF fl'(1) many_open_snoc [OF Suc.prems(2) fd(1,2) fl'(2)] this] show ?case by (rule runs_conseq) simp
    qed
  qed
qed (simp add: wp)

text \<open>From the point where the files are open.\<close>

lemma after_opening:
  assumes "at T2 w" "many_open (c_FD_CLOEXEC os) open_max T fds T2" "length fds = 150"
  obtains low where "index fds 0 = (ret low :: ('a world, c_int) prog)" "lowest T low" "0 \<le> low" "low \<le> i32_MAX"
    "runs (close_a_few os [140, 110, 100, 75, 10] fds []) w (\<lambda>(A, C) w'. distinct A \<and> length A = 145 \<and>
      (\<exists>T3. at T3 w' \<and> large_state open_max low T (set A) (set C) T3 \<and> (\<forall>fd\<in>set A. flagged (c_FD_CLOEXEC os) True T3 fd)))"
proof
  let ?low = "hd fds"
  have "fds \<noteq> []" using assms(3) by auto
  then show "index fds 0 = (ret ?low :: ('a world, c_int) prog)" using assms(3) by (simp add: index_def hd_conv_nth)
  from \<open>fds \<noteq> []\<close> show low: "lowest T ?low" using assms(2) by (simp add: many_open_def)
  then show "0 \<le> ?low" by (simp add: lowest_def)
  have "flagged (c_FD_CLOEXEC os) True T2 ?low" using assms(2) \<open>fds \<noteq> []\<close> by (simp add: many_open_def)
  then have "T2 ?low \<noteq> None" by (rule flagged_open)
  then show "?low \<le> i32_MAX" using assms(1) fd_range [of "kern w" ?low] by auto
  have ge: "?low \<le> fd \<and> T2 fd \<noteq> None" if "fd \<in> set fds" for fd
    using that low assms(2) flagged_open unfolding many_open_def lowest_def by (metis linorder_not_less)
  have below: "T2 fd = T fd" if "fd < ?low" for fd
  proof -
    have "fd \<notin> set fds" using ge [of fd] that by auto
    then show ?thesis using assms(2) by (simp add: many_open_def)
  qed
  have "distinct fds" "removable [140, 110, 100, 75, 10] (length fds)" "scanned open_max T2" using assms(2,3) by (simp_all add: many_open_def)
  note run = close_a_few_runs [OF assms(1) this(2,1), of "[]"]
  show "runs (close_a_few os [140, 110, 100, 75, 10] fds []) w (\<lambda>(A, C) w'. distinct A \<and> length A = 145 \<and>
      (\<exists>T3. at T3 w' \<and> large_state open_max ?low T (set A) (set C) T3 \<and> (\<forall>fd\<in>set A. flagged (c_FD_CLOEXEC os) True T3 fd)))"
  proof (rule runs_conseq [OF run], goal_cases)
    case (1 p w')
    obtain A C where p: "p = (A, C)" by fastforce
    let ?T = "upd eff_close (set fds - set A) T2"
    from 1 have A: "distinct A" "set A \<subseteq> set fds" "length A = 145" "set C = set fds - set A" "at ?T w'"
      unfolding p prod.case using assms(3) by auto
    have "?T fd = T fd" if "fd < ?low" for fd using ge [of fd] below [OF that] that by (auto simp: upd_apply)
    moreover have "scanned open_max ?T" using \<open>scanned open_max T2\<close> by (simp add: scanned_def upd_apply)
    moreover have "?low \<le> fd \<and> ?T fd \<noteq> None \<and> flagged (c_FD_CLOEXEC os) True ?T fd" if "fd \<in> set A" for fd
      using that A(2) ge [of fd] assms(2) by (auto simp: upd_apply many_open_def flagged_def)
    moreover have "\<forall>fd\<in>set C. ?T fd = None" using A(4) by (simp add: upd_apply)
    ultimately have "large_state open_max ?low T (set A) (set C) ?T" "\<forall>fd\<in>set A. flagged (c_FD_CLOEXEC os) True ?T fd"
      unfolding large_state_def by blast+
    with A(1,3,5) show ?case unfolding p prod.case by blast
  qed
qed

lemma after_selecting:
  assumes "at T1 w" "large_state open_max low T (set A) (set C) T1" "0 \<le> low" "low \<le> i32_MAX" "distinct A" "mset (K @ E) = mset A"
  shows "runs (bnd (mark_most cfg os b low K E) (\<lambda>_. bnd (mark_most cfg os (cb_threadsafe cfg True b) low K E) (\<lambda>_.
    close_most cfg os b low K (C @ E)))) w (\<lambda>_. at (\<lambda>fd. if fd < low then T fd else None))"
proof -
  have eq: "set K \<union> set E = set A" "set K \<inter> set E = {}"
    using mset_eq_setD [OF assms(6)] mset_eq_imp_distinct_iff [OF assms(6)] assms(5) by auto
  note mark = mark_most_runs [OF _ _ assms(3,4) eq(2), unfolded eq(1)] and close = close_most_runs [OF _ _ assms(3,4) eq(2), unfolded eq(1)]
  show ?thesis
  proof (rule runs_bndI [OF mark [OF assms(1,2)]], goal_cases)
    case (1 u w1)
    then obtain T2 where T2: "at T2 w1" "large_state open_max low T (set A) (set C) T2" by blast
    show ?case
    proof (rule runs_bndI [OF mark [OF T2]], goal_cases)
      case (1 u w2)
      then obtain T3 where T3: "at T3 w2" "large_state open_max low T (set A) (set C) T3" by blast
      show ?case by (rule close [OF T3])
    qed
  qed
qed

lemma large_test_runs:
  assumes "statics_ok release osreldate w" "scanned open_max (fdt (kern w))" "149 < card (free_fds open_max (fdt (kern w)))"
    and b: "cb_keep_fds b = KeepFds_empty" and mangle: "\<And>l. mset (mangle l) = mset l"
  shows "runs (large_open_fds_test cfg os mangle b) w (\<lambda>_ w'. statics_ok release osreldate w' \<and>
    (\<exists>m. lowest (fdt (kern w)) m \<and> (\<forall>fd. fdt (kern w') fd = (if fd < m then fdt (kern w) fd else None))))" (is "runs _ _ ?post")
proof -
  let ?T = "fdt (kern w)"
  have b': "cb_keep_fds (cb_threadsafe cfg True b) = KeepFds_empty" using b by (simp add: cb_threadsafe_def)
  have "many_open (c_FD_CLOEXEC os) open_max ?T [] ?T" using assms(2) by (simp add: many_open_def)
  from open_many_runs [OF _ this, of w 150] assms(1,3)
  have files: "runs (open_many os 150 []) w (\<lambda>fds w'. length fds = 150 \<and> (\<exists>T2. at T2 w' \<and> many_open (c_FD_CLOEXEC os) open_max ?T fds T2))"
    by simp
  show ?thesis unfolding large_open_fds_test_def
  proof (rule runs_bndI [OF files], goal_cases)
    case (1 fds w1)
    then obtain T1 where "at T1 w1" "many_open (c_FD_CLOEXEC os) open_max ?T fds T1" "length fds = 150" by blast
    then obtain low where low: "index fds 0 = (ret low :: ('a world, c_int) prog)" "lowest ?T low" "0 \<le> low" "low \<le> i32_MAX"
      and close: "runs (close_a_few os [140, 110, 100, 75, 10] fds []) w1 (\<lambda>(A, C) w'. distinct A \<and> length A = 145 \<and>
        (\<exists>T3. at T3 w' \<and> large_state open_max low ?T (set A) (set C) T3 \<and> (\<forall>fd\<in>set A. flagged (c_FD_CLOEXEC os) True T3 fd)))"
      by (rule after_opening)
    show ?case unfolding low(1) bnd_ret
    proof (rule runs_bndI [OF close], goal_cases)
      case (1 p w2)
      obtain A C where p: "p = (A, C)" by fastforce
      with 1 obtain T3 where T3: "distinct A" "length A = 145" "at T3 w2" "large_state open_max low ?T (set A) (set C) T3"
        "\<forall>fd\<in>set A. flagged (c_FD_CLOEXEC os) True T3 fd" by auto
      have "removable [130, 110, 90, 89, 65, 34, 21, 3] (length (sort A))" using T3(2) by simp
      then obtain K E where sel: "select_fds [130, 110, 90, 89, 65, 34, 21, 3] [] (sort A) = (ret (K, E) :: ('a world, c_int list \<times> c_int list) prog)"
        "mset (K @ E) = mset ([] @ sort A)" by (rule select_fds_ret)
      have mset: "mset (mangle K @ E) = mset A" using sel(2) mangle by simp
      note mark = mark_all_runs [OF _ _ low(3,4)]
      show ?case unfolding p prod.case Let_def sel(1) bnd_ret
      proof (rule runs_bndI [OF check_open_closed_runs [OF T3(3,4) low(3,4) T3(5)]], rule runs_bndI [OF mark [OF _ T3(4) b]], assumption,
          goal_cases)
        case (1 u w3 u' w4)
        then obtain T4 where T4: "at T4 w4" "large_state open_max low ?T (set A) (set C) T4" by blast
        show ?case
        proof (rule runs_bndI [OF mark [OF T4 b']], goal_cases)
          case (1 u w5)
          then obtain T5 where T5: "at T5 w5" "large_state open_max low ?T (set A) (set C) T5" by blast
          show ?case by (rule runs_conseq [OF after_selecting [OF T5 low(3,4) T3(1) mset]]) (use low(2) in auto)
        qed
      qed
    qed
  qed
qed

end

end
