(* ===== verification/Possible_Iter.thy ===== *)
theory Possible_Iter
  imports Integration_Tests
begin

text \<open>
  What an iterator over the possible descriptors delivers, where this is determined: on a target whose directory of descriptors works
  it is the open descriptors, and without a directory, on a target with neither \<^verbatim>\<open>F_MAXFD\<close> nor a count of descriptors, it is every number up
  to the limit of the scan. Such an iterator is exact for the table of what it may deliver, so it is one more instance of \<open>fd_source\<close>, and
  the test \<^verbatim>\<open>iter_possible_fds_test\<close>, which compares several iterators with each other, passes. Elsewhere two iterators may differ: whether
  a call of the kernel fails may change from one to the next.
\<close>

text \<open>The descriptors that are delivered, as a table.\<close>

definition possible_tab :: "bool \<Rightarrow> int \<Rightarrow> fd_table \<Rightarrow> fd_table" where
  "possible_tab dir open_max T = (if dir then T else marks {0..scan_max open_max})"

definition settled :: "config \<Rightarrow> bool \<Rightarrow> bool \<Rightarrow> bool" where
  "settled cfg dirs_work dir \<longleftrightarrow> target cfg \<notin> {Netbsd, Freebsd, Openbsd} \<and> (dir \<longrightarrow> dirs_work)"

text \<open>The iterator uses the directory until its end, or never.\<close>

definition keeps_way :: "bool \<Rightarrow> int \<Rightarrow> FdIter \<Rightarrow> bool" where
  "keeps_way dir open_max it \<longleftrightarrow> (if dir then fi_dirfd_iter it \<noteq> None
     else fi_dirfd_iter it = None \<and> fi_possible it \<and> fi_maxfd it \<in> {None, Some (scan_max open_max)})"

lemma scan_max_bounds: "0 \<le> scan_max open_max" "scan_max open_max < i32_MAX"
  by (simp_all add: scan_max_def)

context fd_kernel
begin

lemma maxfd_settled:
  assumes "target cfg \<notin> {Netbsd, Freebsd, Openbsd}" "fi_dirfd_iter it = None" "fi_maxfd it = None"
  shows "FdIter_next cfg os it w = FdIter_next cfg os (it\<lparr>fi_maxfd := Some (scan_max open_max)\<rparr>) (w\<lparr>kern := snd (os_sysconf_open_max os (kern w))\<rparr>)"
proof -
  have lim: "in_i32 (min (max open_max 1024) 65536 - 1)" "wrap_i32 (min (max open_max 1024) 65536) = min (max open_max 1024) 65536"
    by (auto simp: in_i32_def wrap_i32_def min_def max_def)
  have "get_maxfd_direct cfg os it w = Some (Inr (scan_max open_max, w\<lparr>kern := snd (os_sysconf_open_max os (kern w))\<rparr>))"
  proof -
    obtain k where "os_sysconf_open_max os (kern w) = (open_max, k)" using sysconf_ret by (metis prod.collapse)
    with assms(1) lim show ?thesis
      by (simp add: get_maxfd_direct_def maxfd_netbsd_def maxfd_nfds_def cfg_nfds_def sub_i32_def)
        (simp add: bnd_def sys_def scan_max_def ret_def)
  qed
  with assms scan_max_bounds [of open_max] show ?thesis
    by (simp add: FdIter_next_def next_dirfd_def get_maxfd_def bnd_def debug_assert_def ret_def)
qed

lemma scan_next:
  assumes "settled cfg dirs_work False" "keeps_way False open_max it" "0 \<le> fi_curfd it"
  shows "runs (FdIter_next cfg os it) w (\<lambda>(r, it') w'. only_kern w w' \<and> fdt (kern w') = fdt (kern w) \<and> keeps_way False open_max it' \<and>
    (if fi_curfd it \<le> scan_max open_max then r = Some (fi_curfd it) \<and> fi_curfd it' = fi_curfd it + 1 else r = None \<and> fi_curfd it' = fi_curfd it))"
proof -
  let ?it = "it\<lparr>fi_maxfd := Some (scan_max open_max)\<rparr>"
  have it: "fi_dirfd_iter it = None" "fi_possible it" "fi_maxfd it = None \<or> it = ?it"
    using assms(2) by (cases it; auto simp: keeps_way_def)+
  have next_it: "FdIter_next cfg os ?it w' = Some (Inr (if fi_curfd it \<le> scan_max open_max
      then (Some (fi_curfd it), ?it\<lparr>fi_curfd := fi_curfd it + 1\<rparr>) else (None, ?it), w'))" for w'
    using it(1,2) assms(3) scan_max_bounds [of open_max]
      next_possible [of ?it "scan_max open_max" cfg os w'] next_past_max [of ?it "scan_max open_max" cfg os w'] by simp
  have way: "keeps_way False open_max ?it" "keeps_way False open_max (?it\<lparr>fi_curfd := c\<rparr>)" for c using it by (simp_all add: keeps_way_def)
  from it(3) show ?thesis
  proof
    assume "fi_maxfd it = None"
    with assms(1) it(1) show ?thesis unfolding runs_def maxfd_settled [OF _ it(1) \<open>fi_maxfd it = None\<close>]
      by (subst maxfd_settled) (simp_all add: settled_def next_it way sysconf_fdt)
  next
    assume "it = ?it"
    with next_it [of w] way show ?thesis by (simp add: runs_def)
  qed
qed

lemma dir_next:
  assumes "settled cfg dirs_work True" "keeps_way True open_max it" "iter_ok (dom (user_tab it w)) it w"
  shows "runs (FdIter_next cfg os it) w (\<lambda>(r, it') w'. only_kern w w' \<and> keeps_way True open_max it' \<and>
    (\<forall>fd. r = Some fd \<longrightarrow> fd \<in> dom (user_tab it w)))"
proof -
  from assms(2) obtain d where d: "fi_dirfd_iter it = Some d" by (auto simp: keeps_way_def)
  show ?thesis
  proof (cases "di_dirfd d < 0")
    case True
    with assms(2) next_exhausted [OF d True, of cfg os w] show ?thesis by (simp add: runs_def)
  next
    case False
    let ?U = "user_tab it w"
    from assms(3) have inv: "holding fdt ?U (dom ?U) (priv it) (kern w)" "fd_inv (dom ?U) (dom ?U) cfg open_max dirs_work True (dirs (kern w)) it"
      unfolding iter_ok_shared by blast+
    from inv(1) False d have ok: "holding fdt ?U (dom ?U) {di_dirfd d} (kern w)" by simp
    from inv(2) False d have live: "dir_live (dom ?U) (dom ?U) cfg (dirs (kern w)) (fi_curfd it) d"
      by (simp add: fd_inv_def dir_rest_live)
    show ?thesis unfolding FdIter_next_def next_dirfd_def d option.case bnd_assoc
    proof (rule runs_bndI [OF sh.DirFdIter_next_runs [OF live ok]], goal_cases)
      case (1 x w')
      obtain r d' where x: "x = (r, d')" by fastforce
      consider (fd) fd where "r = Ok (Some fd)" | (eof) "r = Ok None" | (err) "r = Err ()"
        by (metis (full_types) not_None_eq old.unit.exhaust result.exhaust)
      then show ?case
        by cases (use 1 x assms(1) in \<open>auto simp: settled_def keeps_way_def wp add_i32_def in_i32_def\<close>)
    qed
  qed
qed

end

text \<open>The instance of \<open>fd_source\<close>, for the program's table \<open>U\<close>.\<close>

sublocale fd_kernel < ex: fd_source "FdIter_next cfg os" "FdIter_drop os"
  "\<lambda>Q it w. settled cfg dirs_work dir \<and> keeps_way dir open_max it \<and> iter_ok (dom U) it w \<and> user_tab it w = U \<and>
     dom (possible_tab dir open_max U) \<subseteq> Q"
  "\<lambda>it w. possible_tab dir open_max U" "\<lambda>w. possible_tab dir open_max U" fi_curfd priv "\<lambda>_. False" "keeps_statics release osreldate"
  "\<lambda>w. fdt (kern w) = U" for dir U
proof (unfold_locales, goal_cases)
  case (1 Q it w)
  then have it: "settled cfg dirs_work dir" "keeps_way dir open_max it" "iter_ok (dom U) it w" "user_tab it w = U"
    "dom (possible_tab dir open_max U) \<subseteq> Q" by blast+
  note post = FdIter_next_runs [OF it(3)]
  show ?case
  proof (cases dir)
    case True
    with it have "settled cfg dirs_work True" "keeps_way True open_max it" "iter_ok (dom (user_tab it w)) it w" by simp_all
    note run = runs_conj [OF post dir_next [OF this]]
    have sub: "fd \<in> Q" if "fd \<in> dom U" for fd using that it(5) True by (auto simp: possible_tab_def)
    show ?thesis
    proof (rule runs_conseq [OF run [unfolded it(4)]], goal_cases)
      case (1 x w')
      obtain r it' where x: "x = (r, it')" by fastforce
      have "\<forall>fd. r = Some fd \<longrightarrow> fd \<in> Q" using 1 x sub by simp
      with 1 x True it(1,5) show ?case
        by (auto simp: possible_tab_def next_post_def none_from_def least_from_def domIff only_kern_keeps split: option.splits)
    qed
  next
    case False
    with it have way: "settled cfg dirs_work False" "keeps_way False open_max it" by simp_all
    have "0 \<le> fi_curfd it" using it(3) by (simp add: it_inv_def fd_inv_def)
    note run = runs_conj [OF post scan_next [OF way this]]
    show ?thesis
      by (rule runs_conseq [OF run [unfolded it(4)]])
        (use False it(1,5) \<open>0 \<le> fi_curfd it\<close> in \<open>auto simp: possible_tab_def marks_from next_post_def only_kern_keeps split: option.splits if_splits\<close>)
  qed
next
  case (2 Q it w)
  then show ?case by (simp add: it_inv_def fd_inv_def)
next
  case (3 Q it w)
  then have "finite (dom U)" using src.tab_finite [where Q = "dom U" and it = it and w = w] by simp
  then show ?case by (simp add: possible_tab_def)
next
  case (4 Q it w)
  then show ?case by (intro runs_conseq [OF FdIter_drop_runs]) (simp add: only_kern_keeps)
next
  case (7 w w' w'')
  then show ?case by (rule keeps_statics_trans)
qed (simp_all add: keeps_statics_refl)

context fd_kernel
begin

text \<open>A new iterator is of this kind.\<close>

lemma start_way:
  assumes "at T w" "m \<le> i32_MAX" "dir \<longleftrightarrow> cfg_dirfd (target cfg) \<and> b_dirfd b" "settled cfg dirs_work dir" "b_possible b"
    "has_slot open_max T"
  shows "runs (iter_from cfg os b m) w (\<lambda>it w'. keeps_way dir open_max it)"
proof -
  let ?m = "if m < 0 then 0 else m"
  have hold: "holding fdt T (dom T) {} (kern w)" using assms(1) by (simp add: holding_empty)
  have "runs (DirFdIter_open cfg os ?m) w (\<lambda>r w'. r \<noteq> None)" if dir
    by (rule runs_conseq [OF sh.DirFdIter_open_runs [OF _ hold]])
      (use assms(1,4,6) that in \<open>auto simp: settled_def split: option.splits\<close>)
  then show ?thesis using assms(3,5) by (auto simp: iter_from_def Let_def wp keeps_way_def intro: runs_conseq)
qed

lemma yields_possible:
  assumes "scanned open_max T" "b_possible b" "32 \<le> usize_bits cfg" "dir \<longleftrightarrow> cfg_dirfd (target cfg) \<and> b_dirfd b" "settled cfg dirs_work dir"
    "has_slot open_max T"
  shows "yields cfg os b (at T) (possible_tab dir open_max T)"
  unfolding yields_def
proof (intro allI impI)
  fix w m assume w: "at T w" and m: "m \<le> i32_MAX"
  let ?P = "possible_tab dir open_max T"
  have reach: "reaches cfg open_max dirs_work b (fdt (kern w))" using w assms(1) scanned_reaches by metis
  have start: "runs (iter_from cfg os b m) w (\<lambda>it w'. (settled cfg dirs_work dir \<and> keeps_way dir open_max it \<and> iter_ok (dom T) it w' \<and>
      user_tab it w' = T \<and> dom ?P \<subseteq> dom ?P) \<and> statics_ok release osreldate w' \<and> fi_curfd it = max m 0)"
    by (rule runs_conseq [OF runs_conj [OF start_way [OF w m assms(4,5,2,6)] iter_from_runs [OF _ m reach]]]) (use w assms(5) in auto)
  have collect: "runs (bnd (iter_from cfg os b m) (FdIter_collect cfg os)) w (\<lambda>r w'. r = open_from ?P (max m 0) \<and> at T w')"
  proof (rule runs_bndI [OF start], goal_cases)
    case (1 it w1)
    from 1 [THEN conjunct1] show ?case unfolding FdIter_collect_def
      by (rule runs_conseq [OF ex.collect_runs]) (use 1 in \<open>auto simp: keeps_statics_def\<close>)
  qed
  have last: "runs (bnd (iter_from cfg os b m) (FdIter_max cfg os)) w (\<lambda>r w'. r = last_of (open_from ?P (max m 0)) \<and> at T w')"
  proof (rule runs_bndI [OF start], goal_cases)
    case (1 it w1)
    from 1 [THEN conjunct1] show ?case unfolding FdIter_max_eq
      by (rule runs_conseq [OF ex.iter_last_runs]) (use 1 in \<open>auto simp: keeps_statics_def last_of_def\<close>)
  qed
  have least: "runs (bnd (iter_from cfg os b m) (FdIter_min cfg os)) w (\<lambda>r w'. r = first_of (open_from ?P (max m 0)) \<and> at T w')"
  proof (rule runs_bndI [OF start], goal_cases)
    case (1 it w1)
    note inv = 1 [THEN conjunct1]
    show ?case unfolding FdIter_min_def
    proof (rule runs_bndI [OF ex.nxt_refines [OF inv]], goal_cases)
      case (2 x w2)
      obtain r it2 where x: "x = (r, it2)" by fastforce
      from 2 x have "fst (r, open_from ?P (fi_curfd it2)) = fst (spec_next (open_from ?P (fi_curfd it)))" by simp
      then have r: "r = first_of (open_from ?P (max m 0))" using 1
        by (cases "open_from ?P (fi_curfd it)") (auto simp: first_of_def)
      have "runs (FdIter_drop os it2) w2 (\<lambda>_ w'. at T w')"
        by (rule runs_conseq [OF ex.drp_law [where dir = dir and U = T and Q = "dom ?P"]]) (use 1 2 x in \<open>auto simp: keeps_statics_def\<close>)
      then show ?case unfolding x prod.case by (rule runs_bndI) (simp add: wp r)
    qed simp
  qed
  have count: "runs (bnd (iter_from cfg os b m) (FdIter_count cfg os)) w (\<lambda>r w'. r = length (open_from ?P (max m 0)) \<and> at T w')"
  proof (rule runs_bndI [OF start], goal_cases)
    case (1 it w1)
    then have it: "iter_ok (dom (user_tab it w1)) it w1" "user_tab it w1 = T" "statics_ok release osreldate w1" by auto
    have "runs (FdIter_collect cfg os it) w1 (\<lambda>l w'. l = open_from ?P (max m 0))" unfolding FdIter_collect_def
      by (rule runs_conseq [OF ex.collect_runs [OF 1 [THEN conjunct1]]]) (use 1 in auto)
    from count_runs [OF it(1) this assms(3)] show ?case
      by (rule runs_conseq) (use it(2,3) in \<open>metis only_kern_statics\<close>)
  qed
  show "runs (bnd (iter_from cfg os b m) (FdIter_collect cfg os)) w (\<lambda>r w'. r = open_from ?P (max m 0) \<and> at T w') \<and>
    runs (bnd (iter_from cfg os b m) (FdIter_min cfg os)) w (\<lambda>r w'. r = first_of (open_from ?P (max m 0)) \<and> at T w') \<and>
    runs (bnd (iter_from cfg os b m) (FdIter_max cfg os)) w (\<lambda>r w'. r = last_of (open_from ?P (max m 0)) \<and> at T w') \<and>
    runs (bnd (iter_from cfg os b m) (FdIter_count cfg os)) w (\<lambda>r w'. r = length (open_from ?P (max m 0)) \<and> at T w')"
    using collect least last count by blast
qed

lemma iter_possible_fds_test_runs:
  assumes "at T w" "scanned open_max T" "three_files fd1 fd2 fd3 T" "has_slot open_max T" "32 \<le> usize_bits cfg"
    "settled cfg dirs_work (cfg_dirfd (target cfg))"
  shows "runs (iter_possible_fds_test cfg os fd1 fd2 fd3 b) w (\<lambda>_. at T)"
  unfolding iter_possible_fds_test_def
proof (rule stmts_inv [where I = "at T"], goal_cases)
  case (1 p w')
  then obtain fs ts where p: "p = iter_possible_fds_round cfg os (possible True (threadsafe cfg ts (allow_filesystem cfg fs FdIterBuilder_new))) fd1 fd2 fd3"
    by auto
  let ?b = "possible True (threadsafe cfg ts (allow_filesystem cfg fs FdIterBuilder_new))"
  let ?dir = "cfg_dirfd (target cfg) \<and> b_dirfd ?b" and ?P = "possible_tab (cfg_dirfd (target cfg) \<and> b_dirfd ?b) open_max T"
  have "b_possible ?b" "settled cfg dirs_work ?dir" using assms(6) by (auto simp: possible_def settled_def)
  note y = yields_possible [OF assms(2) this(1) assms(5) refl this(2) assms(4)]
  have T: "T fd \<noteq> None \<Longrightarrow> fd \<in> {0..i32_MAX} \<and> fd \<le> scan_max open_max" for fd
    using assms(1,2) fd_range [of "kern w" fd] by (force simp: scanned_def)
  then have P: "T fd \<noteq> None \<Longrightarrow> ?P fd \<noteq> None" "?P fd \<noteq> None \<Longrightarrow> fd \<in> {0..i32_MAX}" for fd
    using scan_max_bounds [of open_max] by (auto simp: possible_tab_def marks_def split: if_splits)
  from assms(3) have f: "0 < fd1" "fd1 < fd2" "fd2 < fd3" "fd3 < i32_MAX" "?P 0 \<noteq> None" "?P fd1 \<noteq> None" "?P fd2 \<noteq> None"
    using P(1) unfolding three_files_def by blast+
  have "?P (- 1) = None" using P(2) [of "- 1"] by (cases "?P (- 1)") auto
  moreover have "dom ?P \<subseteq> {0..i32_MAX}" using P(2) by blast
  ultimately show ?case unfolding p iter_possible_fds_round_def
    using f by (intro yields_round [OF y 1(2)]) simp_all
qed (rule assms(1))

end

end
