(* ===== verification/Run_Tests.thy ===== *)
theory Run_Tests
  imports Large_Test Possible_Iter
begin

text \<open>
  The test \<^verbatim>\<open>run_tests\<close> of \<^verbatim>\<open>tests/test_close_fds.rs\<close>, which runs the other tests one after the other, three times with each kind of
  builder, and at the end closes everything but the standard streams. Every part of it leaves a process in which the next part can run.
\<close>

section \<open>Definitions\<close>

datatype Ordering = Less | Equal | Greater

definition i32_cmp :: "c_int \<Rightarrow> c_int \<Rightarrow> Ordering" where
  "i32_cmp a b = (if a < b then Less else if a = b then Equal else Greater)"

text \<open>The comparison with which the last of the large tests sorts the descriptors to keep. It is no order, so that they end up in some
  order: what \<^verbatim>\<open>sort_unstable_by\<close> makes of it is the parameter \<open>sort_by\<close> below. Descriptors are not negative and far below the limits of
  \<^verbatim>\<open>i32\<close>.\<close>

definition mangle_cmp :: "c_int \<Rightarrow> c_int \<Rightarrow> Ordering" where
  "mangle_cmp a b = i32_cmp ((a + b) mod 5) 3"

definition run_tests_round :: "config \<Rightarrow> 'k os \<Rightarrow> ((c_int \<Rightarrow> c_int \<Rightarrow> Ordering) \<Rightarrow> c_int list \<Rightarrow> c_int list) \<Rightarrow> bool \<times> bool \<Rightarrow> ('k world, unit) prog" where
  "run_tests_round cfg os sort_by = (\<lambda>(fs, ts).
     let builder = cb_threadsafe cfg ts (cb_allow_filesystem cfg fs CloseFdsBuilder_new) in
     stmts [
       run_basic_test os (iter_open_fds_test cfg os) builder,
       run_basic_test os (iter_possible_fds_test cfg os) builder,
       run_basic_test os (close_fds_test cfg os) builder,
       run_basic_test os (close_fds_keep1_test cfg os) builder,
       run_basic_test os (close_fds_keep2_test cfg os) builder,
       run_basic_test os (close_fds_keep3_test cfg os) builder,
       large_open_fds_test cfg os sort builder,
       large_open_fds_test cfg os (\<lambda>keep_fds. keep_fds) builder,
       large_open_fds_test cfg os (sort_by mangle_cmp) builder])"

definition expect_std :: "config \<Rightarrow> 'k os \<Rightarrow> ('k world, unit) prog" where
  "expect_std cfg os = assert_eq_m (bnd (iter_open_fds cfg os 0) (FdIter_collect cfg os)) [0, 1, 2]"

definition run_tests :: "config \<Rightarrow> 'k os \<Rightarrow> ((c_int \<Rightarrow> c_int \<Rightarrow> Ordering) \<Rightarrow> c_int list \<Rightarrow> c_int list) \<Rightarrow> ('k world, unit) prog" where
  "run_tests cfg os sort_by =
     bnd (stmts (replicate 3 (
       bnd (stmts (map (run_tests_round cfg os sort_by) [(True, True), (True, False), (False, True), (False, False)])) (\<lambda>_.
       probe_features cfg os)))) (\<lambda>_.
     stmts [
       close_open_fds cfg os 3 [], expect_std cfg os,
       close_open_fds cfg os 0 [0, 1, 2], expect_std cfg os,
       close_open_fds cfg os (- 1) [0, 1, 2], expect_std cfg os])"

section \<open>Lemmas\<close>

text \<open>What every part of the test needs and keeps: there is room for 150 files, and the standard streams are those of the table \<open>T\<close>.\<close>

definition ready_for_tests :: "int \<Rightarrow> fd_table \<Rightarrow> fd_table \<Rightarrow> bool" where
  "ready_for_tests open_max T T' \<longleftrightarrow> scanned open_max T' \<and> 149 < card (free_fds open_max T') \<and> (\<forall>fd\<in>{0, 1, 2}. T fd \<noteq> None) \<and> (\<forall>fd < 3. T' fd = T fd)"

lemma ready_shrink:
  assumes "ready_for_tests open_max T T'" "lowest T' m" "\<forall>fd. T'' fd = (if fd < m then T' fd else None)"
  shows "ready_for_tests open_max T T''"
proof -
  have "free_fds open_max T' \<subseteq> free_fds open_max T''" using assms(3) by (auto simp: free_fds_def)
  then have "card (free_fds open_max T') \<le> card (free_fds open_max T'')" by (intro card_mono) simp_all
  moreover have "3 \<le> m"
  proof (rule ccontr)
    assume "\<not> 3 \<le> m"
    with assms(2) have "m \<in> {0, 1, 2}" "m < 3" by (auto simp: lowest_def)
    with assms(1,2) show False by (auto simp: ready_for_tests_def lowest_def)
  qed
  ultimately show ?thesis using assms(1,3) by (auto simp: ready_for_tests_def scanned_def)
qed

context file_kernel
begin

abbreviation ready_world :: "fd_table \<Rightarrow> 'a world \<Rightarrow> bool" where
  "ready_world T w \<equiv> statics_ok release osreldate w \<and> ready_for_tests open_max T (fdt (kern w))"

lemma slot_in_callback:
  assumes "2 < card (free_fds open_max T)" "\<forall>fd. fd \<notin> {fd1, fd2} \<longrightarrow> T1 fd = T fd"
  shows "has_slot open_max T1"
proof -
  have "free_fds open_max T - {fd1, fd2} \<subseteq> free_fds open_max T1" using assms(2) by (auto simp: free_fds_def)
  then have "card (free_fds open_max T - {fd1, fd2}) \<le> card (free_fds open_max T1)" by (intro card_mono) simp_all
  moreover have "card (free_fds open_max T) - card {fd1, fd2} \<le> card (free_fds open_max T - {fd1, fd2})" by (rule diff_card_le_card_Diff) simp
  moreover have "card {fd1, fd2} \<le> 2" by (simp add: card_insert_if)
  ultimately show ?thesis using assms(1) by (intro free_has_slot) linarith
qed

lemma part_runs:
  assumes w: "ready_world T w" and bits: "32 \<le> usize_bits cfg" and way: "settled cfg dirs_work (cfg_dirfd (target cfg))"
    and b: "cb_keep_fds b = KeepFds_empty" and sort_by: "\<And>l. mset (sort_by mangle_cmp l) = mset l"
    and p: "p \<in> {run_basic_test os (iter_open_fds_test cfg os) b, run_basic_test os (iter_possible_fds_test cfg os) b,
       run_basic_test os (close_fds_test cfg os) b, run_basic_test os (close_fds_keep1_test cfg os) b,
       run_basic_test os (close_fds_keep2_test cfg os) b, run_basic_test os (close_fds_keep3_test cfg os) b,
       large_open_fds_test cfg os sort b, large_open_fds_test cfg os (\<lambda>keep_fds. keep_fds) b,
       large_open_fds_test cfg os (sort_by mangle_cmp) b}"
  shows "runs p w (\<lambda>_. ready_world T)"
proof -
  let ?T = "fdt (kern w)"
  from w have st: "statics_ok release osreldate w" "scanned open_max ?T" "149 < card (free_fds open_max ?T)" and r: "ready_for_tests open_max T ?T"
    by (simp_all add: ready_for_tests_def)
  then have three: "2 < card (free_fds open_max ?T)" "?T 0 \<noteq> None" by (auto simp: ready_for_tests_def)
  note basic = run_basic_runs [OF st(1,2) three]
  have iter_tests: "runs (run_basic_test os test b) w (\<lambda>_. ready_world T)"
    if test: "\<And>fd1 fd2 fd3 T1 w1. at T1 w1 \<Longrightarrow> scanned open_max T1 \<Longrightarrow> three_files fd1 fd2 fd3 T1 \<Longrightarrow> has_slot open_max T1 \<Longrightarrow>
      runs (test fd1 fd2 fd3 b) w1 (\<lambda>_. at T1)" for test
  proof (rule runs_conseq [OF basic [where G = "\<lambda>m. ?T"]], goal_cases)
    case (2 fd1 fd2 fd3 w1)
    have "runs (test fd1 fd2 fd3 b) w1 (\<lambda>_. at (fdt (kern w1)))"
      using 2(1-3) slot_in_callback [OF three(1) 2(4)] by (intro test) simp_all
    then show ?case by (rule runs_conseq) (use 2(4) in simp)
  next
    case (3 u w')
    then have "fdt (kern w') = ?T" by (intro ext) blast
    with 3 r show ?case by simp
  qed
  have open_test: "runs (run_basic_test os (iter_open_fds_test cfg os) b) w (\<lambda>_. ready_world T)"
    by (rule iter_tests, rule runs_conseq [OF iter_open_fds_test_runs [OF _ _ _ bits]]) auto
  have possible_test: "runs (run_basic_test os (iter_possible_fds_test cfg os) b) w (\<lambda>_. ready_world T)"
    by (rule iter_tests, rule iter_possible_fds_test_runs [OF _ _ _ _ bits way])
  have close_tests: "runs (run_basic_test os (test cfg os) b) w (\<lambda>_. ready_world T)"
    if "test \<in> {close_fds_test, close_fds_keep1_test, close_fds_keep2_test, close_fds_keep3_test}" for test
  proof (rule runs_conseq [OF basic [where G = "\<lambda>m fd. if fd < m then ?T fd else None"]], goal_cases)
    case (2 fd1 fd2 fd3 w1)
    from closing_tests_runs [OF 2(1-3) that, of b] show ?case by (rule runs_conseq) (use 2(4) in auto)
  next
    case (3 u w')
    then show ?case using ready_shrink [OF r] by blast
  qed simp
  have large: "runs (large_open_fds_test cfg os mangle b) w (\<lambda>_. ready_world T)" if "\<And>l. mset (mangle l) = mset l" for mangle
    by (rule runs_conseq [OF large_test_runs [OF st b that]]) (use ready_shrink [OF r] in blast)+
  note parts = open_test possible_test close_tests [of close_fds_test] close_tests [of close_fds_keep1_test]
    close_tests [of close_fds_keep2_test] close_tests [of close_fds_keep3_test] large [of sort] large [of "\<lambda>l. l"] large [OF sort_by]
  from p show ?thesis by (elim insertE emptyE) (simp_all only:, (rule parts; simp)+)
qed

lemma rounds_runs:
  assumes w: "ready_world T w" and bits: "32 \<le> usize_bits cfg" and way: "settled cfg dirs_work (cfg_dirfd (target cfg))"
    and sort_by: "\<And>l. mset (sort_by mangle_cmp l) = mset l"
  shows "runs (stmts (replicate 3 (
    bnd (stmts (map (run_tests_round cfg os sort_by) [(True, True), (True, False), (False, True), (False, False)])) (\<lambda>_.
    probe_features cfg os)))) w (\<lambda>_. ready_world T)"
proof (rule stmts_inv [where I = "ready_world T", OF _ w], goal_cases)
  case (1 p w1)
  have p: "p = bnd (stmts (map (run_tests_round cfg os sort_by) [(True, True), (True, False), (False, True), (False, False)])) (\<lambda>_. probe_features cfg os)"
    using 1(1) by simp
  have "runs (run_tests_round cfg os sort_by x) w2 (\<lambda>_. ready_world T)" if "ready_world T w2" for x w2
  proof -
    obtain fs ts where x: "x = (fs, ts)" by fastforce
    let ?b = "cb_threadsafe cfg ts (cb_allow_filesystem cfg fs CloseFdsBuilder_new)"
    have b: "cb_keep_fds ?b = KeepFds_empty" by (simp add: cb_threadsafe_def cb_allow_filesystem_def CloseFdsBuilder_new_def)
    show ?thesis unfolding run_tests_round_def x prod.case Let_def
      by (rule stmts_inv [where I = "ready_world T", OF _ that], rule part_runs [where sort_by = sort_by, OF _ bits way b sort_by]) (simp_all only: list.set)
  qed
  then have "runs (stmts (map (run_tests_round cfg os sort_by) [(True, True), (True, False), (False, True), (False, False)])) w1 (\<lambda>_. ready_world T)"
    by (intro stmts_inv [where I = "ready_world T", OF _ 1(2)]) auto
  then show ?case unfolding p
  proof (rule runs_bndI, goal_cases)
    case (1 u w2)
    then show ?case by (intro runs_conseq [OF probe_features_runs]) auto
  qed
qed

lemma expect_std_runs:
  assumes "at T w" "\<forall>fd. T fd \<noteq> None \<longleftrightarrow> fd \<in> {0, 1, 2}"
  shows "runs (expect_std cfg os) w (\<lambda>_. at T)"
proof -
  have "scanned open_max T" using assms(2) by (auto simp: scanned_def scan_max_def)
  then have reach: "reaches cfg open_max dirs_work FdIterBuilder_new (fdt (kern w))" using assms(1) scanned_reaches by blast
  have "{fd. T fd \<noteq> None \<and> 0 \<le> fd} = {0, 1, 2}" using assms(2) by auto
  then have l: "open_from T 0 = [0, 1, 2]" unfolding open_from_def by (simp only:) simp
  show ?thesis unfolding expect_std_def iter_open_fds_def
    by (rule assert_eq_runs, rule runs_conseq [OF collect_iter_from [OF _ _ reach]]) (use assms(1) l in \<open>auto simp: FdIterBuilder_new_def\<close>)
qed

lemma close_std_runs:
  assumes "at T w" "scanned open_max T" "minfd \<le> i32_MAX" "\<forall>fd\<in>set keep. fd \<in> {0, 1, 2}" "T' = upd eff_close ({max minfd 0..} - set keep) T"
    "\<forall>fd. T' fd \<noteq> None \<longleftrightarrow> fd \<in> {0, 1, 2}" "\<And>w'. at T' w' \<Longrightarrow> runs (stmts ps) w' Q"
  shows "runs (stmts (close_open_fds cfg os minfd keep # expect_std cfg os # ps)) w Q"
proof -
  have keep: "keep_arg cfg minfd keep" using assms(3,4) by (intro keep_argI) (auto simp: in_i32_def)
  have reach: "reaches cfg open_max dirs_work FdIterBuilder_new (fdt (kern w))" using assms(1,2) scanned_reaches by blast
  have close: "runs (close_open_fds cfg os minfd keep) w (\<lambda>_. at T')"
    by (rule runs_conseq [OF close_open_fds_runs [OF _ assms(3) keep reach]]) (use assms(1,5) in auto)
  show ?thesis unfolding runs_stmts_Cons
    by (rule runs_conseq [OF close], rule runs_conseq [OF expect_std_runs [OF _ assms(6)]]) (simp_all add: assms(7))
qed

lemma run_tests_runs:
  assumes "statics_ok release osreldate w" "scanned open_max (fdt (kern w))" "149 < card (free_fds open_max (fdt (kern w)))"
    "\<forall>fd\<in>{0, 1, 2}. fdt (kern w) fd \<noteq> None" "32 \<le> usize_bits cfg" "settled cfg dirs_work (cfg_dirfd (target cfg))"
    "\<And>l. mset (sort_by mangle_cmp l) = mset l"
  shows "runs (run_tests cfg os sort_by) w (\<lambda>_ w'. \<forall>fd. fdt (kern w') fd = (if fd < 3 then fdt (kern w) fd else None))"
proof -
  let ?T = "fdt (kern w)" and ?U = "\<lambda>fd. if fd < 3 then fdt (kern w) fd else None"
  have "ready_world ?T w" using assms(1-4) by (simp add: ready_for_tests_def)
  note rounds = rounds_runs [where sort_by = sort_by, OF this assms(5-7)]
  have U: "\<forall>fd. ?U fd \<noteq> None \<longleftrightarrow> fd \<in> {0, 1, 2}" using assms(4) fd_range [of "kern w"] by (force split: if_splits)
  have scan: "scanned open_max ?U" using assms(2) by (simp add: scanned_def)
  have again: "upd eff_close ({0..} - set [0, 1, 2]) ?U = ?U" using U by (intro ext) (auto simp: upd_apply)
  show ?thesis unfolding run_tests_def
  proof (rule runs_bndI [OF rounds], goal_cases)
    case (1 u w1)
    let ?V = "fdt (kern w1)"
    have V: "at ?V w1" "scanned open_max ?V" using 1 by (simp_all add: ready_for_tests_def)
    have "\<forall>fd < 3. ?V fd = ?T fd" using 1 by (simp add: ready_for_tests_def)
    then have UV: "?U = upd eff_close ({max 3 0..} - set []) ?V" by (intro ext) (auto simp: upd_apply)
    show ?case
    proof (rule close_std_runs [OF V _ _ UV U], goal_cases)
      case (3 w2)
      show ?case
      proof (rule close_std_runs [OF 3 scan, where T' = ?U, OF _ _ _ U], goal_cases)
        case (4 w3)
        show ?case by (rule close_std_runs [OF 4 scan, where T' = ?U, OF _ _ _ U]) (use again in \<open>auto simp: wp simp del: eff_laws\<close>)
      qed (use again in \<open>auto simp del: eff_laws\<close>)
    qed auto
  qed
qed

end

section \<open>Properties\<close>

text \<open>
  C16. The integration test \<^verbatim>\<open>run_tests\<close> passes: with each of the four builders, three times over, the six callbacks of \<^verbatim>\<open>run_basic_test\<close> and
  \<^verbatim>\<open>large_open_fds_test\<close> with the descriptors to keep in three orders return without a failed assertion, and at the end exactly the standard
  streams are open, with the flags they had. This holds for every kernel that keeps the contract \<open>file_kernel\<close> when the standard streams are open, 150
  descriptors are free, none lies above the limit of a scan, and what an iterator over the possible descriptors delivers is determined
  (\<open>settled\<close>): the target has neither \<^verbatim>\<open>F_MAXFD\<close> nor a count of descriptors, and its directory of descriptors, if it has one, works. Of
  \<^verbatim>\<open>sort_unstable_by\<close>, called with a comparison that is no order, only that it returns and keeps the elements is used.
\<close>

theorem run_tests_pass:
  assumes "file_kernel cfg os fdt dirs open_max release osreldate dirs_work"
    and "statics_ok release osreldate w" "scanned open_max (fdt (kern w))" "149 < card (free_fds open_max (fdt (kern w)))"
    and "\<forall>fd\<in>{0, 1, 2}. fdt (kern w) fd \<noteq> None" "32 \<le> usize_bits cfg" "settled cfg dirs_work (cfg_dirfd (target cfg))"
    and sort_by: "\<forall>cmp l. mset (sort_by cmp l) = mset l"
  shows "\<exists>w'. run_tests cfg os sort_by w = Some (Inr ((), w')) \<and> (\<forall>fd. fdt (kern w') fd = (if fd < 3 then fdt (kern w) fd else None))"
proof -
  have "mset (sort_by mangle_cmp l) = mset l" for l using sort_by by blast
  from file_kernel.run_tests_runs [where sort_by = sort_by, OF assms(1-7) this] show ?thesis by (elim runsE) (metis old.unit.exhaust)
qed

end
