(* ===== verification/Wraparound.thy ===== *)
theory Wraparound
  imports Close_Fds
begin

text \<open>
  What the public functions do when the list of descriptors to keep ends in \<^verbatim>\<open>i32::MAX\<close> and \<^verbatim>\<open>minfd\<close> is \<^verbatim>\<open>i32::MAX\<close>. There is no
  such descriptor, so nothing should be closed. But \<^verbatim>\<open>simplify_keep_fds\<close> adds one to \<^verbatim>\<open>minfd\<close>: with overflow checks this is
  a panic, and without them \<^verbatim>\<open>minfd\<close> becomes \<^verbatim>\<open>i32::MIN\<close>, which the iterator takes for 0.
\<close>

lemma wrap_minfd:
  assumes "\<not> overflow_checks cfg"
  shows "simplify_keep_fds cfg [i32_MAX] True i32_MAX = ret ([], i32_MIN)"
  using assms by (simp add: simplify_keep_fds_def add_i32_def norm_i32_def in_i32_def wrap_i32_def)

lemma panic_minfd:
  assumes "overflow_checks cfg"
  shows "simplify_keep_fds cfg [i32_MAX] True i32_MAX = fail Overflow"
  using assms by (simp add: simplify_keep_fds_def add_i32_def norm_i32_def in_i32_def)

text \<open>The builder for the list with the one element \<^verbatim>\<open>i32::MAX\<close>.\<close>

definition max_builder :: CloseFdsBuilder where
  "max_builder = \<lparr>cb_keep_fds = \<lparr>k_fds = [i32_MAX], k_max = i32_MAX, k_sorted = True\<rparr>, cb_it = FdIterBuilder_new\<rparr>"

lemma keep_max: "keep_fds cfg [i32_MAX] CloseFdsBuilder_new = ret max_builder"
  by (simp add: keep_fds_def KeepFds_new_def inspect_keep_fds_def debug_assert_def max_builder_def CloseFdsBuilder_new_def)

lemma apply_range_min: "apply_range cfg i32_MIN [] func = func i32_MIN i32_MAX"
  by (simp add: apply_range_def)

context fd_kernel
begin

lemma close_shortcut_wrapped:
  assumes "statics_ok release osreldate w" "\<not> debug_assertions cfg"
  shows "runs (close_fds_shortcut cfg os i32_MIN [] i32_MAX True) w (\<lambda>r w'. r = Err () \<and> statics_ok release osreldate w' \<and>
    fdt (kern w') = fdt (kern w))" (is "runs _ w ?Q")
proof -
  have range: "runs (apply_range cfg i32_MIN [] (\<lambda>low high. try_close_range cfg os (as_c_uint low) (as_c_uint high))) w' ?Q"
    if "close_ok cfg osreldate w'" "statics_ok release osreldate w'" "fdt (kern w') = fdt (kern w)" for w'
    unfolding apply_range_min
    by (rule runs_conseq [OF try_close_range_runs [OF that(1) disjI2 [OF assms(2)]]])
      (use that(2,3) as_c_uint_inverted in \<open>auto simp: keeps_statics_def\<close>)
  consider (linux) "target cfg = Linux" | (freebsd) "target cfg = Freebsd" | (none) "target cfg \<notin> {Linux, Freebsd}" by blast
  then show ?thesis
  proof cases
    case linux
    with range [of w] assms show ?thesis by (simp add: close_fds_shortcut_def wp close_ok_def cfg_closefrom_def debug_assert_def)
  next
    case freebsd
    have "runs (bnd (check_has_close_range os) (\<lambda>r. case r of Err _ \<Rightarrow> ret (Err ()) | Ok _ \<Rightarrow>
        apply_range cfg i32_MIN [] (\<lambda>low high. try_close_range cfg os (as_c_uint low) (as_c_uint high)))) w ?Q"
      by (rule runs_bndI [OF check_has_close_range_runs [OF assms(1)]])
        (auto simp: wp close_ok_def freebsd intro!: range split: result.splits)
    with freebsd assms(2) show ?thesis by (simp add: close_fds_shortcut_def wp debug_assert_def)
  next
    case none
    with assms(1) show ?thesis by (simp add: close_fds_shortcut_def wp)
  qed
qed

lemma close_open_fds_wraps:
  assumes "statics_ok release osreldate w" "\<not> debug_assertions cfg" "\<not> overflow_checks cfg"
    "reaches cfg open_max dirs_work FdIterBuilder_new (fdt (kern w))"
  shows "runs (close_open_fds cfg os i32_MAX [i32_MAX]) w (\<lambda>_ w'. fdt (kern w') = upd eff_close {0..} (fdt (kern w)))"
proof -
  let ?b = "possible True FdIterBuilder_new"
  let ?b' = "if cfg_closefrom (target cfg) then threadsafe cfg True ?b else ?b"
  have loop: "runs (bnd (iter_from cfg os ?b' i32_MIN) (\<lambda>it. loop_m (close_fds_body cfg os i32_MAX True) ([], it))) w'
      (\<lambda>_ w''. fdt (kern w'') = upd eff_close {0..} (fdt (kern w)))"
    if w': "statics_ok release osreldate w'" "fdt (kern w') = fdt (kern w)" for w'
  proof -
    have "reaches cfg open_max dirs_work ?b' (fdt (kern w'))"
      using assms(4) by (rule reaches_mono) (simp_all add: w'(2) possible_def threadsafe_def)
    note run = iter_from_runs [OF w'(1) _ this, of i32_MIN]
    show ?thesis
    proof (rule runs_bndI [OF run], goal_cases)
      case (2 it w2)
      then have "iter_ok UNIV it w2" using it_inv_weaken by blast
      then show ?case unfolding close_fds_body_eq
        by (rule runs_conseq [OF cs.sweep_runs]) (use 2 w'(2) in auto)
    qed simp
  qed
  have "runs (bnd (close_fds_shortcut cfg os i32_MIN [] i32_MAX True) (\<lambda>r. case r of Ok _ \<Rightarrow> ret () | Err _ \<Rightarrow>
      bnd (iter_from cfg os ?b' i32_MIN) (\<lambda>it. loop_m (close_fds_body cfg os i32_MAX True) ([], it)))) w
    (\<lambda>_ w'. fdt (kern w') = upd eff_close {0..} (fdt (kern w)))"
  proof (rule runs_bndI [OF close_shortcut_wrapped [OF assms(1,2)]], goal_cases)
    case (1 r w1)
    then have r: "r = Err ()" by blast
    show ?case unfolding r result.case using 1 by (intro loop) blast+
  qed
  moreover have "max i32_MAX (0 :: int) = i32_MAX" by simp
  ultimately show ?thesis
    unfolding close_open_fds_def keep_max bnd_ret closefrom_def max_builder_def CloseFdsBuilder.select_convs KeepFds.select_convs
    by (simp only: close_fds_def KeepFds.select_convs wrap_minfd [OF assms(3)] bnd_ret prod.case Let_def)
qed

lemma cloexec_shortcut_wrapped:
  assumes "statics_ok release osreldate w" "\<not> debug_assertions cfg"
  shows "runs (if target cfg = Linux then set_cloexec_shortcut cfg os i32_MIN [] i32_MAX True else ret (Err ())) w
    (\<lambda>r w'. r = Err () \<and> statics_ok release osreldate w' \<and> fdt (kern w') = fdt (kern w))"
proof (cases "target cfg = Linux")
  case True
  have "runs (set_cloexec_range cfg os (as_c_uint i32_MIN) (as_c_uint i32_MAX)) w
    (\<lambda>r w'. r = Err () \<and> statics_ok release osreldate w' \<and> fdt (kern w') = fdt (kern w))"
    by (rule runs_conseq [OF set_cloexec_range_runs [OF True disjI2 [OF assms(2)]]])
      (use assms(1) as_c_uint_inverted in \<open>auto simp: keeps_statics_def\<close>)
  with True assms(1) show ?thesis by (simp add: set_cloexec_shortcut_def apply_range_min wp)
qed (use assms in \<open>simp add: wp\<close>)

lemma set_fds_cloexec_wraps:
  assumes "statics_ok release osreldate w" "\<not> debug_assertions cfg" "\<not> overflow_checks cfg"
    "reaches cfg open_max dirs_work FdIterBuilder_new (fdt (kern w))"
  shows "runs (set_fds_cloexec cfg os i32_MAX [i32_MAX]) w
    (\<lambda>_ w'. fdt (kern w') = upd (eff_cloexec (c_FD_CLOEXEC os)) {0..} (fdt (kern w)))"
proof -
  let ?b = "possible True FdIterBuilder_new"
  have loop: "runs (bnd (iter_from cfg os ?b i32_MIN) (\<lambda>it. loop_m (set_fds_cloexec_body cfg os i32_MAX True) ([], it))) w'
      (\<lambda>_ w''. fdt (kern w'') = upd (eff_cloexec (c_FD_CLOEXEC os)) {0..} (fdt (kern w)))"
    if w': "statics_ok release osreldate w'" "fdt (kern w') = fdt (kern w)" for w'
  proof -
    have "reaches cfg open_max dirs_work ?b (fdt (kern w'))"
      using assms(4) by (rule reaches_mono) (simp_all add: w'(2) possible_def)
    note run = iter_from_runs [OF w'(1) _ this, of i32_MIN]
    show ?thesis
    proof (rule runs_bndI [OF run], goal_cases)
      case (2 it w2)
      then have "iter_ok UNIV it w2" using it_inv_weaken by blast
      then show ?case unfolding set_fds_cloexec_body_eq
        by (rule runs_conseq [OF xk.xs.sweep_runs]) (use 2 w'(2) in auto)
    qed simp
  qed
  have "runs (bnd (if target cfg = Linux then set_cloexec_shortcut cfg os i32_MIN [] i32_MAX True else ret (Err ())) (\<lambda>r.
      case r of Ok _ \<Rightarrow> ret () | Err _ \<Rightarrow>
      bnd (iter_from cfg os ?b i32_MIN) (\<lambda>it. loop_m (set_fds_cloexec_body cfg os i32_MAX True) ([], it)))) w
    (\<lambda>_ w'. fdt (kern w') = upd (eff_cloexec (c_FD_CLOEXEC os)) {0..} (fdt (kern w)))"
  proof (rule runs_bndI [OF cloexec_shortcut_wrapped [OF assms(1,2)]], goal_cases)
    case (1 r w1)
    then have r: "r = Err ()" by blast
    show ?case unfolding r result.case using 1 by (intro loop) blast+
  qed
  moreover have "max i32_MAX (0 :: int) = i32_MAX" by simp
  ultimately show ?thesis
    unfolding set_fds_cloexec_def keep_max bnd_ret cloexecfrom_def max_builder_def CloseFdsBuilder.select_convs KeepFds.select_convs
    by (simp only: set_fds_cloexec_from_def KeepFds.select_convs wrap_minfd [OF assms(3)] bnd_ret prod.case)
qed

end

section \<open>Properties\<close>

text \<open>
  C12. \<^verbatim>\<open>minfd\<close> wraps around. \<^verbatim>\<open>close_open_fds(i32::MAX, &[i32::MAX])\<close> and \<^verbatim>\<open>set_fds_cloexec(i32::MAX, &[i32::MAX])\<close>, which have no descriptor
  to act on, panic in a build with overflow checks; in a release build, on every target and every kernel that keeps the
  contract, the first closes every descriptor of the process and the second, a safe function, sets the close-on-exec flag of
  every descriptor.
\<close>

theorem minfd_wraps_around:
  assumes "fd_kernel cfg os fdt dirs open_max release osreldate dirs_work"
    and "statics_ok release osreldate w" "reaches cfg open_max dirs_work FdIterBuilder_new (fdt (kern w))"
  shows "(overflow_checks cfg \<longrightarrow>
      close_open_fds cfg os i32_MAX [i32_MAX] w = Some (Inl Overflow) \<and> set_fds_cloexec cfg os i32_MAX [i32_MAX] w = Some (Inl Overflow)) \<and>
    (\<not> overflow_checks cfg \<and> \<not> debug_assertions cfg \<longrightarrow> (\<exists>w1 w2.
      close_open_fds cfg os i32_MAX [i32_MAX] w = Some (Inr ((), w1)) \<and> (\<forall>fd. fdt (kern w1) fd = None) \<and>
      set_fds_cloexec cfg os i32_MAX [i32_MAX] w = Some (Inr ((), w2)) \<and>
      (\<forall>fd. fdt (kern w2) fd = map_option (\<lambda>fl. fl OR c_FD_CLOEXEC os) (fdt (kern w) fd))))"
proof (intro conjI impI, goal_cases)
  case 1
  then show ?case
    by (simp add: close_open_fds_def keep_max closefrom_def close_fds_def max_builder_def panic_minfd) (simp add: fail_def)
next
  case 2
  then show ?case
    by (simp add: set_fds_cloexec_def keep_max cloexecfrom_def set_fds_cloexec_from_def max_builder_def panic_minfd) (simp add: fail_def)
next
  case 3
  have all: "upd eff {0..} (fdt (kern w)) fd = eff (fdt (kern w) fd)" if "eff None = None" for eff fd
    using that fd_kernel.fd_range [OF assms(1), of "kern w" fd] by (cases "fdt (kern w) fd") (auto simp: upd_apply)
  from 3 have "\<not> debug_assertions cfg" "\<not> overflow_checks cfg" by simp_all
  from fd_kernel.close_open_fds_wraps [OF assms(1,2) this assms(3)] fd_kernel.set_fds_cloexec_wraps [OF assms(1,2) this assms(3)]
  show ?case by (auto simp: all eff_cloexec_def elim!: runsE)
qed

end
