(* ===== verification/Stale_Count.thy ===== *)
theory Stale_Count
  imports Iter_Fds
begin

text \<open>
  The count of open descriptors, when it is out of date. On FreeBSD and OpenBSD an iterator without
  \<^verbatim>\<open>threadsafe(true)\<close> asks how many descriptors are open and then looks for that many (\<^verbatim>\<open>nfds_to_maxfd\<close> of
  \<^verbatim>\<open>src/iterfds/fditer.rs\<close>). \<open>table_scan\<close> is all that this search and the scan that follows it need of the kernel: \<^verbatim>\<open>fcntl\<close> tells
  which descriptors are open. \<open>late_os\<close> is a kernel on which other threads have a turn right after the count.
\<close>

section \<open>Definitions\<close>

text \<open>The descriptors found before \<open>n\<close> have been seen: the \<open>n\<close> least open ones.\<close>

definition least_open :: "int \<Rightarrow> fd_table \<Rightarrow> int set" where
  "least_open n T = {fd \<in> dom T. int (card {x \<in> dom T. x \<le> fd}) \<le> n}"

definition late_os :: "('k \<Rightarrow> 'k) \<Rightarrow> 'k os \<Rightarrow> 'k os" where
  "late_os act os = os\<lparr>os_getdtablecount := (\<lambda>k. case os_getdtablecount os k of (n, k') \<Rightarrow> (n, act k'))\<rparr>"

lemma loop_m_first:
  assumes "body c = bnd p (\<lambda>x. body (f x))"
  shows "loop_m body c = bnd p (\<lambda>x. loop_m body (f x))"
proof
  fix s
  show "loop_m body c s = bnd p (\<lambda>x. loop_m body (f x)) s"
    by (subst loop_m.simps) (auto simp: assms bnd_def loop_m.simps [of body "f _"] split: option.splits sum.splits)
qed

section \<open>Looking for descriptors\<close>

locale table_scan =
  fixes cfg :: config
    and os :: "'k os"
    and fdt :: "'k \<Rightarrow> fd_table"
  assumes scan_flags: "fdt k fd = Some fl \<Longrightarrow> 0 \<le> fl"
    and scan_range: "fdt k fd = Some fl \<Longrightarrow> 0 \<le> fd \<and> fd < i32_MAX"
    and scan_getfd: "fst (os_fcntl_getfd os fd k) = (case fdt k fd of None \<Rightarrow> - 1 | Some fl \<Rightarrow> fl)"
    and scan_quiet: "fdt (snd (os_fcntl_getfd os fd k)) = fdt k"
begin

lemma finite_dom: "finite (dom (fdt k))"
  by (rule finite_subset [of _ "{0..i32_MAX}"]) (auto dest!: scan_range)

lemma valid_runs: "runs (is_fd_valid os fd) w (\<lambda>b w'. b = (fd \<in> dom (fdt (kern w))) \<and> fdt (kern w') = fdt (kern w))"
proof -
  obtain r k where "os_fcntl_getfd os fd (kern w) = (r, k)" by fastforce
  with scan_getfd [of fd "kern w"] scan_quiet [of fd "kern w"] scan_flags [of "kern w" fd] show ?thesis
    by (auto simp: is_fd_valid_def wp split: option.splits)
qed

text \<open>\<^verbatim>\<open>nfds_to_maxfd\<close> with any count: the descriptor at which that many have been seen, if it comes early enough.\<close>

lemma nfds_exact:
  assumes n: "0 < n" "n < 100" and T: "fdt (kern w) = T"
  shows "runs (nfds_to_maxfd cfg os n) w (\<lambda>r w'. fdt (kern w') = T \<and> (case r of
      None \<Rightarrow> int (card {x \<in> dom T. x < n * 2}) < n
    | Some m \<Rightarrow> m \<in> dom T \<and> m < n * 2 \<and> int (card {x \<in> dom T. x < m + 1}) = n))"
    (is "runs _ _ ?Q")
proof -
  have fin: "finite (dom T)" using finite_dom T by blast
  let ?I = "\<lambda>(fd, c) w'. fdt (kern w') = T \<and> 0 \<le> fd \<and> fd \<le> n * 2 \<and> c = int (card {x \<in> dom T. x < fd}) \<and> c < n"
  have "runs (loop_m (nfds_body cfg os n (n * 2)) (0, 0)) w ?Q"
  proof (rule runs_loop_m [where I = ?I and \<mu> = "\<lambda>c w'. nat (n * 2 - fst c)"], goal_cases)
    case (1 c w')
    obtain fd b where c: "c = (fd, b)" by fastforce
    have step: "int (card {x \<in> dom T. x < fd + 1}) = b + (if fd \<in> dom T then 1 else 0)"
      using card_below_Suc [OF fin, of fd] 1 c by simp
    show ?case
    proof (cases "fd < n * 2")
      case False
      with 1 c have "fd = n * 2" by simp
      with 1 c show ?thesis by (simp add: nfds_body_def wp)
    next
      case True
      have bound: "in_i32 (b + 1)" using 1 c n by (auto simp: in_i32_def)
      have "runs (is_fd_valid os fd) w' (\<lambda>v w''. v = (fd \<in> dom T) \<and> fdt (kern w'') = T)"
        using valid_runs [of fd w'] 1 c by simp
      with True 1 c step bound show ?thesis
        by (simp add: nfds_body_def runs_bnd) (elim runs_conseq, auto simp: wp add_i32_def)
    qed
  next
    case 2
    have "{x \<in> dom T. x < 0} = {}" using scan_range [of "kern w"] T by fastforce
    then have "card {x \<in> dom T. x < 0} = 0" by (simp only: card.empty)
    then show ?case using n T by simp
  qed
  with n show ?thesis by (simp add: nfds_to_maxfd_def mul_i32_def in_i32_def)
qed

lemma scan_runs:
  assumes "fdt (kern w) = T" "0 \<le> fi_curfd it" "m < i32_MAX" "\<not> fi_possible it"
  shows "runs (loop_m (scan_body cfg os m) it) w (\<lambda>(r, it') w'. fdt (kern w') = T \<and> (case r of
      None \<Rightarrow> (\<exists>c. it' = it\<lparr>fi_curfd := c\<rparr>) \<and> {x \<in> dom T. fi_curfd it \<le> x \<and> x \<le> m} = {}
    | Some fd \<Rightarrow> it' = it\<lparr>fi_curfd := fd + 1\<rparr> \<and> fd \<in> dom T \<and> fi_curfd it \<le> fd \<and> fd \<le> m \<and>
        {x \<in> dom T. fi_curfd it \<le> x \<and> x < fd} = {}))"
    (is "runs _ _ ?Q")
proof (rule runs_loop_m [where \<mu> = "\<lambda>c w'. nat (m + 1 - fi_curfd c)" and
    I = "\<lambda>c w'. \<exists>n \<ge> fi_curfd it. c = it\<lparr>fi_curfd := n\<rparr> \<and> fdt (kern w') = T \<and> {x \<in> dom T. fi_curfd it \<le> x \<and> x < n} = {}"],
    goal_cases)
  case (1 c w')
  then obtain n where n: "fi_curfd it \<le> n" "c = it\<lparr>fi_curfd := n\<rparr>" "fdt (kern w') = T"
    "{x \<in> dom T. fi_curfd it \<le> x \<and> x < n} = {}" by blast
  show ?case
  proof (cases "n \<le> m")
    case True
    then have "in_i32 (n + 1)" using assms(2,3) n(1) by (simp add: in_i32_def)
    then have body: "scan_body cfg os m c = bnd (is_fd_valid os n) (\<lambda>valid.
        if valid then ret (Break (Some n, it\<lparr>fi_curfd := n + 1\<rparr>)) else ret (Continue (it\<lparr>fi_curfd := n + 1\<rparr>)))"
      using True n(2) assms(4) by (simp add: scan_body_def Let_def add_i32_def)
    have next_empty: "{x \<in> dom T. fi_curfd it \<le> x \<and> x < n + 1} = {}" if "n \<notin> dom T"
      using n(4) that by (auto simp: zless_add1_eq)
    have "runs (is_fd_valid os n) w' (\<lambda>v w''. v = (n \<in> dom T) \<and> fdt (kern w'') = T)"
      using valid_runs [of n w'] n(3) by simp
    then show ?thesis unfolding body runs_bnd
    proof (rule runs_conseq, goal_cases)
      case (1 v w'')
      show ?case
      proof (cases v)
        case True
        with 1 n \<open>n \<le> m\<close> show ?thesis by (simp add: wp)
      next
        case False
        with 1 next_empty have "{x \<in> dom T. fi_curfd it \<le> x \<and> x < n + 1} = {}" by blast
        with False 1 n \<open>n \<le> m\<close> show ?thesis by (simp add: wp) (intro exI [of _ "n + 1"], simp)
      qed
    qed
  next
    case False
    with n(4) have "{x \<in> dom T. fi_curfd it \<le> x \<and> x \<le> m} = {}" by fastforce
    with False n show ?thesis by (auto simp: scan_body_def wp)
  qed
next
  case 2
  show ?case using assms(1) by (intro exI [of _ "fi_curfd it"]) auto
qed

lemma next_scan:
  assumes "fi_dirfd_iter it = None" "fi_maxfd it = Some m"
  shows "FdIter_next cfg os it = loop_m (scan_body cfg os m) it"
  using assms by (simp add: FdIter_next_def next_dirfd_def get_maxfd_def)

text \<open>With a known maximum, exactly the open descriptors up to it are collected.\<close>

lemma collect_scan:
  assumes T: "fdt (kern w) = T" and it: "fi_dirfd_iter it = None" "fi_maxfd it = Some m" "\<not> fi_possible it" "0 \<le> fi_curfd it" "m < i32_MAX"
  shows "runs (FdIter_collect cfg os it) w (\<lambda>l w'. fdt (kern w') = T \<and>
    l = sorted_list_of_set {x \<in> dom T. fi_curfd it \<le> x \<and> x \<le> m})"
  unfolding FdIter_collect_def collect_def
proof (rule runs_loop_m [where \<mu> = "\<lambda>c w'. nat (m + 1 - fi_curfd (snd c))" and
    I = "\<lambda>(acc, it') w'. \<exists>n \<ge> fi_curfd it. it' = it\<lparr>fi_curfd := n\<rparr> \<and> fdt (kern w') = T \<and>
      sorted_wrt (<) acc \<and> set acc = {x \<in> dom T. fi_curfd it \<le> x \<and> x \<le> m \<and> x < n}"], goal_cases)
  case (1 c w')
  then obtain acc n where n: "c = (acc, it\<lparr>fi_curfd := n\<rparr>)" "fi_curfd it \<le> n" "fdt (kern w') = T" "sorted_wrt (<) acc"
    "set acc = {x \<in> dom T. fi_curfd it \<le> x \<and> x \<le> m \<and> x < n}" by (cases c) auto
  have nxt: "FdIter_next cfg os (it\<lparr>fi_curfd := n\<rparr>) = loop_m (scan_body cfg os m) (it\<lparr>fi_curfd := n\<rparr>)"
    using it by (intro next_scan) simp_all
  have "runs (FdIter_next cfg os (it\<lparr>fi_curfd := n\<rparr>)) w' (\<lambda>(r, it') w'. fdt (kern w') = T \<and> (case r of
      None \<Rightarrow> (\<exists>c. it' = it\<lparr>fi_curfd := c\<rparr>) \<and> {x \<in> dom T. n \<le> x \<and> x \<le> m} = {}
    | Some fd \<Rightarrow> it' = it\<lparr>fi_curfd := fd + 1\<rparr> \<and> fd \<in> dom T \<and> n \<le> fd \<and> fd \<le> m \<and> {x \<in> dom T. n \<le> x \<and> x < fd} = {}))"
    unfolding nxt
    by (rule runs_conseq [OF scan_runs [of w' T "it\<lparr>fi_curfd := n\<rparr>" m]]) (use n it in \<open>auto split: option.splits\<close>)
  then show ?case unfolding n(1) prod.case runs_bnd
  proof (rule runs_conseq, goal_cases)
    case (1 y w'')
    obtain r it' where y: "y = (r, it')" by (cases y)
    show ?case
    proof (cases r)
      case None
      with 1 y have "{x \<in> dom T. n \<le> x \<and> x \<le> m} = {}" by simp
      then have "x < n" if "x \<in> dom T" "x \<le> m" for x using that by (metis (mono_tags, lifting) empty_iff linorder_not_le mem_Collect_eq)
      with n(5) have "set acc = {x \<in> dom T. fi_curfd it \<le> x \<and> x \<le> m}" by blast
      with n(4) have "acc = sorted_list_of_set {x \<in> dom T. fi_curfd it \<le> x \<and> x \<le> m}"
        by (metis sorted_list_of_set.idem_if_sorted_distinct strict_sorted_iff)
      with None 1 y it(1) show ?thesis by (auto simp: FdIter_drop_def wp)
    next
      case (Some fd)
      with 1 y have fd: "fd \<in> dom T" "n \<le> fd" "fd \<le> m" "{x \<in> dom T. n \<le> x \<and> x < fd} = {}"
        "it' = it\<lparr>fi_curfd := fd + 1\<rparr>" "fdt (kern w'') = T" by simp_all
      from fd(4) have "x < n \<or> x = fd" if "x \<in> dom T" "x < fd + 1" for x using that by (metis (mono_tags, lifting) empty_iff linorder_not_le mem_Collect_eq zless_add1_eq)
      with fd(1-3) n(2,5) have "set (acc @ [fd]) = {x \<in> dom T. fi_curfd it \<le> x \<and> x \<le> m \<and> x < fd + 1}"
        by fastforce
      moreover have "sorted_wrt (<) (acc @ [fd])" using n(4,5) fd(2) by (auto simp: sorted_wrt_append)
      ultimately show ?thesis using Some y fd n(2)
        by (simp add: wp) (intro exI [of _ "fd + 1"], simp)
    qed
  qed
next
  case 2
  show ?case using T by (auto intro!: exI [of _ "fi_curfd it"])
qed

text \<open>The maximum is asked for once, before the first descriptor is looked for.\<close>

lemma collect_maxfd:
  assumes "fi_dirfd_iter it = None" "fi_maxfd it = None"
  shows "FdIter_collect cfg os it = bnd (get_maxfd_direct cfg os it) (\<lambda>m.
    bnd (debug_assert (debug_assertions cfg) (- 1 \<le> m)) (\<lambda>_. FdIter_collect cfg os (it\<lparr>fi_maxfd := Some m\<rparr>)))"
proof -
  have "FdIter_next cfg os it = bnd (get_maxfd_direct cfg os it) (\<lambda>m.
      bnd (debug_assert (debug_assertions cfg) (- 1 \<le> m)) (\<lambda>_. FdIter_next cfg os (it\<lparr>fi_maxfd := Some m\<rparr>)))"
    using assms by (simp add: FdIter_next_def next_dirfd_def get_maxfd_def bnd_assoc)
  then have "FdIter_collect cfg os it = bnd (bnd (get_maxfd_direct cfg os it) (\<lambda>m.
      bnd (debug_assert (debug_assertions cfg) (- 1 \<le> m)) (\<lambda>_. ret m))) (\<lambda>m. FdIter_collect cfg os (it\<lparr>fi_maxfd := Some m\<rparr>))"
    unfolding FdIter_collect_def collect_def by (intro loop_m_first [where f = "\<lambda>m. ([], it\<lparr>fi_maxfd := Some m\<rparr>)"]) (simp add: bnd_assoc)
  then show ?thesis by (simp add: bnd_assoc)
qed

end

section \<open>A count that is out of date\<close>

lemma least_open_upto:
  assumes "finite (dom T)" "m \<in> dom T" "int (card {x \<in> dom T. x < m + 1}) = n"
  shows "least_open n T = {x \<in> dom T. x \<le> m}"
proof -
  have le: "{x \<in> dom T. x < m + 1} = {x \<in> dom T. x \<le> m}" by auto
  have "int (card {x \<in> dom T. x \<le> fd}) \<le> n \<longleftrightarrow> fd \<le> m" if fd: "fd \<in> dom T" for fd
  proof
    assume "fd \<le> m"
    then have "{x \<in> dom T. x \<le> fd} \<subseteq> {x \<in> dom T. x \<le> m}" by auto
    with assms(1) have "card {x \<in> dom T. x \<le> fd} \<le> card {x \<in> dom T. x \<le> m}" by (intro card_mono) simp_all
    with assms(3) show "int (card {x \<in> dom T. x \<le> fd}) \<le> n" unfolding le by simp
  next
    assume few: "int (card {x \<in> dom T. x \<le> fd}) \<le> n"
    show "fd \<le> m"
    proof (rule ccontr)
      assume "\<not> fd \<le> m"
      then have "{x \<in> dom T. x \<le> m} \<subset> {x \<in> dom T. x \<le> fd}" using fd by auto
      with assms(1) have "card {x \<in> dom T. x \<le> m} < card {x \<in> dom T. x \<le> fd}" by (intro psubset_card_mono) simp_all
      with few assms(3) show False unfolding le by simp
    qed
  qed
  then show ?thesis unfolding least_open_def by blast
qed

text \<open>A descriptor is not among the first \<open>n\<close> when \<open>n\<close> others are below it.\<close>

lemma not_least_open:
  assumes "finite (dom T')" "S \<subseteq> dom T'" "x \<in> dom T'" "x \<notin> S" "x < M" "\<forall>y\<in>S. y \<le> M" "n = int (card S)"
  shows "M \<notin> least_open n T'"
proof -
  have "insert x S \<subseteq> {y \<in> dom T'. y \<le> M}" using assms(2,3,5,6) by auto
  then have "card (insert x S) \<le> card {y \<in> dom T'. y \<le> M}" using assms(1) by (intro card_mono) simp_all
  moreover have "finite S" by (rule finite_subset [OF assms(2,1)])
  ultimately show ?thesis using assms(4,7) by (simp add: least_open_def)
qed

sublocale fd_kernel < tscan: table_scan cfg os fdt
  by unfold_locales (use fd_flags fd_range getfd_ret getfd_fdt in auto)

context fd_kernel
begin

lemma late_scan: "table_scan (late_os act os) fdt"
  by unfold_locales (use fd_flags fd_range getfd_ret getfd_fdt in \<open>auto simp: late_os_def\<close>)

lemma late_collect_runs:
  assumes "target cfg = Openbsd" "n = int (card (dom (fdt (kern w))))" "0 < n" "n < 100"
    and T': "T' = fdt (act (snd (os_getdtablecount os (kern w))))" "n \<le> int (card {fd \<in> dom T'. fd < n * 2})"
  shows "runs (bnd (iter_open_fds cfg (late_os act os) minfd) (FdIter_collect cfg (late_os act os))) w
    (\<lambda>l w'. l = sorted_list_of_set {fd \<in> least_open n T'. minfd \<le> fd} \<and> fdt (kern w') = T')"
proof -
  let ?os = "late_os act os"
  let ?it = "\<lparr>fi_dirfd_iter = None, fi_curfd = max minfd 0, fi_possible = False, fi_maxfd = None, fi_skip_nfds = False\<rparr>"
  have start: "bnd (iter_open_fds cfg ?os minfd) (FdIter_collect cfg ?os) = FdIter_collect cfg ?os ?it"
    using assms(1) by (simp add: iter_open_fds_def iter_from_def FdIterBuilder_new_def cfg_dirfd_def Let_def max_def)
  obtain v k where k: "os_getdtablecount os (kern w) = (v, k)" by fastforce
  have "v = n" using dtablecount_law [OF assms(1) k] assms(2) by (simp add: dom_def)
  then have direct: "get_maxfd_direct cfg ?os ?it w =
      bnd (nfds_to_maxfd cfg ?os n) (\<lambda>r. case r of Some m \<Rightarrow> ret m | None \<Rightarrow>
        bnd (sys (os_sysconf_open_max os)) (\<lambda>fdlimit.
        sub_i32 (overflow_checks cfg) (wrap_i32 (min (max fdlimit 1024) 65536)) 1)) (w\<lparr>kern := act k\<rparr>)"
    using assms(1) k by (simp add: get_maxfd_direct_def maxfd_netbsd_def maxfd_nfds_def get_nfds_def cfg_nfds_def late_os_def
      bnd_def sys_def ret_def)
  have T: "fdt (kern (w\<lparr>kern := act k\<rparr>)) = T'" "finite (dom T')" "\<And>fd. fd \<in> dom T' \<Longrightarrow> 0 \<le> fd \<and> fd < i32_MAX"
    using T'(1) k tscan.finite_dom fd_range by auto
  have "runs (bnd (nfds_to_maxfd cfg ?os n) (\<lambda>r. case r of Some m \<Rightarrow> ret m | None \<Rightarrow> f)) (w\<lparr>kern := act k\<rparr>)
      (\<lambda>m w'. fdt (kern w') = T' \<and> m \<in> dom T' \<and> int (card {x \<in> dom T'. x < m + 1}) = n)" for f
    unfolding runs_bnd
    by (rule runs_conseq [OF table_scan.nfds_exact [OF late_scan assms(3,4) T(1)]])
      (use T'(2) in \<open>auto simp: wp split: option.splits\<close>)
  then have "runs (get_maxfd_direct cfg ?os ?it) w (\<lambda>m w'. fdt (kern w') = T' \<and> m \<in> dom T' \<and>
      int (card {x \<in> dom T'. x < m + 1}) = n)"
    unfolding runs_def direct .
  then show ?thesis unfolding start table_scan.collect_maxfd [OF late_scan, of ?it, simplified] runs_bnd
  proof (rule runs_conseq, goal_cases)
    case (1 m w')
    with T(3) have m: "0 \<le> m" "m < i32_MAX" by auto
    have "{x \<in> dom T'. max minfd 0 \<le> x \<and> x \<le> m} = {fd \<in> least_open n T'. minfd \<le> fd}"
      using least_open_upto [OF T(2), of m n] 1 T(3) by auto
    with m 1 table_scan.collect_scan [OF late_scan, of w' T' "?it\<lparr>fi_maxfd := Some m\<rparr>" m cfg act] show ?case
      by (simp add: runs_debug_assert runs_ret conj_commute)
  qed
qed

end

section \<open>Properties\<close>

text \<open>
  C32. Without \<^verbatim>\<open>threadsafe(true)\<close> a descriptor can be missed, as the documentation of \<^verbatim>\<open>iter_open_fds\<close> warns. On OpenBSD, on
  any kernel that keeps the contract, let \<open>n\<close> descriptors be open, fewer than 100, when the iterator asks for their number, and let
  other threads then open some more and close none, at least one of the new ones below the largest that was open. If \<open>n\<close> of all these are below
  \<open>2 * n\<close>, where the iterator looks, then it lists the \<open>n\<close> least of them (from \<^verbatim>\<open>minfd\<close> on) and no other: the largest of the descriptors that were
  open at the start is not listed, although it is open from beginning to end.
\<close>

theorem stale_count_misses:
  assumes "fd_kernel cfg os fdt dirs open_max release osreldate dirs_work" "target cfg = Openbsd"
    and "n = int (card (dom (fdt (kern w))))" "0 < n" "n < 100"
    and "T' = fdt (act (snd (os_getdtablecount os (kern w))))" "fdt (kern w) \<subseteq>\<^sub>m T'"
    and "x \<in> dom T'" "x \<notin> dom (fdt (kern w))" "x < Max (dom (fdt (kern w)))"
    and "n \<le> int (card {fd \<in> dom T'. fd < n * 2})"
  shows "\<exists>w'. bnd (iter_open_fds cfg (late_os act os) minfd) (FdIter_collect cfg (late_os act os)) w =
      Some (Inr (sorted_list_of_set {fd \<in> least_open n T'. minfd \<le> fd}, w')) \<and> fdt (kern w') = T' \<and>
    Max (dom (fdt (kern w))) \<in> dom T' \<and> Max (dom (fdt (kern w))) \<notin> least_open n T'"
proof -
  let ?S = "dom (fdt (kern w))"
  have fin: "finite ?S" "finite (dom T')"
    using fd_kernel.finite_fds [OF assms(1)] assms(6) by (simp_all add: dom_def)
  have "?S \<noteq> {}" using assms(3,4) by auto
  with fin(1) have max: "Max ?S \<in> ?S" "\<forall>y\<in>?S. y \<le> Max ?S" by simp_all
  have sub: "?S \<subseteq> dom T'" by (rule map_le_implies_dom_le [OF assms(7)])
  with max(1) have "Max ?S \<in> dom T'" by blast
  moreover have "Max ?S \<notin> least_open n T'" by (rule not_least_open [OF fin(2) sub assms(8,9,10) max(2) assms(3)])
  ultimately show ?thesis
    using fd_kernel.late_collect_runs [where act = act and fdt = fdt and w = w, OF assms(1-6,11), of minfd]
    unfolding runs_def by blast
qed

end
