(* ===== verification/Spec2Isabelle.thy ===== *)
theory Spec2Isabelle
  imports Ref_Kernel Run_Tests Wraparound Stale_Count C_Ints
begin

text \<open>
  The crate \<^verbatim>\<open>close_fds\<close>: closing, or marking close-on-exec, every open file descriptor of a process except
  some, and iterating over the open descriptors. The development models the sources under \<^verbatim>\<open>src/\<close> of the
  repository, for all the targets they are written for, and proves what the public functions promise.

  \<^bold>\<open>Parts of the crate and the theories that model them.\<close>

  \<^item> \<open>Prelude\<close>: programs as functions from a state to \<open>None\<close> (never returns), a fault (panic on overflow,
    debug assertion, index out of range, undefined behaviour, a failed \<^verbatim>\<open>assert!\<close> or \<^verbatim>\<open>unwrap()\<close>, \<^verbatim>\<open>panic!\<close>) or a result and a state;
    \<open>loop_m\<close> for the loops; \<open>runs\<close>, total correctness, with its rules; \<open>loop_m_returns\<close>, what holds of a value that a loop returns.
  \<^item> \<open>Platform\<close> (\<^verbatim>\<open>src/sys.rs\<close>, the \<^verbatim>\<open>cfg\<close> attributes): targets, build configuration, the layout of
    \<^verbatim>\<open>sys::dirent\<close>, and the foreign functions as the record \<open>'k os\<close> over an unknown kernel state \<open>'k\<close>. The
    record \<open>'k world\<close> holds the kernel and the crate's static atomics.
  \<^item> \<open>Util\<close> (\<^verbatim>\<open>src/util.rs\<close>): \<^verbatim>\<open>inspect_keep_fds\<close>, \<^verbatim>\<open>simplify_keep_fds\<close>, \<^verbatim>\<open>check_should_keep\<close>, \<^verbatim>\<open>is_wsl_1\<close>,
    \<^verbatim>\<open>is_fd_valid\<close>, \<^verbatim>\<open>apply_range\<close>, \<^verbatim>\<open>set_cloexec\<close>. The specification of \<^verbatim>\<open>apply_range\<close> is the list \<open>gaps\<close>.
  \<^item> \<open>Dirents\<close> (\<^verbatim>\<open>getdents\<close> and \<^verbatim>\<open>parse_int_bytes\<close> of \<^verbatim>\<open>src/iterfds/dirfd.rs\<close>), with the byte format of
    directory entries as specification.
  \<^item> \<open>Kernel\<close>: the locale \<open>fd_kernel\<close>, the contract of the operating system, and the locale \<open>shared_kernel\<close>, the weaker
    contract that an iterator needs and that is kept when other threads run. The iterators are verified in the
    second and reach the first through a \<^verbatim>\<open>sublocale\<close>.
  \<^item> \<open>Dir_Fd\<close> (\<^verbatim>\<open>DirFdIter\<close> of \<^verbatim>\<open>src/iterfds/dirfd.rs\<close>) and \<open>Fd_Iter\<close> (\<^verbatim>\<open>FdIter\<close> of
    \<^verbatim>\<open>src/iterfds/fditer.rs\<close>): the two iterators with their invariants \<open>dir_rest\<close> and \<open>it_inv\<close>.
  \<^item> \<open>Fd_Source\<close>: the interfaces between the iterator and its clients as locales (\<open>fd_source\<close>, \<open>fd_visitor\<close>,
    \<open>fd_sweeper\<close>, and \<open>range_op\<close> for the callbacks of \<^verbatim>\<open>apply_range\<close>); the loops of the clients are proved in them,
    and every contract is discharged for the definitions of the crate by a \<^verbatim>\<open>sublocale\<close> of \<open>fd_kernel\<close> or of the
    locales between. \<open>cloexec_kernel\<close> in \<open>Cloexec\<close> is the contract of the functions that set the flag.
  \<^item> \<open>Iter_Fds\<close> (\<^verbatim>\<open>src/iterfds/mod.rs\<close>): \<^verbatim>\<open>FdIterBuilder\<close> and the functions \<^verbatim>\<open>iter_*\<close>; \<^verbatim>\<open>FdIter\<close> refines the list
    iterator \<open>spec_next\<close>. \<open>Size_Hint\<close>: the bounds of \<^verbatim>\<open>size_hint\<close>.
  \<^item> \<open>Keep_Fds\<close>, \<open>Close\<close>, \<open>Cloexec\<close>, \<open>Close_Fds\<close> (\<^verbatim>\<open>src/closefds/\<close>, \<^verbatim>\<open>src/lib.rs\<close>): \<^verbatim>\<open>KeepFds\<close>, closing, setting
    the flag, and the public interface with \<^verbatim>\<open>probe_features\<close>.
  \<^item> \<open>Statics\<close>: the step relation \<open>api_step\<close> of a program that uses the crate, and what holds of the static atomics
    in every history of calls. The locale \<open>world_frame\<close> walks once over all the code, and is interpreted for four relations;
    \<open>noting_os\<close> is any operating system with a record of its answers.
  \<^item> \<open>Threads\<close>: the operating system as one thread of several sees it (\<open>threads_os\<close>), the locale \<open>fd_threads\<close> of what
    the others may do, and the thread-safe functions among them.
  \<^item> \<open>Ref_Kernel\<close>: an executable kernel, and the interpretations of \<open>fd_kernel\<close> and \<open>fd_threads\<close> on it for every target,
    every combination of features and every schedule of the other threads. The examples of this theory run the crate's model on it.
  \<^item> \<open>Stale_Count\<close>: the locale \<open>table_scan\<close>, what the search by count and the scan need of the kernel, and an operating system \<open>late_os\<close> on which
    others have a turn right after the count. \<open>C_Ints\<close>: the numbers of type \<^verbatim>\<open>c_int\<close> stay 32-bit integers.
  \<^item> \<open>Wraparound\<close>: what the public functions do where \<^verbatim>\<open>minfd\<close> is incremented past \<^verbatim>\<open>i32::MAX\<close>.
  \<^item> \<open>File_Kernel\<close>: the locale \<open>file_kernel\<close>, \<open>fd_kernel\<close> with what the programs around the crate rely on, interpreted in \<open>Ref_Kernel\<close>.
  \<^item> \<open>Unit_Tests\<close> and \<open>Iter_Tests\<close> (the test modules of \<^verbatim>\<open>src/util.rs\<close>, \<^verbatim>\<open>src/iterfds/dirfd.rs\<close> and \<^verbatim>\<open>src/iterfds/mod.rs\<close>), \<open>Command_Close\<close>
    (\<^verbatim>\<open>examples/command-close.rs\<close>), and for \<^verbatim>\<open>tests/test_close_fds.rs\<close> \<open>Integration_Tests\<close> (\<^verbatim>\<open>run_no_fds_tests\<close>, \<^verbatim>\<open>run_basic_test\<close> and its callbacks),
    \<open>Large_Test\<close> (\<^verbatim>\<open>large_open_fds_test\<close>) and \<open>Run_Tests\<close> (\<^verbatim>\<open>run_tests\<close>): programs that use the crate, in which a failed assertion is a fault.
  \<^item> \<open>Possible_Iter\<close>: what an iterator over the possible descriptors delivers where that is determined, as one more \<^verbatim>\<open>sublocale\<close> of \<open>fd_kernel\<close> to
    \<open>fd_source\<close>; \<^verbatim>\<open>iter_possible_fds_test\<close> rests on it.

  \<^bold>\<open>State and operations.\<close> A Rust function that changes \<^verbatim>\<open>self\<close> or a \<^verbatim>\<open>&mut\<close> argument returns its new value
  beside the result. \<^verbatim>\<open>#[cfg(target_os)]\<close> is a case distinction on \<open>target cfg\<close>; a \<^verbatim>\<open>debug_assert!\<close> is \<open>debug_assert\<close>;
  \<^verbatim>\<open>+\<close> and \<^verbatim>\<open>-\<close> on \<^verbatim>\<open>c_int\<close> are \<open>add_i32\<close> and \<open>sub_i32\<close>, which panic or wrap with the build profile; \<^verbatim>\<open>as c_uint\<close> is
  a 32-bit word. Dropping an iterator is an explicit call wherever the sources drop one. \<^verbatim>\<open>&mut Self\<close>
  builders are functions on records. Relaxed loads and stores of the atomics are reads and writes of the
  world.

  \<^bold>\<open>What is assumed of the kernel.\<close> The theorems of this theory hold for every kernel in \<open>fd_kernel\<close>: laws, call by
  call, on two views of its state, the descriptor table and the read positions of descriptor
  directories. Any call may fail where the documentation lets it. \<open>statics_ok\<close> says that the cached
  answer about WSL 1, if there is one, is the right one, and that FreeBSD's \<^verbatim>\<open>close_range()\<close> is remembered as present only if the kernel is new enough;
  it holds initially and every operation keeps it. It does not say that a system call remembered as missing is missing: the crate gives up \<^verbatim>\<open>close_range()\<close>
  after any failure of it, and falls back on slower ways. \<open>reaches\<close> is the condition under which no
  descriptor can be missed: either the directory can be opened and read, or every open descriptor is at most the
  limit of the scan (65535 at most, the clamp in \<^verbatim>\<open>get_maxfd_direct\<close>). \<open>keep_arg\<close> is the
  condition on the list of descriptors to keep: it does not hold every number from \<^verbatim>\<open>minfd\<close> to \<^verbatim>\<open>i32::MAX\<close>, and \<^verbatim>\<open>i32::MAX\<close> is in it only if overflow
  checks and debug assertions are off. The properties \<open>apply_range_overflow\<close> and \<open>minfd_wraps_around\<close> show what happens otherwise.

  \<^bold>\<open>What is proved.\<close> The public functions return, without fault, and have exactly the promised effect on
  the descriptor table (\<open>close_open_fds_correct\<close>, \<open>set_fds_cloexec_correct\<close> and its thread-safe variant,
  \<open>closefrom_builder_correct\<close>, \<open>iter_open_fds_exact\<close>, \<open>iter_possible_fds_superset\<close>, \<open>FdIter_min_max\<close>,
  \<open>probe_features_harmless\<close>) and fit together (\<open>probe_close_iterate\<close>). The iterator refines a list
  (\<open>FdIter_next_refines\<close>), \<^verbatim>\<open>size_hint\<close> is right (\<open>size_hint_bounds\<close>), and \<open>statics_ok\<close> holds
  in every world that calls of the crate can produce (\<open>reachable_statics_ok\<close>). On any kernel at all: the atomics only gain knowledge (\<open>atomics_monotone\<close>)
  and change only after an answer of the kernel that justifies it (\<open>atomics_backed\<close>), the iterator is
  fused, the search for the maximum ends, \<^verbatim>\<open>probe_features\<close> and \<^verbatim>\<open>is_wsl_1\<close> ask once, the numbers an iterator holds and delivers are 32-bit integers
  (\<open>c_int_typing\<close>), and an old FreeBSD kernel is never sent \<^verbatim>\<open>close_range()\<close>, whatever calls were made before (\<open>freebsd_old_kernel_no_close_range\<close>). The helpers are proved equal to their specifications.
  Among other threads that open and close descriptors before each system call, the thread-safe iterator and
  \<^verbatim>\<open>set_fds_cloexec_threadsafe\<close> reach every descriptor that stays open (\<open>threadsafe_iteration\<close>,
  \<open>set_fds_cloexec_among_threads\<close>), and \<open>stale_count_misses\<close> shows, for every kernel
  in \<open>fd_kernel\<close>, why the plain functions do not promise it.
  The unit tests, the integration tests and the example pass on every kernel in \<open>file_kernel\<close> (\<open>pure_unit_tests_pass\<close>,
  \<open>descriptor_unit_tests_pass\<close>, \<open>size_hint_tests_pass\<close>, \<open>fused_tests_pass\<close>, \<open>basic_tests_pass\<close>, \<open>no_fds_child_exits_zero\<close>,
  \<open>run_tests_pass\<close>, \<open>command_close_survivors\<close>): what the repository tests on one machine holds on all. The exception is \<^verbatim>\<open>iter_possible_fds_test\<close>,
  and with it \<^verbatim>\<open>run_tests\<close>: it expects several iterators over the possible descriptors to deliver the same, which is shown for \<open>settled\<close> targets; on
  NetBSD, FreeBSD and OpenBSD, or where reading the directory fails, an iterator depends on calls that may fail one time and not the next.
  No fuel is used: every loop is \<open>loop_m\<close>, and its termination is part of each theorem about what a function does; the properties over
  histories of calls and \<open>c_int_typing\<close> speak of calls that return.

  \<^bold>\<open>What is not modelled.\<close> The continuous-integration files; \<^verbatim>\<open>#[derive(Clone, Debug)]\<close>;
  signals; the rule that a Rust reference must point to a whole value (\<^verbatim>\<open>get_entry_info\<close> makes one that extends past its buffer): an access counts by the bytes it reads; other threads that call the crate at the same time and race for its atomics (the properties of \<open>Statics\<close> describe calls one after the other);
  a call that panics after it has written an atomic (a fault carries no state, so it is not an \<open>api_step\<close>). Offsets and counts in the directory buffer, of type \<^verbatim>\<open>usize\<close>, are natural numbers without a bound:
  they are sums of 16-bit record lengths within one buffer. Closing descriptors while other threads use them is what
  the sources declare \<^verbatim>\<open>unsafe\<close>, and nothing is claimed about it.
\<close>

section \<open>Lemmas\<close>

lemma statics_ok_init: "statics_ok release osreldate (init_world k)"
  by (simp add: statics_ok_def init_world_def)

lemma last_sorted_list:
  assumes "finite S" "S \<noteq> {}"
  shows "last (sorted_list_of_set S) = Max (S :: int set)"
proof (rule Max_eqI [symmetric])
  show "last (sorted_list_of_set S) \<in> S" using assms last_in_set [of "sorted_list_of_set S"] by simp
  show "y \<le> last (sorted_list_of_set S)" if "y \<in> S" for y
    using that assms by (intro sorted_le_last) simp_all
qed (rule assms)

text \<open>The table without the descriptors from \<open>minfd\<close> on that are not to be kept, pointwise.\<close>

lemma upd_from:
  assumes "\<And>fd fl. T fd = Some fl \<Longrightarrow> 0 \<le> fd" "eff None = None"
  shows "upd eff ({max minfd 0..} - K) T fd = (if minfd \<le> fd \<and> fd \<notin> K then eff (T fd) else T fd)"
  using assms by (cases "T fd") (auto simp: upd_apply)

context fd_kernel
begin

lemma upd_from_fdt:
  "eff None = None \<Longrightarrow>
   upd eff ({max minfd 0..} - K) (fdt k) fd = (if minfd \<le> fd \<and> fd \<notin> K then eff (fdt k fd) else fdt k fd)"
  by (rule upd_from) (auto dest: fd_range)

end

section \<open>Properties\<close>

text \<open>
  C1. \<^verbatim>\<open>close_open_fds(minfd, keep_fds)\<close> returns, without panic, overflow or undefined behaviour, and leaves
  open exactly the descriptors below \<^verbatim>\<open>minfd\<close> and those in \<^verbatim>\<open>keep_fds\<close>, with their flags unchanged; the
  descriptor of the directory it may have used is closed again. This holds on every target, for every
  kernel that keeps the contract, whichever of its calls fail, and whatever earlier calls have left in the
  crate's atomics. \<^verbatim>\<open>keep_fds\<close> may be any list, in any order and with repetitions, that does not hold every number from \<^verbatim>\<open>minfd\<close> to
  \<^verbatim>\<open>i32::MAX\<close>; \<^verbatim>\<open>i32::MAX\<close> may be in it when overflow checks and debug assertions are off.
\<close>

theorem close_open_fds_correct:
  assumes "fd_kernel cfg os fdt dirs open_max release osreldate dirs_work"
    and "statics_ok release osreldate w" "minfd \<le> i32_MAX" "keep_arg cfg minfd keep"
    and "reaches cfg open_max dirs_work FdIterBuilder_new (fdt (kern w))"
  shows "\<exists>w'. close_open_fds cfg os minfd keep w = Some (Inr ((), w')) \<and> statics_ok release osreldate w' \<and>
    (\<forall>fd. fdt (kern w') fd = (if minfd \<le> fd \<and> fd \<notin> set keep then None else fdt (kern w) fd))"
  using fd_kernel.close_open_fds_runs [OF assms] fd_kernel.upd_from_fdt [OF assms(1), of eff_close minfd "set keep" "kern w"]
  by (auto elim!: runsE)

definition example_kernel :: rk where
  "example_kernel = \<lparr>rk_tab = [(0, 0), (1, 0), (2, 0), (3, 1), (5, 0), (8, 0)], rk_dirs = [], rk_errno = 0\<rparr>"

lemma example_slot: "has_slot ref_open_max (ref_fdt example_kernel)"
  by (auto simp: has_slot_def ref_open_max_def ref_fdt_def example_kernel_def intro!: exI [of _ 4])

lemma example_reaches:
  "reaches (ref_config Linux dbg be) ref_open_max (ref_dirs_work Linux True) FdIterBuilder_new (ref_fdt (kern (init_world example_kernel)))"
  using example_slot
  by (simp add: reaches_def ref_dirs_work_def ref_config_def cfg_dirfd_def FdIterBuilder_new_def init_world_def)

lemma example_fdt:
  "ref_fdt (kern (init_world example_kernel)) 3 = Some 1" "ref_fdt (kern (init_world example_kernel)) 5 = Some 0"
  "ref_fdt (kern (init_world example_kernel)) 8 = Some 0" "ref_fdt (kern (init_world example_kernel)) 2 = Some 0"
  by (simp_all add: ref_fdt_def example_kernel_def init_world_def)

theorem close_open_fds_correct_witness:
  "(\<exists>w'. close_open_fds (ref_config Linux True False) (ref_os Linux False False True) 3 [8, 3] (init_world example_kernel) =
      Some (Inr ((), w')) \<and>
    ref_fdt (kern w') 2 = Some 0 \<and> ref_fdt (kern w') 3 = Some 1 \<and> ref_fdt (kern w') 5 = None \<and> ref_fdt (kern w') 8 = Some 0) \<and>
   (\<exists>w'. close_open_fds (ref_config Linux False False) (ref_os Linux False True True) 3 [5, i32_MAX] (init_world example_kernel) =
      Some (Inr ((), w')) \<and>
    ref_fdt (kern w') 2 = Some 0 \<and> ref_fdt (kern w') 3 = None \<and> ref_fdt (kern w') 5 = Some 0 \<and> ref_fdt (kern w') 8 = None)"
proof (rule conjI [rotated])
  have "\<not> {max 3 0..i32_MAX} \<subseteq> set [5, i32_MAX]" by (rule has_other [of _ 4]) simp_all
  then have "keep_arg (ref_config Linux False False) 3 [5, i32_MAX]" by (simp add: keep_arg_def keepable_def in_i32_def ref_config_def)
  then obtain w' where "close_open_fds (ref_config Linux False False) (ref_os Linux False True True) 3 [5, i32_MAX] (init_world example_kernel) =
      Some (Inr ((), w'))"
    "\<forall>fd. ref_fdt (kern w') fd = (if 3 \<le> fd \<and> fd \<notin> set [5, i32_MAX] then None else ref_fdt (kern (init_world example_kernel)) fd)"
    using close_open_fds_correct [OF rk.fd_kernel_axioms [of Linux False False True True] statics_ok_init _ _ example_reaches, of 3 "[5, i32_MAX]"] by auto
  then show "\<exists>w'. close_open_fds (ref_config Linux False False) (ref_os Linux False True True) 3 [5, i32_MAX] (init_world example_kernel) =
      Some (Inr ((), w')) \<and>
    ref_fdt (kern w') 2 = Some 0 \<and> ref_fdt (kern w') 3 = None \<and> ref_fdt (kern w') 5 = Some 0 \<and> ref_fdt (kern w') 8 = None"
    by (simp add: example_fdt)
next
  have "keep_arg (ref_config Linux True False) 3 [8, 3]" by (rule keep_argI) (simp_all add: in_i32_def)
  then obtain w' where "close_open_fds (ref_config Linux True False) (ref_os Linux False False True) 3 [8, 3] (init_world example_kernel) =
      Some (Inr ((), w'))"
    "\<forall>fd. ref_fdt (kern w') fd = (if 3 \<le> fd \<and> fd \<notin> set [8, 3] then None else ref_fdt (kern (init_world example_kernel)) fd)"
    using close_open_fds_correct [OF rk.fd_kernel_axioms [of Linux True False False True] statics_ok_init _ _ example_reaches, of 3 "[8, 3]"] by auto
  then show "\<exists>w'. close_open_fds (ref_config Linux True False) (ref_os Linux False False True) 3 [8, 3] (init_world example_kernel) =
      Some (Inr ((), w')) \<and>
    ref_fdt (kern w') 2 = Some 0 \<and> ref_fdt (kern w') 3 = Some 1 \<and> ref_fdt (kern w') 5 = None \<and> ref_fdt (kern w') 8 = Some 0"
    by (simp add: example_fdt)
qed

text \<open>
  C2. \<^verbatim>\<open>set_fds_cloexec(minfd, keep_fds)\<close> returns, without panic, overflow or undefined behaviour, and sets
  the close-on-exec flag of exactly the open descriptors from \<^verbatim>\<open>minfd\<close> on that are not in \<^verbatim>\<open>keep_fds\<close>; every
  other flag, every other descriptor and the set of open descriptors are unchanged.
\<close>

theorem set_fds_cloexec_correct:
  assumes "fd_kernel cfg os fdt dirs open_max release osreldate dirs_work"
    and "statics_ok release osreldate w" "minfd \<le> i32_MAX" "keep_arg cfg minfd keep"
    and "reaches cfg open_max dirs_work FdIterBuilder_new (fdt (kern w))"
  shows "\<exists>w'. set_fds_cloexec cfg os minfd keep w = Some (Inr ((), w')) \<and> statics_ok release osreldate w' \<and>
    (\<forall>fd. fdt (kern w') fd = (if minfd \<le> fd \<and> fd \<notin> set keep
       then map_option (\<lambda>fl. fl OR c_FD_CLOEXEC os) (fdt (kern w) fd) else fdt (kern w) fd))"
  using fd_kernel.set_fds_cloexec_runs [OF assms, of set_fds_cloexec]
    fd_kernel.upd_from_fdt [OF assms(1), of "eff_cloexec (c_FD_CLOEXEC os)" minfd "set keep" "kern w"]
  by (auto simp: eff_cloexec_def elim!: runsE)

theorem set_fds_cloexec_correct_witness:
  "\<exists>w'. set_fds_cloexec (ref_config Linux True False) (ref_os Linux False True True) 3 [5] (init_world example_kernel) =
      Some (Inr ((), w')) \<and>
    ref_fdt (kern w') 2 = Some 0 \<and> ref_fdt (kern w') 3 = Some 1 \<and> ref_fdt (kern w') 5 = Some 0 \<and> ref_fdt (kern w') 8 = Some 1"
proof -
  have "keep_arg (ref_config Linux True False) 3 [5]" "c_FD_CLOEXEC (ref_os Linux False True True) = 1"
    by (rule keep_argI) (simp_all add: in_i32_def ref_os_simps)
  then obtain w' where "set_fds_cloexec (ref_config Linux True False) (ref_os Linux False True True) 3 [5] (init_world example_kernel) =
      Some (Inr ((), w'))"
    "\<forall>fd. ref_fdt (kern w') fd = (if 3 \<le> fd \<and> fd \<notin> set [5] then map_option (\<lambda>fl. fl OR 1) (ref_fdt (kern (init_world example_kernel)) fd)
      else ref_fdt (kern (init_world example_kernel)) fd)"
    using set_fds_cloexec_correct [OF rk.fd_kernel_axioms [of Linux True False True True] statics_ok_init _ _ example_reaches, of 3 "[5]"]
    by auto
  then show ?thesis by (simp add: example_fdt)
qed

text \<open>
  C19. \<^verbatim>\<open>set_fds_cloexec_threadsafe\<close> has the same effect as \<^verbatim>\<open>set_fds_cloexec\<close>: the flag is set on exactly the
  open descriptors from \<^verbatim>\<open>minfd\<close> on that are not in \<^verbatim>\<open>keep_fds\<close>.
\<close>

theorem set_fds_cloexec_threadsafe_correct:
  assumes "fd_kernel cfg os fdt dirs open_max release osreldate dirs_work"
    and "statics_ok release osreldate w" "minfd \<le> i32_MAX" "keep_arg cfg minfd keep"
    and "reaches cfg open_max dirs_work FdIterBuilder_new (fdt (kern w))"
  shows "\<exists>w'. set_fds_cloexec_threadsafe cfg os minfd keep w = Some (Inr ((), w')) \<and> statics_ok release osreldate w' \<and>
    (\<forall>fd. fdt (kern w') fd = (if minfd \<le> fd \<and> fd \<notin> set keep
       then map_option (\<lambda>fl. fl OR c_FD_CLOEXEC os) (fdt (kern w) fd) else fdt (kern w) fd))"
  using fd_kernel.set_fds_cloexec_runs [OF assms, of set_fds_cloexec_threadsafe]
    fd_kernel.upd_from_fdt [OF assms(1), of "eff_cloexec (c_FD_CLOEXEC os)" minfd "set keep" "kern w"]
  by (auto simp: eff_cloexec_def elim!: runsE)

lemma example_reaches_scan:
  "reaches cfg ref_open_max dw b (ref_fdt (kern (init_world example_kernel)))"
  by (auto simp: reaches_def ref_fdt_def example_kernel_def init_world_def scan_max_def ref_open_max_def split: if_splits)

theorem set_fds_cloexec_threadsafe_correct_witness:
  "\<exists>w'. set_fds_cloexec_threadsafe (ref_config Openbsd True False) (ref_os Openbsd False False False) 3 [5] (init_world example_kernel) =
      Some (Inr ((), w')) \<and> ref_fdt (kern w') 5 = Some 0 \<and> ref_fdt (kern w') 8 = Some 1"
proof -
  have "keep_arg (ref_config Openbsd True False) 3 [5]" "c_FD_CLOEXEC (ref_os Openbsd False False False) = 1"
    by (rule keep_argI) (simp_all add: in_i32_def ref_os_simps)
  then obtain w' where "set_fds_cloexec_threadsafe (ref_config Openbsd True False) (ref_os Openbsd False False False) 3 [5] (init_world example_kernel) =
      Some (Inr ((), w'))"
    "\<forall>fd. ref_fdt (kern w') fd = (if 3 \<le> fd \<and> fd \<notin> set [5] then map_option (\<lambda>fl. fl OR 1) (ref_fdt (kern (init_world example_kernel)) fd)
      else ref_fdt (kern (init_world example_kernel)) fd)"
    using set_fds_cloexec_threadsafe_correct [OF rk.fd_kernel_axioms [of Openbsd True False False False] statics_ok_init _ _ example_reaches_scan, of 3 "[5]"]
    by auto
  then show ?thesis by (simp add: example_fdt)
qed

text \<open>
  C4. Collecting \<^verbatim>\<open>iter_open_fds(minfd)\<close> gives exactly the open descriptors from \<^verbatim>\<open>minfd\<close> on, in ascending order
  and without repetition, and leaves the descriptor table as it was: the descriptor the iterator opens for
  itself is neither listed nor leaked.
\<close>

theorem iter_open_fds_exact:
  assumes "fd_kernel cfg os fdt dirs open_max release osreldate dirs_work"
    and "statics_ok release osreldate w" "minfd \<le> i32_MAX"
    and "reaches cfg open_max dirs_work FdIterBuilder_new (fdt (kern w))"
  shows "\<exists>w'. bnd (iter_open_fds cfg os minfd) (FdIter_collect cfg os) w =
      Some (Inr (sorted_list_of_set {fd. fdt (kern w) fd \<noteq> None \<and> minfd \<le> fd}, w')) \<and> fdt (kern w') = fdt (kern w)"
  using fd_kernel.collect_iter_from [OF assms]
  by (auto simp: iter_open_fds_def FdIterBuilder_new_def open_from_def elim!: runsE)

theorem iter_open_fds_exact_witness:
  "\<exists>w'. bnd (iter_open_fds (ref_config Linux True False) (ref_os Linux False False True) 2)
      (FdIter_collect (ref_config Linux True False) (ref_os Linux False False True)) (init_world example_kernel) =
      Some (Inr ([2, 3, 5, 8], w')) \<and> ref_fdt (kern w') = ref_fdt example_kernel"
proof -
  have "{fd. ref_fdt (kern (init_world example_kernel)) fd \<noteq> None \<and> 2 \<le> fd} = {2, 3, 5, 8}"
    by (auto simp: ref_fdt_def example_kernel_def init_world_def split: if_splits)
  then show ?thesis
    using iter_open_fds_exact [OF rk.fd_kernel_axioms [of Linux True False False True] statics_ok_init _ example_reaches, of 2]
    by (simp add: init_world_def)
qed

text \<open>
  C18. With \<^verbatim>\<open>possible(true)\<close>, collecting \<^verbatim>\<open>iter_possible_fds(minfd)\<close> gives a strictly ascending list of numbers
  from \<^verbatim>\<open>minfd\<close> on that misses no open descriptor, and leaves the descriptor table as it was.
\<close>

theorem iter_possible_fds_superset:
  assumes "fd_kernel cfg os fdt dirs open_max release osreldate dirs_work"
    and "statics_ok release osreldate w" "minfd \<le> i32_MAX"
    and "reaches cfg open_max dirs_work FdIterBuilder_new (fdt (kern w))"
  shows "\<exists>l w'. bnd (iter_possible_fds cfg os minfd) (FdIter_collect cfg os) w = Some (Inr (l, w')) \<and>
    sorted_wrt (<) l \<and> (\<forall>fd\<in>set l. minfd \<le> fd) \<and> (\<forall>fd. fdt (kern w) fd \<noteq> None \<and> minfd \<le> fd \<longrightarrow> fd \<in> set l) \<and>
    fdt (kern w') = fdt (kern w)"
proof -
  have "reaches cfg open_max dirs_work (possible True FdIterBuilder_new) (fdt (kern w))"
    by (rule reaches_mono [OF assms(4)]) (simp_all add: possible_def)
  note run = fd_kernel.collect_iter_from [OF assms(1-3) this]
  have "finite {fd. fdt (kern w) fd \<noteq> None \<and> minfd \<le> fd}"
    by (rule rev_finite_subset [OF fd_kernel.finite_fds [OF assms(1), of "kern w"]]) auto
  then have "set (open_from (fdt (kern w)) minfd) = {fd. fdt (kern w) fd \<noteq> None \<and> minfd \<le> fd}"
    by (simp add: open_from_def)
  with run show ?thesis unfolding iter_possible_fds_def by (elim runsE) (auto simp: subset_iff)
qed

theorem iter_possible_fds_superset_witness:
  "\<exists>l w'. bnd (iter_possible_fds (ref_config Linux True False) (ref_os Linux False False False) 2)
      (FdIter_collect (ref_config Linux True False) (ref_os Linux False False False)) (init_world example_kernel) =
      Some (Inr (l, w')) \<and> {2, 3, 5, 8} \<subseteq> set l"
  using iter_possible_fds_superset [OF rk.fd_kernel_axioms [of Linux True False False False] statics_ok_init _ example_reaches_scan, of 2]
  by (fastforce simp: example_fdt)

text \<open>
  C17. \<^verbatim>\<open>FdIter::min\<close> and \<^verbatim>\<open>FdIter::max\<close>, which take shortcuts over the default methods of \<^verbatim>\<open>Iterator\<close>, return the
  least and the largest of the open descriptors from \<^verbatim>\<open>minfd\<close> on, or \<open>None\<close> when there is none.
\<close>

theorem FdIter_min_max:
  assumes "fd_kernel cfg os fdt dirs open_max release osreldate dirs_work"
    and "statics_ok release osreldate w" "minfd \<le> i32_MAX"
    and "reaches cfg open_max dirs_work FdIterBuilder_new (fdt (kern w))"
    and "S = {fd. fdt (kern w) fd \<noteq> None \<and> minfd \<le> fd}"
  shows "(\<exists>w'. bnd (iter_open_fds cfg os minfd) (FdIter_min cfg os) w = Some (Inr (if S = {} then None else Some (Min S), w'))) \<and>
    (\<exists>w'. bnd (iter_open_fds cfg os minfd) (FdIter_max cfg os) w = Some (Inr (if S = {} then None else Some (Max S), w')))"
proof -
  have fin: "finite S" unfolding assms(5)
    by (rule rev_finite_subset [OF fd_kernel.finite_fds [OF assms(1), of "kern w"]]) auto
  have o: "open_from (fdt (kern w)) minfd = sorted_list_of_set S" by (simp add: open_from_def assms(5))
  have h: "hd (sorted_list_of_set S) = Min S" "last (sorted_list_of_set S) = Max S" if "S \<noteq> {}"
    by (subst sorted_list_of_set_nonempty [OF fin that], simp) (rule last_sorted_list [OF fin that])
  have e: "sorted_list_of_set S = [] \<longleftrightarrow> S = {}" using fin by simp
  have np: "\<not> b_possible FdIterBuilder_new" by (simp add: FdIterBuilder_new_def)
  have "runs (bnd (iter_open_fds cfg os minfd) (FdIter_min cfg os)) w (\<lambda>r _. r = (if S = {} then None else Some (Min S)))"
    unfolding iter_open_fds_def
    by (rule runs_conseq [OF fd_kernel.min_iter_from [OF assms(1-4) np]]) (simp add: o e h)
  moreover have "runs (bnd (iter_open_fds cfg os minfd) (FdIter_max cfg os)) w (\<lambda>r _. r = (if S = {} then None else Some (Max S)))"
    unfolding iter_open_fds_def
    by (rule runs_conseq [OF fd_kernel.max_iter_from [OF assms(1-4) np]]) (simp add: o e h)
  ultimately show ?thesis unfolding runs_def by blast
qed

theorem FdIter_min_max_witness:
  "\<exists>w1 w2. bnd (iter_open_fds (ref_config Netbsd True False) (ref_os Netbsd False False True) 4)
      (FdIter_min (ref_config Netbsd True False) (ref_os Netbsd False False True)) (init_world example_kernel) = Some (Inr (Some 5, w1)) \<and>
    bnd (iter_open_fds (ref_config Netbsd True False) (ref_os Netbsd False False True) 4)
      (FdIter_max (ref_config Netbsd True False) (ref_os Netbsd False False True)) (init_world example_kernel) = Some (Inr (Some 8, w2))"
proof -
  have S: "{fd. ref_fdt (kern (init_world example_kernel)) fd \<noteq> None \<and> 4 \<le> fd} = {5, 8}"
    by (auto simp: ref_fdt_def example_kernel_def init_world_def split: if_splits)
  then show ?thesis
    using FdIter_min_max [OF rk.fd_kernel_axioms [of Netbsd True False False True] statics_ok_init _ example_reaches_scan S [symmetric]]
    by simp
qed

text \<open>
  C11. \<^verbatim>\<open>CloseFdsBuilder\<close> with any of its options: after \<^verbatim>\<open>keep_fds_sorted\<close> (on a sorted list), \<^verbatim>\<open>threadsafe\<close> and
  \<^verbatim>\<open>allow_filesystem\<close>, in any setting, \<^verbatim>\<open>closefrom(minfd)\<close> leaves open exactly the descriptors below \<^verbatim>\<open>minfd\<close> and
  those in the list.
\<close>

theorem closefrom_builder_correct:
  assumes "fd_kernel cfg os fdt dirs open_max release osreldate dirs_work"
    and "statics_ok release osreldate w" "minfd \<le> i32_MAX" "keep_arg cfg minfd keep" "sorted keep"
    and "b = cb_allow_filesystem cfg fs (cb_threadsafe cfg t (keep_fds_sorted keep CloseFdsBuilder_new))"
    and "reaches cfg open_max dirs_work (cb_it b) (fdt (kern w))"
  shows "\<exists>w'. closefrom cfg os b minfd w = Some (Inr ((), w')) \<and>
    (\<forall>fd. fdt (kern w') fd = (if minfd \<le> fd \<and> fd \<notin> set keep then None else fdt (kern w) fd))"
proof -
  have "cb_keep_fds b = KeepFds_new_sorted keep" unfolding assms(6)
    by (simp add: cb_allow_filesystem_def cb_threadsafe_def keep_fds_sorted_def)
  then have k: "keep_ok cfg (max minfd 0) (cb_keep_fds b)" "k_fds (cb_keep_fds b) = keep"
    using keep_ok_new_sorted [OF assms(5)] assms(4) by (simp_all add: keep_arg_def KeepFds_new_sorted_def)
  show ?thesis
    using fd_kernel.closefrom_runs [OF assms(1,2,3) k(1) assms(7)] k(2)
      fd_kernel.upd_from_fdt [OF assms(1), of eff_close minfd "set keep" "kern w"]
    by (auto elim!: runsE)
qed

theorem closefrom_builder_correct_witness:
  "\<exists>w'. closefrom (ref_config Freebsd True False) (ref_os Freebsd False True False)
      (cb_allow_filesystem (ref_config Freebsd True False) False (cb_threadsafe (ref_config Freebsd True False) True
        (keep_fds_sorted [3, 8] CloseFdsBuilder_new))) 1 (init_world example_kernel) = Some (Inr ((), w')) \<and>
    ref_fdt (kern w') 2 = None \<and> ref_fdt (kern w') 3 = Some 1 \<and> ref_fdt (kern w') 5 = None \<and> ref_fdt (kern w') 8 = Some 0"
proof -
  have "keep_arg (ref_config Freebsd True False) 1 [3, 8]" by (rule keep_argI) (simp_all add: in_i32_def)
  then obtain w' where "closefrom (ref_config Freebsd True False) (ref_os Freebsd False True False)
      (cb_allow_filesystem (ref_config Freebsd True False) False (cb_threadsafe (ref_config Freebsd True False) True
        (keep_fds_sorted [3, 8] CloseFdsBuilder_new))) 1 (init_world example_kernel) = Some (Inr ((), w'))"
    "\<forall>fd. ref_fdt (kern w') fd = (if 1 \<le> fd \<and> fd \<notin> set [3, 8] then None else ref_fdt (kern (init_world example_kernel)) fd)"
    using closefrom_builder_correct [OF rk.fd_kernel_axioms [of Freebsd True False True False] statics_ok_init _ _ _ refl example_reaches_scan,
      of 1 "[3, 8]" False True] by auto
  then show ?thesis by (simp add: example_fdt)
qed

text \<open>
  C20. \<^verbatim>\<open>probe_features\<close> closes nothing and changes no flag: it returns, the descriptor table is the same
  afterwards, and the atomics are left in a state in which the other theorems apply.
\<close>

theorem probe_features_harmless:
  assumes "fd_kernel cfg os fdt dirs open_max release osreldate dirs_work" "statics_ok release osreldate w"
  shows "\<exists>w'. probe_features cfg os w = Some (Inr ((), w')) \<and> fdt (kern w') = fdt (kern w) \<and> statics_ok release osreldate w'"
  using fd_kernel.probe_features_runs [OF assms] by (auto elim!: runsE)

theorem probe_features_harmless_witness:
  "\<exists>w'. probe_features (ref_config Linux True False) (ref_os Linux False True True) (init_world example_kernel) = Some (Inr ((), w')) \<and>
    ref_fdt (kern w') = ref_fdt (kern (init_world example_kernel))"
  using probe_features_harmless [OF rk.fd_kernel_axioms [of Linux True False True True] statics_ok_init] by blast

text \<open>
  C13. The parts together: after \<^verbatim>\<open>probe_features()\<close> and \<^verbatim>\<open>close_open_fds(minfd, keep_fds)\<close>, collecting
  \<^verbatim>\<open>iter_open_fds(0)\<close> gives the descriptors that were open before and are below \<^verbatim>\<open>minfd\<close> or in \<^verbatim>\<open>keep_fds\<close>.
\<close>

theorem probe_close_iterate:
  assumes "fd_kernel cfg os fdt dirs open_max release osreldate dirs_work"
    and "statics_ok release osreldate w" "minfd \<le> i32_MAX" "keep_arg cfg minfd keep"
    and "reaches cfg open_max dirs_work FdIterBuilder_new (fdt (kern w))"
  shows "\<exists>w'. bnd (probe_features cfg os) (\<lambda>_. bnd (close_open_fds cfg os minfd keep) (\<lambda>_.
      bnd (iter_open_fds cfg os 0) (FdIter_collect cfg os))) w =
    Some (Inr (sorted_list_of_set {fd. fdt (kern w) fd \<noteq> None \<and> (fd < minfd \<or> fd \<in> set keep)}, w'))"
proof -
  let ?T = "\<lambda>fd. if minfd \<le> fd \<and> fd \<notin> set keep then None else fdt (kern w) fd"
  have tab: "upd eff_close ({max minfd 0..} - set keep) (fdt (kern w)) = ?T"
    by (rule ext) (simp add: fd_kernel.upd_from_fdt [OF assms(1)])
  have last: "runs (bnd (iter_open_fds cfg os 0) (FdIter_collect cfg os)) w2 (\<lambda>l _.
      l = sorted_list_of_set {fd. fdt (kern w) fd \<noteq> None \<and> (fd < minfd \<or> fd \<in> set keep)})"
    if w2: "statics_ok release osreldate w2" "fdt (kern w2) = ?T" for w2
  proof -
    have "reaches cfg open_max dirs_work FdIterBuilder_new (fdt (kern w2))"
      by (rule reaches_mono [OF assms(5)]) (auto simp: w2(2) split: if_splits)
    moreover have "{fd. ?T fd \<noteq> None \<and> 0 \<le> fd} = {fd. fdt (kern w) fd \<noteq> None \<and> (fd < minfd \<or> fd \<in> set keep)}"
      using fd_kernel.fd_range [OF assms(1), of "kern w"] by (auto split: if_splits)
    ultimately show ?thesis
      using fd_kernel.collect_iter_from [OF assms(1) w2(1), of 0 FdIterBuilder_new] w2(2)
      unfolding iter_open_fds_def by (auto simp: FdIterBuilder_new_def open_from_def elim!: runs_conseq)
  qed
  have "runs (bnd (probe_features cfg os) (\<lambda>_. bnd (close_open_fds cfg os minfd keep) (\<lambda>_.
      bnd (iter_open_fds cfg os 0) (FdIter_collect cfg os)))) w (\<lambda>l _.
      l = sorted_list_of_set {fd. fdt (kern w) fd \<noteq> None \<and> (fd < minfd \<or> fd \<in> set keep)})"
  proof (rule runs_bndI [OF fd_kernel.probe_features_runs [OF assms(1,2)]], goal_cases)
    case (1 u w1)
    then have w1: "statics_ok release osreldate w1" "fdt (kern w1) = fdt (kern w)" by auto
    with assms(5) have "reaches cfg open_max dirs_work FdIterBuilder_new (fdt (kern w1))" by simp
    from fd_kernel.close_open_fds_runs [OF assms(1) w1(1) assms(3,4) this] show ?case
      by (rule runs_bndI) (rule last, simp_all add: tab w1(2))
  qed
  then show ?thesis by (auto elim: runsE)
qed

theorem probe_close_iterate_witness:
  "\<exists>w'. bnd (probe_features (ref_config Linux True False) (ref_os Linux False False True)) (\<lambda>_.
      bnd (close_open_fds (ref_config Linux True False) (ref_os Linux False False True) 2 [3, 7, 8]) (\<lambda>_.
      bnd (iter_open_fds (ref_config Linux True False) (ref_os Linux False False True) 0)
        (FdIter_collect (ref_config Linux True False) (ref_os Linux False False True)))) (init_world example_kernel) =
    Some (Inr ([0, 1, 3, 8], w'))"
proof -
  have "{fd. ref_fdt (kern (init_world example_kernel)) fd \<noteq> None \<and> (fd < 2 \<or> fd \<in> set [3, 7, 8])} = {0, 1, 3, 8}"
    by (auto simp: ref_fdt_def example_kernel_def init_world_def split: if_splits)
  moreover have "keep_arg (ref_config Linux True False) 2 [3, 7, 8]" by (rule keep_argI) (simp_all add: in_i32_def)
  ultimately show ?thesis
    using probe_close_iterate [OF rk.fd_kernel_axioms [of Linux True False False True] statics_ok_init _ _ example_reaches, of 2 "[3, 7, 8]"]
    by simp
qed

text \<open>An old FreeBSD after its features have been probed, for the property of \<open>Statics\<close> about such kernels.\<close>

theorem freebsd_old_kernel_witness:
  "\<exists>w. probe_features (ref_config Freebsd True False) (ref_os Freebsd False False True) (init_world example_kernel) = Some (Inr ((), w)) \<and>
    closefrom (ref_config Freebsd True False) (ref_os Freebsd False False True\<lparr>os_syscall3 := (\<lambda>_ _ _ _ k. (0, example_kernel))\<rparr>)
      (keep_fds_sorted [5] CloseFdsBuilder_new) 3 w =
    closefrom (ref_config Freebsd True False) (ref_os Freebsd False False True) (keep_fds_sorted [5] CloseFdsBuilder_new) 3 w"
proof -
  have old: "target (ref_config Freebsd True False) = Freebsd" "old_kernel (ref_os Freebsd False False True)"
    by (simp_all add: old_kernel_def ref_os_simps ref_osreldate_def KERN_PROC_NFDS_def ref_config_def)
  obtain w where run: "probe_features (ref_config Freebsd True False) (ref_os Freebsd False False True) (init_world example_kernel) = Some (Inr ((), w))"
    by (rule runsE [OF rk.probe_features_runs [OF statics_ok_init, of Freebsd True False False True example_kernel]]) simp
  then have "(api_step (ref_config Freebsd True False) (ref_os Freebsd False False True) (\<lambda>_ _. True))\<^sup>*\<^sup>* (init_world example_kernel) w"
    by (blast intro: api_step.probing)
  from freebsd_old_kernel_no_close_range [OF old this] run show ?thesis by blast
qed

text \<open>A target without any help from the kernel, for the property of \<open>Fd_Iter\<close> about the maximum.\<close>

theorem get_maxfd_direct_witness:
  "runs (get_maxfd_direct (ref_config Other_Unix True False) (ref_os Other_Unix False False False)
     \<lparr>fi_dirfd_iter = None, fi_curfd = 0, fi_possible = False, fi_maxfd = None, fi_skip_nfds = False\<rparr>)
     (init_world example_kernel) (\<lambda>m _. m = 1023)"
  by (rule runs_conseq [OF get_maxfd_direct_total]) (simp add: ref_os_simps scan_max_def ref_open_max_def)

text \<open>Histories of calls, for the other properties of \<open>Statics\<close>.\<close>

lemma close_step:
  assumes "close_open_fds cfg os minfd keep w = Some (Inr ((), w'))" "keep_arg cfg minfd keep"
  shows "api_step cfg (os :: 'k os) env w w'"
proof -
  obtain k where "keep_fds cfg keep CloseFdsBuilder_new = (ret (CloseFdsBuilder_new\<lparr>cb_keep_fds := k\<rparr>) :: ('k world, CloseFdsBuilder) prog)"
    using keep_fds_ret [OF assms(2)] by metis
  with assms(1) show ?thesis by (auto simp: close_open_fds_def intro: api_step.closing)
qed

theorem atomics_monotone_witness:
  "\<exists>w'. close_open_fds (ref_config Linux True False) (ref_os Linux False False True) 3 []
      ((init_world example_kernel)\<lparr>PROBED := True, IS_WSL1 := 0\<rparr>) = Some (Inr ((), w')) \<and> PROBED w' \<and> IS_WSL1 w' = 0"
proof -
  let ?w = "(init_world example_kernel)\<lparr>PROBED := True, IS_WSL1 := 0\<rparr>"
  have "statics_ok ref_release (ref_osreldate False) ?w"
    "reaches (ref_config Linux True False) ref_open_max (ref_dirs_work Linux True) FdIterBuilder_new (ref_fdt (kern ?w))"
    using example_reaches [of True False]
    by (simp_all add: statics_ok_def init_world_def ref_release_not_wsl)
  moreover have keep: "keep_arg (ref_config Linux True False) 3 []" by (rule keep_argI) simp_all
  ultimately have "runs (close_open_fds (ref_config Linux True False) (ref_os Linux False False True) 3 []) ?w (\<lambda>_ _. True)"
    by (intro runs_conseq [OF rk.close_open_fds_runs]) simp_all
  from runsE [OF this]
  obtain w' where run: "close_open_fds (ref_config Linux True False) (ref_os Linux False False True) 3 [] ?w = Some (Inr ((), w'))"
    by auto
  then have "(api_step (ref_config Linux True False) (ref_os Linux False False True) (\<lambda>_ _. True))\<^sup>*\<^sup>* ?w w'" using keep by (blast intro: close_step)
  from atomics_monotone [OF this] run show ?thesis by (auto simp: statics_mono_def init_world_def)
qed

theorem reachable_statics_ok_witness:
  "\<exists>w'. probe_features (ref_config Linux True False) (ref_os Linux False True True) (init_world example_kernel) = Some (Inr ((), w')) \<and>
    statics_ok ref_release (ref_osreldate True) (w'\<lparr>kern := example_kernel\<rparr>)"
proof -
  obtain w' where run: "probe_features (ref_config Linux True False) (ref_os Linux False True True) (init_world example_kernel) = Some (Inr ((), w'))"
    by (rule runsE [OF rk.probe_features_runs [OF statics_ok_init, of Linux True False True True example_kernel]]) simp
  let ?step = "api_step (ref_config Linux True False) (ref_os Linux False True True) (\<lambda>_ _. True)"
  from run have "?step (init_world example_kernel) w'" by (rule api_step.probing)
  moreover have "?step w' (w'\<lparr>kern := example_kernel\<rparr>)" by (rule api_step.outside) simp
  ultimately have "?step\<^sup>*\<^sup>* (init_world example_kernel) (w'\<lparr>kern := example_kernel\<rparr>)" by simp
  from reachable_statics_ok [OF rk.fd_kernel_axioms this] run show ?thesis by blast
qed

text \<open>A Linux without \<^verbatim>\<open>close_range()\<close>, whose answers to the probe are written down.\<close>

theorem atomics_backed_witness:
  "\<exists>w. probe_features (ref_config Linux True False) (noting_os (ref_os Linux False False True)) (init_world (example_kernel, [])) = Some (Inr ((), w)) \<and>
    \<not> MAY_HAVE_CLOSE_RANGE w \<and> IS_WSL1 w = 0 \<and>
    (failed_range (ref_config Linux True False) 436 0 (answers w) \<or> failed_probe (ref_os Linux False False True) (answers w)) \<and>
    (\<exists>rel. Uname_Answer rel \<in> answers w \<and> \<not> uname_is_wsl1 rel)"
proof -
  let ?os = "ref_os Linux False False True"
  have "runs (probe_features (ref_config Linux True False) (noting_os ?os)) (init_world (example_kernel, []))
    (\<lambda>_ w. \<not> MAY_HAVE_CLOSE_RANGE w \<and> IS_WSL1 w = 0)"
    by (simp add: probe_features_def probe_features_imp_def closefds_probe_def close_probe_def cloexec_probe_def iterfds_probe_def
      set_cloexec_range_def is_wsl_1_def Let_def wp init_world_def ref_config_def noted_def ref_os_simps ref_close_range_def ref_release_not_wsl
      split: prod.splits)
  then obtain w where run: "probe_features (ref_config Linux True False) (noting_os ?os) (init_world (example_kernel, [])) = Some (Inr ((), w))"
    "\<not> MAY_HAVE_CLOSE_RANGE w" "IS_WSL1 w = 0"
    by (auto elim: runsE)
  then have "(api_step (ref_config Linux True False) (noting_os ?os) (\<lambda>k k'. snd k' = snd k))\<^sup>*\<^sup>* (init_world (example_kernel, [])) w"
    by (blast intro: api_step.probing)
  from atomics_backed [OF this] run show ?thesis by (simp add: backed_def ref_os_simps)
qed

text \<open>A new iterator over the descriptors from 2 on, for the properties of \<open>Iter_Fds\<close> and \<open>Size_Hint\<close>.\<close>

lemma example_iter:
  obtains it w where "iter_open_fds (ref_config Linux True False) (ref_os Linux False False True) 2 (init_world example_kernel) = Some (Inr (it, w))"
    "it_inv (dom (utab (ref_fdt (kern w)) it)) (ref_config Linux True False) ref_open_max (ref_dirs_work Linux True) (ref_fdt (kern w)) (ref_dirs (kern w)) it"
    "\<not> fi_possible it" "open_from (utab (ref_fdt (kern w)) it) (fi_curfd it) = [2, 3, 5, 8]"
proof -
  have "{fd. ref_fdt (kern (init_world example_kernel)) fd \<noteq> None \<and> 2 \<le> fd} = {2, 3, 5, 8}"
    by (auto simp: ref_fdt_def example_kernel_def init_world_def split: if_splits)
  then have "open_from (ref_fdt (kern (init_world example_kernel))) 2 = [2, 3, 5, 8]" by (simp add: open_from_def)
  with rk.iter_from_runs [OF statics_ok_init _ example_reaches [of True False], of 2 False] show thesis
    by (auto simp: iter_open_fds_def FdIterBuilder_new_def elim!: runsE intro!: that)
qed

theorem FdIter_next_refines_witness:
  "\<exists>it w it' w'. iter_open_fds (ref_config Linux True False) (ref_os Linux False False True) 2 (init_world example_kernel) = Some (Inr (it, w)) \<and>
    FdIter_next (ref_config Linux True False) (ref_os Linux False False True) it w = Some (Inr ((Some 2, it'), w')) \<and>
    open_from (utab (ref_fdt (kern w')) it') (fi_curfd it') = [3, 5, 8]"
proof -
  obtain it w where it: "iter_open_fds (ref_config Linux True False) (ref_os Linux False False True) 2 (init_world example_kernel) = Some (Inr (it, w))"
    "it_inv (dom (utab (ref_fdt (kern w)) it)) (ref_config Linux True False) ref_open_max (ref_dirs_work Linux True) (ref_fdt (kern w)) (ref_dirs (kern w)) it"
    "\<not> fi_possible it" "open_from (utab (ref_fdt (kern w)) it) (fi_curfd it) = [2, 3, 5, 8]" by (rule example_iter)
  from FdIter_next_refines [OF rk.fd_kernel_axioms [of Linux True False False True] it(2,3)] it(1,4) show ?thesis by auto
qed



theorem size_hint_bounds_witness:
  "\<exists>it w lo hi l w'. iter_open_fds (ref_config Linux True False) (ref_os Linux False False True) 2 (init_world example_kernel) = Some (Inr (it, w)) \<and>
    FdIter_size_hint (ref_config Linux True False) it w = Some (Inr ((lo, Some hi), w)) \<and>
    FdIter_collect (ref_config Linux True False) (ref_os Linux False False True) it w = Some (Inr (l, w')) \<and>
    lo \<le> length l \<and> length l \<le> hi"
proof -
  obtain it w where it: "iter_open_fds (ref_config Linux True False) (ref_os Linux False False True) 2 (init_world example_kernel) = Some (Inr (it, w))"
    "it_inv (dom (utab (ref_fdt (kern w)) it)) (ref_config Linux True False) ref_open_max (ref_dirs_work Linux True) (ref_fdt (kern w)) (ref_dirs (kern w)) it" by (rule example_iter)
  have "32 \<le> usize_bits (ref_config Linux True False)" by (simp add: ref_config_def)
  from size_hint_bounds [OF rk.fd_kernel_axioms [of Linux True False False True] this it(2)] it(1) show ?thesis by blast
qed

text \<open>The iterator among other threads: while it runs, 9 is opened and 5 is closed.\<close>

definition busy_schedule :: "nat \<Rightarrow> thread_act" where
  "busy_schedule n = (if n = 2 then Opens 9 else if n = 4 then Closes 5 else Idle)"

definition alone_with :: "rk \<Rightarrow> rk shared" where
  "alone_with k = \<lparr>sh_kern = k, sh_time = 0, sh_held = {}\<rparr>"

definition busy_os :: "rk shared os" where
  "busy_os = threads_os (ref_act {0, 1, 2, 3, 8} {0, 1, 2, 3, 5, 8, 9} busy_schedule) (ref_os Linux False False True)"

lemma busy_ok:
  "th_ok ref_fdt {0, 1, 2, 3, 8} {0, 1, 2, 3, 5, 8, 9} {} (kern (init_world (alone_with example_kernel)))"
  by (auto simp: th_ok_def init_world_def alone_with_def ref_fdt_def example_kernel_def split: if_splits)

lemma busy_reaches:
  "ref_dirs_work Linux True \<and> cfg_dirfd (target (ref_config Linux True False)) \<and>
     (\<exists>fd. 0 \<le> fd \<and> fd < ref_open_max \<and> fd < i32_MAX \<and> fd \<notin> {0, 1, 2, 3, 5, 8, 9}) \<or>
   (\<forall>fd\<in>{0, 1, 2, 3, 8}. fd \<le> scan_max ref_open_max)"
  by (simp add: scan_max_def ref_open_max_def)

theorem threadsafe_iteration_witness:
  "\<exists>l w'. bnd (iter_open_fds_threadsafe (ref_config Linux True False) busy_os 3) (FdIter_collect (ref_config Linux True False) busy_os)
      (init_world (alone_with example_kernel)) = Some (Inr (l, w')) \<and> {3, 8} \<subseteq> set l \<and> set l \<subseteq> {3, 5, 8, 9}"
proof -
  obtain l w' where "bnd (iter_open_fds_threadsafe (ref_config Linux True False) busy_os 3) (FdIter_collect (ref_config Linux True False) busy_os)
      (init_world (alone_with example_kernel)) = Some (Inr (l, w'))"
    "\<forall>fd\<in>{0, 1, 2, 3, 8}. 3 \<le> fd \<longrightarrow> fd \<in> set l" "\<forall>fd\<in>set l. 3 \<le> fd \<and> fd \<in> {0, 1, 2, 3, 5, 8, 9}"
    using threadsafe_iteration [OF rt.fd_threads_axioms [of Linux True False False True] statics_ok_init _ busy_ok busy_reaches, of 3 busy_schedule]
    unfolding busy_os_def by auto
  then show ?thesis by force
qed

theorem set_fds_cloexec_among_threads_witness:
  "\<exists>w'. set_fds_cloexec_threadsafe (ref_config Linux True False) busy_os 2 [3] (init_world (alone_with example_kernel)) = Some (Inr ((), w')) \<and>
    ref_fdt (sh_kern (kern w')) 1 = Some 0 \<and> ref_fdt (sh_kern (kern w')) 2 = Some 1 \<and>
    ref_fdt (sh_kern (kern w')) 3 = Some 1 \<and> ref_fdt (sh_kern (kern w')) 8 = Some 1"
proof -
  have keep: "keep_arg (ref_config Linux True False) 2 [3]" by (rule keep_argI) (simp_all add: in_i32_def)
  have init: "ref_fdt (sh_kern (kern (init_world (alone_with example_kernel)))) 1 = Some 0"
    "ref_fdt (sh_kern (kern (init_world (alone_with example_kernel)))) 2 = Some 0"
    "ref_fdt (sh_kern (kern (init_world (alone_with example_kernel)))) 3 = Some 1"
    "ref_fdt (sh_kern (kern (init_world (alone_with example_kernel)))) 8 = Some 0"
    by (simp_all add: init_world_def alone_with_def ref_fdt_def example_kernel_def)
  obtain w' where w': "set_fds_cloexec_threadsafe (ref_config Linux True False) busy_os 2 [3] (init_world (alone_with example_kernel)) = Some (Inr ((), w'))"
    "\<forall>fd\<in>{0, 1, 2, 3, 8}. ref_fdt (sh_kern (kern w')) fd = (if 2 \<le> fd \<and> fd \<notin> set [3]
       then map_option (\<lambda>fl. fl OR c_FD_CLOEXEC (ref_os Linux False False True)) (ref_fdt (sh_kern (kern (init_world (alone_with example_kernel)))) fd)
       else ref_fdt (sh_kern (kern (init_world (alone_with example_kernel)))) fd)"
    using set_fds_cloexec_among_threads [OF rt.fd_threads_axioms [of Linux True False False True] statics_ok_init _ keep busy_ok busy_reaches, of busy_schedule]
    unfolding busy_os_def by auto
  have "c_FD_CLOEXEC (ref_os Linux False False True) = 1" by (simp add: ref_os_simps)
  with w' init show ?thesis by simp
qed

text \<open>OpenBSD with four descriptors open, and another thread that opens descriptor 3 right after they have been counted: descriptor 5 is missed.\<close>

definition four_open :: rk where
  "four_open = \<lparr>rk_tab = [(0, 0), (1, 0), (2, 0), (5, 0)], rk_dirs = [], rk_errno = 0\<rparr>"

definition opens_three :: "rk \<Rightarrow> rk" where
  "opens_three k = k\<lparr>rk_tab := (3, 0) # rk_tab k\<rparr>"

theorem stale_count_misses_witness:
  "\<exists>w'. bnd (iter_open_fds (ref_config Openbsd True False) (late_os opens_three (ref_os Openbsd False False False)) 1)
      (FdIter_collect (ref_config Openbsd True False) (late_os opens_three (ref_os Openbsd False False False))) (init_world four_open) =
    Some (Inr ([1, 2, 3], w')) \<and> ref_fdt (kern w') 5 = Some 0"
proof -
  let ?T = "ref_fdt (kern (init_world four_open))"
  let ?T' = "ref_fdt (opens_three (snd (os_getdtablecount (ref_os Openbsd False False False) (kern (init_world four_open)))))"
  have T': "?T' = ?T(3 := Some 0)"
    by (rule ext) (simp add: ref_fdt_def init_world_def four_open_def opens_three_def ref_os_simps)
  have dom: "dom ?T = {0, 1, 2, 5}"
    by (auto simp: ref_fdt_def init_world_def four_open_def split: if_splits)
  then have dom': "dom ?T' = {0, 1, 2, 3, 5}" unfolding T' by auto
  have below: "{fd \<in> dom ?T'. fd < 4 * 2} = {0, 1, 2, 3, 5}" unfolding dom' by auto
  have "{x \<in> dom ?T'. x < 3 + 1} = {0, 1, 2, 3}" unfolding dom' by auto
  then have least: "least_open 4 ?T' = {x \<in> dom ?T'. x \<le> 3}" by (intro least_open_upto) (simp_all add: dom')
  have three: "{fd \<in> least_open 4 ?T'. 1 \<le> fd} = {1, 2, 3}" unfolding least dom' by auto
  have hyps: "target (ref_config Openbsd True False) = Openbsd" "4 = int (card (dom ?T))" "?T \<subseteq>\<^sub>m ?T'" "3 \<in> dom ?T'" "3 \<notin> dom ?T"
    "3 < Max (dom ?T)" "4 \<le> int (card {fd \<in> dom ?T'. fd < 4 * 2})"
    unfolding below by (simp_all add: dom dom' ref_config_def map_le_def) (simp add: T')
  obtain w' where w': "bnd (iter_open_fds (ref_config Openbsd True False) (late_os opens_three (ref_os Openbsd False False False)) 1)
      (FdIter_collect (ref_config Openbsd True False) (late_os opens_three (ref_os Openbsd False False False))) (init_world four_open) =
      Some (Inr (sorted_list_of_set {fd \<in> least_open 4 ?T'. 1 \<le> fd}, w'))" "ref_fdt (kern w') = ?T'"
    using stale_count_misses [where n = 4 and w = "init_world four_open" and act = opens_three and x = 3 and minfd = 1,
        OF rk.fd_kernel_axioms [of Openbsd True False False False] hyps(1,2) _ _ refl hyps(3-7)] by auto
  moreover have "?T' 5 = Some 0" unfolding T' by (simp add: ref_fdt_def init_world_def four_open_def)
  ultimately show ?thesis unfolding three by (intro exI [of _ w']) simp
qed

section \<open>Examples for the tests and the example program\<close>

lemma example_free_many: "149 < card (free_fds ref_open_max (ref_fdt (kern (init_world example_kernel))))"
proof -
  have "{10..200} \<subseteq> free_fds ref_open_max (ref_fdt (kern (init_world example_kernel)))"
    by (auto simp: free_fds_def ref_open_max_def ref_fdt_def example_kernel_def init_world_def)
  then have "card {10..200 :: int} \<le> card (free_fds ref_open_max (ref_fdt (kern (init_world example_kernel))))"
    by (rule card_mono [OF finite_free_fds])
  then show ?thesis by simp
qed

lemma example_free: "10 < card (free_fds ref_open_max (ref_fdt (kern (init_world example_kernel))))"
  using example_free_many by linarith

theorem descriptor_unit_tests_witness:
  "\<exists>w1 w2. test_is_fd_valid (ref_os Linux False False True) (init_world example_kernel) = Some (Inr ((), w1)) \<and>
    test_set_cloexec (ref_os Linux False False True) (init_world example_kernel) = Some (Inr ((), w2)) \<and>
    ref_fdt (kern w2) = ref_fdt example_kernel"
proof -
  have "ref_fdt (kern (init_world example_kernel)) 0 \<noteq> None" by (simp add: ref_fdt_def example_kernel_def init_world_def)
  moreover have "has_slot ref_open_max (ref_fdt (kern (init_world example_kernel)))" using example_slot by (simp add: init_world_def)
  ultimately show ?thesis
    using descriptor_unit_tests_pass [OF rf.file_kernel_axioms [of Linux True False False True], of "init_world example_kernel"]
    by (auto simp: init_world_def)
qed

theorem size_hint_tests_witness:
  "\<exists>w1 w2. test_size_hint_open (ref_config Linux True False) (ref_os Linux False False True) (init_world example_kernel) = Some (Inr ((), w1)) \<and>
    test_size_hint_possible (ref_config Linux True False) (ref_os Linux False False True) (init_world example_kernel) = Some (Inr ((), w2))"
proof -
  have bits: "32 \<le> usize_bits (ref_config Linux True False)" by (simp add: ref_config_def)
  show ?thesis
    using size_hint_tests_pass [OF rf.file_kernel_axioms [of Linux True False False True] statics_ok_init example_free example_reaches bits]
    by blast
qed

theorem fused_tests_witness:
  "\<exists>w1 w2. test_fused_open (ref_config Linux True False) (ref_os Linux False False True) (init_world example_kernel) = Some (Inr ((), w1)) \<and>
    test_fused_possible (ref_config Linux True False) (ref_os Linux False False True) (init_world example_kernel) = Some (Inr ((), w2))"
proof -
  have bits: "32 \<le> usize_bits (ref_config Linux True False)" by (simp add: ref_config_def)
  show ?thesis
    using fused_tests_pass [OF rf.file_kernel_axioms [of Linux True False False True] statics_ok_init example_free example_reaches bits]
    by blast
qed

text \<open>A child process in which the standard library holds one end of a pipe.\<close>

definition ref_child :: "rk \<Rightarrow> rk" where
  "ref_child k = snd (ref_open_root [O_CLOEXEC] k)"

lemma std_child_ref: "std_child ref_fdt ref_open_max ref_child"
  unfolding std_child_def
proof
  fix k
  obtain fd k' where o: "ref_open_root [O_CLOEXEC] k = (fd, k')" by fastforce
  then have "ref_child k = k'" by (simp add: ref_child_def)
  with ref_open_root_law [OF o] consider "ref_fdt (ref_child k) = ref_fdt k ++ Map.empty"
    | "ref_fdt (ref_child k) = ref_fdt k ++ [fd \<mapsto> 1]" "fd \<in> free_fds ref_open_max (ref_fdt k)"
    by (auto simp: free_fds_def ref_open_max_def)
  then show "\<exists>X. ref_fdt (ref_child k) = ref_fdt k ++ X \<and> dom X \<subseteq> free_fds ref_open_max (ref_fdt k) \<and> card (dom X) \<le> 2"
  proof cases
    case 1
    then show ?thesis by (intro exI [of _ Map.empty]) simp
  next
    case 2
    then show ?thesis by (intro exI [of _ "[fd \<mapsto> 1]"]) simp
  qed
qed

theorem command_close_survivors_witness:
  "\<exists>f1 f2 f3 wc w'. command_close_main (ref_config Linux True False) (ref_os Linux False False True) ref_child (init_world example_kernel) =
      Some (Inr (((f1, f2, f3), wc), w')) \<and>
    ref_fdt (kern w') = ref_fdt example_kernel \<and> exec_tab 1 (ref_fdt (kern wc)) 2 = Some 0 \<and>
    (\<forall>fd\<ge>3. exec_tab 1 (ref_fdt (kern wc)) fd \<noteq> None \<longleftrightarrow> fd = f1 \<or> fd = f3)"
proof -
  have free: "5 < card (free_fds ref_open_max (ref_fdt (kern (init_world example_kernel))))" using example_free by linarith
  have "c_FD_CLOEXEC (ref_os Linux False False True) = 1" by (simp add: ref_os_simps)
  with command_close_survivors [OF rf.file_kernel_axioms [of Linux True False False True] statics_ok_init example_reaches std_child_ref free]
  obtain f1 f2 f3 wc w' where
    "command_close_main (ref_config Linux True False) (ref_os Linux False False True) ref_child (init_world example_kernel) = Some (Inr (((f1, f2, f3), wc), w'))"
    "ref_fdt (kern w') = ref_fdt (kern (init_world example_kernel))"
    "\<forall>fd\<ge>3. exec_tab 1 (ref_fdt (kern wc)) fd \<noteq> None \<longleftrightarrow> fd = f1 \<or> fd = f3"
    "\<forall>fd<3. ref_fdt (kern (init_world example_kernel)) fd \<noteq> None \<longrightarrow>
       exec_tab 1 (ref_fdt (kern wc)) fd = exec_tab 1 (ref_fdt (kern (init_world example_kernel))) fd"
    by metis
  note r = this
  have two: "ref_fdt (kern (init_world example_kernel)) 2 = Some 0" by (rule example_fdt)
  then have "exec_tab 1 (ref_fdt (kern wc)) 2 = Some 0" using spec [OF r(4), of 2] by (simp add: exec_tab_def)
  moreover have "ref_fdt (kern w') = ref_fdt example_kernel" using r(2) by (simp add: init_world_def)
  ultimately show ?thesis using r(1,3) by blast
qed

text \<open>The wrap-around in a release build on Linux: nothing was to be done, and descriptors 0 to 8 are closed or marked.\<close>

theorem minfd_wraps_around_witness:
  "\<exists>w1 w2. close_open_fds (ref_config Linux False False) (ref_os Linux False True True) i32_MAX [i32_MAX] (init_world example_kernel) =
      Some (Inr ((), w1)) \<and> ref_fdt (kern w1) = Map.empty \<and>
    set_fds_cloexec (ref_config Linux False False) (ref_os Linux False True True) i32_MAX [i32_MAX] (init_world example_kernel) =
      Some (Inr ((), w2)) \<and> ref_fdt (kern w2) 2 = Some 1 \<and>
    close_open_fds (ref_config Linux True False) (ref_os Linux False True True) i32_MAX [i32_MAX] (init_world example_kernel) =
      Some (Inl Overflow)"
proof -
  have cfg: "\<not> overflow_checks (ref_config Linux False False)" "\<not> debug_assertions (ref_config Linux False False)"
    "overflow_checks (ref_config Linux True False)" by (simp_all add: ref_config_def)
  have flag: "c_FD_CLOEXEC (ref_os Linux False True True) = 1" by (simp add: ref_os_simps)
  note release = minfd_wraps_around [OF rk.fd_kernel_axioms [of Linux False False True True] statics_ok_init example_reaches]
  note checked = minfd_wraps_around [OF rk.fd_kernel_axioms [of Linux True False True True] statics_ok_init example_reaches]
  from release cfg flag obtain w1 w2 where
    "close_open_fds (ref_config Linux False False) (ref_os Linux False True True) i32_MAX [i32_MAX] (init_world example_kernel) = Some (Inr ((), w1))"
    "\<forall>fd. ref_fdt (kern w1) fd = None"
    "set_fds_cloexec (ref_config Linux False False) (ref_os Linux False True True) i32_MAX [i32_MAX] (init_world example_kernel) = Some (Inr ((), w2))"
    "\<forall>fd. ref_fdt (kern w2) fd = map_option (\<lambda>fl. fl OR 1) (ref_fdt (kern (init_world example_kernel)) fd)" by metis
  moreover from this have "ref_fdt (kern w1) = Map.empty" "ref_fdt (kern w2) 2 = Some 1" by (simp_all add: fun_eq_iff example_fdt)
  ultimately show ?thesis using checked cfg by blast
qed

text \<open>The integration tests on the reference kernel.\<close>

lemma example_scanned: "scanned ref_open_max (ref_fdt (kern (init_world example_kernel)))"
  by (auto simp: scanned_def ref_fdt_def example_kernel_def init_world_def scan_max_def ref_open_max_def split: if_splits)

theorem no_fds_child_witness:
  "(\<exists>w'. run_no_fds_child (ref_config Linux True False) (ref_os Linux False False True) (init_world example_kernel) = Some (Inr (0, w'))) \<and>
   run_no_fds_tests (ref_config Linux True False) (ref_os Linux False False True) 4711 (\<lambda>code. (4711, Some code)) (init_world example_kernel) =
     Some (Inr ((), init_world example_kernel))"
proof -
  have "0 < ref_open_max" "32 \<le> usize_bits (ref_config Linux True False)" "0 < (4711 :: c_int)" "\<forall>code :: c_int. (4711 :: c_int, Some code) = (4711, Some code)"
    by (simp_all add: ref_open_max_def ref_config_def)
  then show ?thesis
    by (rule no_fds_child_exits_zero [OF rf.file_kernel_axioms [of Linux True False False True] statics_ok_init example_reaches])
qed

theorem basic_tests_witness:
  "\<exists>w' m. run_basic_test (ref_os Linux False False True) (close_fds_keep1_test (ref_config Linux True False) (ref_os Linux False False True))
      CloseFdsBuilder_new (init_world example_kernel) = Some (Inr ((), w')) \<and> lowest (ref_fdt example_kernel) m \<and>
    (\<forall>fd. ref_fdt (kern w') fd = (if fd < m then ref_fdt example_kernel fd else None))"
proof -
  have p: "2 < card (free_fds ref_open_max (ref_fdt (kern (init_world example_kernel))))"
    "ref_fdt (kern (init_world example_kernel)) 0 \<noteq> None" "32 \<le> usize_bits (ref_config Linux True False)"
    using example_free by (simp_all add: ref_config_def ref_fdt_def example_kernel_def init_world_def)
  have k: "kern (init_world example_kernel) = example_kernel" by (simp add: init_world_def)
  from basic_tests_pass [OF rf.file_kernel_axioms [of Linux True False False True] statics_ok_init example_scanned p, of CloseFdsBuilder_new]
  show ?thesis unfolding k by blast
qed

text \<open>Here \<^verbatim>\<open>sort_unstable_by\<close> reverses the list.\<close>

theorem run_tests_witness:
  "\<exists>w'. run_tests (ref_config Linux True False) (ref_os Linux False False True) (\<lambda>cmp. rev) (init_world example_kernel) = Some (Inr ((), w')) \<and>
    (\<forall>fd. ref_fdt (kern w') fd = (if fd < 3 then ref_fdt example_kernel fd else None))"
proof -
  have p: "\<forall>fd\<in>{0, 1, 2}. ref_fdt (kern (init_world example_kernel)) fd \<noteq> None" "32 \<le> usize_bits (ref_config Linux True False)"
    "settled (ref_config Linux True False) (ref_dirs_work Linux True) (cfg_dirfd (target (ref_config Linux True False)))"
    "\<forall>(cmp :: c_int \<Rightarrow> c_int \<Rightarrow> Ordering) l. mset ((\<lambda>cmp. rev) cmp l) = mset (l :: c_int list)"
    by (simp_all add: ref_config_def ref_fdt_def example_kernel_def init_world_def settled_def ref_dirs_work_def)
  have k: "kern (init_world example_kernel) = example_kernel" by (simp add: init_world_def)
  from run_tests_pass [OF rf.file_kernel_axioms [of Linux True False False True] statics_ok_init example_scanned example_free_many p]
  show ?thesis unfolding k .
qed

end
